theory Spec2Isabelle
  imports Complex_Main "HOL-Library.Monad_Syntax"
begin

section \<open>Data model of 3lnn.h\<close>

text \<open>
  The network lives in one allocated block: the header fields of \<open>struct Network\<close> followed
  by the flexible array member \<open>layers[]\<close>, in which the three layers and their nodes are
  placed by byte offset.  Pointers into that region are modelled as byte offsets from
  \<open>nn->layers\<close> (type \<open>int\<close>), and the region itself as a store from offsets to cells.

  Sizes are those of the usual LP64 layout of the declarations in 3lnn.h:
  \<open>double\<close> is 8 bytes and 8-aligned, \<open>int\<close> is 4 bytes.  Hence
  \<open>struct Node {double bias; double output; int wcount; double weights[];}\<close> has its
  fields at offsets 0, 8, 16 and 24 and size 24, and
  \<open>struct Layer {int ncount; Node nodes[];}\<close> has its fields at offsets 0 and 8 and size 8.
  Every field therefore starts at a multiple of 8, and the store has one cell per 8-byte
  slot (an \<open>int\<close> field together with its padding occupies one slot).

  \<open>double\<close> values are modelled as real numbers.
\<close>

datatype LayerType = INPUT | HIDDEN | OUTPUT

datatype ActFctType = SIGMOID | TANH

datatype cell = IntCell int | DblCell real | Uninit

type_synonym memory = "int \<Rightarrow> cell option"

record Vector =
  size_v :: int
  vals :: "real list"

record Network =
  inpNodeSize :: int
  inpLayerSize :: int
  hidNodeSize :: int
  hidLayerSize :: int
  outNodeSize :: int
  outLayerSize :: int
  learningRate :: real
  hidLayerActType :: ActFctType
  outLayerActType :: ActFctType
  layers :: memory

definition sizeof_double :: int where
  "sizeof_double = 8"

definition sizeof_Node :: int where
  "sizeof_Node = 24"

definition sizeof_Layer :: int where
  "sizeof_Layer = 8"

definition sizeof_Network :: int where
  "sizeof_Network = 40"

text \<open>Field addresses: \<open>&n->bias\<close>, \<open>&n->output\<close>, \<open>&n->wcount\<close>, \<open>&n->weights[i]\<close>
  for a node pointer \<open>n\<close>, and \<open>&l->ncount\<close>, \<open>l->nodes\<close> for a layer pointer \<open>l\<close>.\<close>

definition bias_at :: "int \<Rightarrow> int" where
  "bias_at n = n"

definition output_at :: "int \<Rightarrow> int" where
  "output_at n = n + 8"

definition wcount_at :: "int \<Rightarrow> int" where
  "wcount_at n = n + 16"

definition weights_at :: "int \<Rightarrow> int \<Rightarrow> int" where
  "weights_at n i = n + sizeof_Node + i * sizeof_double"

definition ncount_at :: "int \<Rightarrow> int" where
  "ncount_at l = l"

definition nodes_at :: "int \<Rightarrow> int" where
  "nodes_at l = l + sizeof_Layer"

text \<open>
  Memory accesses.  A read yields \<open>None\<close> when the slot is outside the block, was never
  written, or holds a value of the other type: in C the result is then undefined or
  garbage.  A write yields \<open>None\<close> when the slot is outside the block.  \<open>None\<close> is
  propagated by every function below, so a result \<open>Some\<close> says that the run stayed within
  defined behaviour.
\<close>

definition read_int :: "memory \<Rightarrow> int \<Rightarrow> int option" where
  "read_int m a = (case m a of Some (IntCell i) \<Rightarrow> Some i | _ \<Rightarrow> None)"

definition read_dbl :: "memory \<Rightarrow> int \<Rightarrow> real option" where
  "read_dbl m a = (case m a of Some (DblCell d) \<Rightarrow> Some d | _ \<Rightarrow> None)"

definition write_int :: "memory \<Rightarrow> int \<Rightarrow> int \<Rightarrow> memory option" where
  "write_int m a v = (if m a = None then None else Some (m(a \<mapsto> IntCell v)))"

definition write_dbl :: "memory \<Rightarrow> int \<Rightarrow> real \<Rightarrow> memory option" where
  "write_dbl m a v = (if m a = None then None else Some (m(a \<mapsto> DblCell v)))"

section \<open>Arithmetic in \<open>int\<close>\<close>

text \<open>
  C's \<open>int\<close> has 32 bits.  A sum or product of two \<open>int\<close>s that does not fit is a signed
  overflow, and a \<open>size_t\<close> result that does not fit the \<open>int\<close> it is stored in is an
  out-of-range conversion; in both cases the run is given up (\<open>None\<close>).  Pointer arithmetic
  (an offset added to a byte pointer) is not bounded.
\<close>

definition INT_MAX :: int where
  "INT_MAX = 2147483647"

definition c_int :: "int \<Rightarrow> int option" where
  "c_int x = (if - INT_MAX - 1 \<le> x \<and> x \<le> INT_MAX then Some x else None)"

definition fits_int :: "int \<Rightarrow> bool" where
  "fits_int x \<longleftrightarrow> - INT_MAX - 1 \<le> x \<and> x \<le> INT_MAX"

lemma c_int_fits: "fits_int x \<Longrightarrow> c_int x = Some x"
  by (simp add: c_int_def fits_int_def)

section \<open>Addressing: getNode and getLayer\<close>

text \<open>
  getNode stores the node size in an \<open>int\<close> and multiplies the index by it in \<open>int\<close>;
  getLayer adds the sizes of the input and the hidden layer in \<open>int\<close> to find the output
  layer.
\<close>

definition getNode :: "memory \<Rightarrow> int \<Rightarrow> int \<Rightarrow> int option" where
  "getNode m l nodeId =
     do {
       wc \<leftarrow> read_int m (wcount_at (nodes_at l));
       nodeSize \<leftarrow> c_int (sizeof_Node + wc * sizeof_double);
       let sbptr = nodes_at l;
       off \<leftarrow> c_int (nodeId * nodeSize);
       Some (sbptr + off)
     }"

fun getLayer :: "Network \<Rightarrow> LayerType \<Rightarrow> int option" where
  "getLayer nn INPUT = Some 0"
| "getLayer nn HIDDEN = Some (0 + inpLayerSize nn)"
| "getLayer nn OUTPUT =
     do {
       s \<leftarrow> c_int (inpLayerSize nn + hidLayerSize nn);
       Some (0 + s)
     }"

declare getLayer.simps(3) [simp del]

text \<open>The offset of a layer when no sum overflows.\<close>

fun layer_at :: "Network \<Rightarrow> LayerType \<Rightarrow> int" where
  "layer_at nn INPUT = 0"
| "layer_at nn HIDDEN = 0 + inpLayerSize nn"
| "layer_at nn OUTPUT = 0 + (inpLayerSize nn + hidLayerSize nn)"


section \<open>Backward pass\<close>

definition getActFctDerivative :: "Network \<Rightarrow> LayerType \<Rightarrow> real \<Rightarrow> real" where
  "getActFctDerivative nn ltype outVal =
     (let actFct = (if ltype = HIDDEN then hidLayerActType nn else outLayerActType nn)
      in if actFct = TANH then 1 - (tanh outVal) ^ 2 else outVal * (1 - outVal))"

text \<open>
  A run of one of the functions below only ever stores doubles into slots of the block
  and leaves the header of the network alone.
\<close>

definition only_dbl :: "Network \<Rightarrow> Network \<Rightarrow> bool" where
  "only_dbl nn nn' \<longleftrightarrow>
     nn' = nn\<lparr>layers := layers nn'\<rparr> \<and>
     (\<forall>a. layers nn' a = layers nn a \<or>
          (layers nn a \<noteq> None \<and> (\<exists>d. layers nn' a = Some (DblCell d))))"

lemma only_dbl_refl: "only_dbl nn nn"
  by (simp add: only_dbl_def)

lemma only_dbl_trans: "only_dbl a b \<Longrightarrow> only_dbl b c \<Longrightarrow> only_dbl a c"
  unfolding only_dbl_def
  apply (intro conjI allI)
   apply (metis (no_types, lifting) Network.surjective Network.update_convs(10))
  apply (metis option.distinct(1))
  done

lemma only_dbl_write:
  "write_dbl (layers nn) a v = Some m' \<Longrightarrow> only_dbl nn (nn\<lparr>layers := m'\<rparr>)"
  by (auto simp: only_dbl_def write_dbl_def split: if_splits)

lemma only_dbl_read_int:
  "only_dbl nn nn' \<Longrightarrow> read_int (layers nn') a = Some n \<Longrightarrow> read_int (layers nn) a = Some n"
  unfolding only_dbl_def read_int_def
  by (metis (no_types, lifting) cell.simps(10) option.case_eq_if option.distinct(1) option.sel)

declare Option.bind_cong [fundef_cong]

text \<open>The loop of updateNodeWeights over the connections \<open>i\<close> of the node.\<close>

function updateNodeWeights_loop ::
  "Network \<Rightarrow> int \<Rightarrow> int \<Rightarrow> int \<Rightarrow> real \<Rightarrow> int \<Rightarrow> Network option" where
  "updateNodeWeights_loop nn updateNode sbptr prevLayerNodeSize error i =
     do {
       wc \<leftarrow> read_int (layers nn) (wcount_at updateNode);
       if i < wc then
         do {
           let prevLayerNode = sbptr;
           x \<leftarrow> read_dbl (layers nn) (output_at prevLayerNode);
           w \<leftarrow> read_dbl (layers nn) (weights_at updateNode i);
           m' \<leftarrow> write_dbl (layers nn) (weights_at updateNode i) (w + learningRate nn * x * error);
           updateNodeWeights_loop (nn\<lparr>layers := m'\<rparr>) updateNode
             (sbptr + prevLayerNodeSize) prevLayerNodeSize error (i + 1)
         }
       else Some nn
     }"
  by pat_completeness auto
termination
proof (relation "measure (\<lambda>(nn, updateNode, sbptr, sz, error, i).
          case read_int (layers nn) (wcount_at updateNode) of
            None \<Rightarrow> 0 | Some wc \<Rightarrow> nat (wc - i))")
  show "wf (measure (\<lambda>(nn, updateNode, sbptr, sz, error, i).
          case read_int (layers nn) (wcount_at updateNode) of
            None \<Rightarrow> 0 | Some wc \<Rightarrow> nat (wc - i)))"
    by simp
next
  fix nn :: Network and updateNode sbptr prevLayerNodeSize :: int and error :: real
    and i wc :: int and prevLayerNode :: int and x w :: real and m' :: memory
  assume rd: "read_int (layers nn) (wcount_at updateNode) = Some wc" and lt: "i < wc"
    and wr: "write_dbl (layers nn) (weights_at updateNode i) (w + learningRate nn * x * error) = Some m'"
  have "read_int m' (wcount_at updateNode) = None \<or> read_int m' (wcount_at updateNode) = Some wc"
    using only_dbl_read_int [OF only_dbl_write [OF wr], of "wcount_at updateNode"] rd
    by (cases "read_int m' (wcount_at updateNode)") auto
  then show "((nn\<lparr>layers := m'\<rparr>, updateNode, sbptr + prevLayerNodeSize, prevLayerNodeSize, error, i + 1),
          (nn, updateNode, sbptr, prevLayerNodeSize, error, i))
        \<in> measure (\<lambda>(nn, updateNode, sbptr, sz, error, i).
          case read_int (layers nn) (wcount_at updateNode) of
            None \<Rightarrow> 0 | Some wc \<Rightarrow> nat (wc - i))"
    using rd lt by auto
qed

declare updateNodeWeights_loop.simps [simp del]

definition updateNodeWeights :: "Network \<Rightarrow> LayerType \<Rightarrow> int \<Rightarrow> real \<Rightarrow> Network option" where
  "updateNodeWeights nn ltype nid error =
     do {
       updateLayer \<leftarrow> getLayer nn ltype;
       updateNode \<leftarrow> getNode (layers nn) updateLayer nid;
       (prevLayer, prevLayerNodeSize) \<leftarrow>
             (if ltype = HIDDEN then do { l \<leftarrow> getLayer nn INPUT; Some (l, inpNodeSize nn) }
              else do { l \<leftarrow> getLayer nn HIDDEN; Some (l, hidNodeSize nn) });
       let sbptr = nodes_at prevLayer;
       nn1 \<leftarrow> updateNodeWeights_loop nn updateNode sbptr prevLayerNodeSize error 0;
       b \<leftarrow> read_dbl (layers nn1) (bias_at updateNode);
       m' \<leftarrow> write_dbl (layers nn1) (bias_at updateNode) (b + learningRate nn1 * 1 * error);
       Some (nn1\<lparr>layers := m'\<rparr>)
     }"


lemma updateNodeWeights_loop_only_dbl:
  "updateNodeWeights_loop nn updateNode sbptr sz error i = Some nn' \<Longrightarrow> only_dbl nn nn'"
proof (induction nn updateNode sbptr sz error i rule: updateNodeWeights_loop.induct)
  case (1 nn updateNode sbptr sz error i)
  from "1.prems" obtain wc where
    rd: "read_int (layers nn) (wcount_at updateNode) = Some wc"
    by (subst (asm) updateNodeWeights_loop.simps) (auto simp: bind_eq_Some_conv)
  show ?case
  proof (cases "i < wc")
    case False
    with "1.prems" rd show ?thesis
      by (subst (asm) updateNodeWeights_loop.simps) (simp add: only_dbl_refl)
  next
    case True
    with "1.prems" rd obtain x w m' where
      x: "read_dbl (layers nn) (output_at sbptr) = Some x" and
      w: "read_dbl (layers nn) (weights_at updateNode i) = Some w" and
      wr: "write_dbl (layers nn) (weights_at updateNode i) (w + learningRate nn * x * error) = Some m'" and
      rest: "updateNodeWeights_loop (nn\<lparr>layers := m'\<rparr>) updateNode (sbptr + sz) sz error (i + 1) = Some nn'"
      by (subst (asm) updateNodeWeights_loop.simps) (auto simp: bind_eq_Some_conv)
    have "only_dbl (nn\<lparr>layers := m'\<rparr>) nn'"
      using "1.IH" [OF rd True _ x w wr rest] by simp
    with only_dbl_write [OF wr] show ?thesis
      by (rule only_dbl_trans)
  qed
qed

lemma updateNodeWeights_only_dbl:
  "updateNodeWeights nn ltype nid error = Some nn' \<Longrightarrow> only_dbl nn nn'"
  unfolding updateNodeWeights_def
  by (auto simp: bind_eq_Some_conv Let_def split: if_splits
      dest!: updateNodeWeights_loop_only_dbl only_dbl_write intro: only_dbl_trans)


lemma bound_measure:
  assumes "only_dbl nn nn'" and "read_int (layers nn) a = Some n" and "i < n"
  shows "(case read_int (layers nn') a of None \<Rightarrow> 0 | Some n' \<Rightarrow> nat (n' - (i + 1)))
        < nat (n - i)"
proof (cases "read_int (layers nn') a")
  case None
  with assms show ?thesis by simp
next
  case (Some n')
  with only_dbl_read_int [OF assms(1) Some] assms show ?thesis by simp
qed

lemma bound_measure_write:
  fixes nn :: Network
  assumes "write_dbl (layers nn) b v = Some m'" and "read_int (layers nn) a = Some n" and "i < n"
  shows "(case read_int m' a of None \<Rightarrow> 0 | Some n' \<Rightarrow> nat (n' - (i + 1))) < nat (n - i)"
  using bound_measure [OF only_dbl_write [OF assms(1)] assms(2,3)] by simp

text \<open>The inner loop of backPropagateHiddenLayer: the error sum of hidden node \<open>h\<close>
  over the output nodes \<open>o\<close>.\<close>

function backPropagateHiddenLayer_sum ::
  "Network \<Rightarrow> int \<Rightarrow> int \<Rightarrow> int \<Rightarrow> int \<Rightarrow> real \<Rightarrow> real option" where
  "backPropagateHiddenLayer_sum nn ol h targetClassification o_idx outputcellerrorsum =
     do {
       nc \<leftarrow> read_int (layers nn) (ncount_at ol);
       if o_idx < nc then
         do {
           on \<leftarrow> getNode (layers nn) ol o_idx;
           let targetOutput = (if o_idx = targetClassification then 1 else 0 :: int);
           out \<leftarrow> read_dbl (layers nn) (output_at on);
           let errorDelta = real_of_int targetOutput - out;
           let errorSignal = errorDelta * getActFctDerivative nn OUTPUT out;
           w \<leftarrow> read_dbl (layers nn) (weights_at on h);
           backPropagateHiddenLayer_sum nn ol h targetClassification (o_idx + 1)
             (outputcellerrorsum + errorSignal * w)
         }
       else Some outputcellerrorsum
     }"
  by pat_completeness auto
termination
  by (relation "measure (\<lambda>(nn, ol, h, t, o_idx, s).
          case read_int (layers nn) (ncount_at ol) of None \<Rightarrow> 0 | Some nc \<Rightarrow> nat (nc - o_idx))")
    auto

declare backPropagateHiddenLayer_sum.simps [simp del]

function backPropagateHiddenLayer_loop ::
  "Network \<Rightarrow> int \<Rightarrow> int \<Rightarrow> int \<Rightarrow> int \<Rightarrow> Network option" where
  "backPropagateHiddenLayer_loop nn ol hl targetClassification h =
     do {
       nc \<leftarrow> read_int (layers nn) (ncount_at hl);
       if h < nc then
         do {
           hn \<leftarrow> getNode (layers nn) hl h;
           outputcellerrorsum \<leftarrow> backPropagateHiddenLayer_sum nn ol h targetClassification 0 0;
           hout \<leftarrow> read_dbl (layers nn) (output_at hn);
           let hiddenErrorSignal = outputcellerrorsum * getActFctDerivative nn HIDDEN hout;
           nn' \<leftarrow> updateNodeWeights nn HIDDEN h hiddenErrorSignal;
           backPropagateHiddenLayer_loop nn' ol hl targetClassification (h + 1)
         }
       else Some nn
     }"
  by pat_completeness auto
termination
  by (relation "measure (\<lambda>(nn, ol, hl, t, h).
          case read_int (layers nn) (ncount_at hl) of None \<Rightarrow> 0 | Some nc \<Rightarrow> nat (nc - h))")
    (auto dest!: updateNodeWeights_only_dbl intro: bound_measure)

declare backPropagateHiddenLayer_loop.simps [simp del]

definition backPropagateHiddenLayer :: "Network \<Rightarrow> int \<Rightarrow> Network option" where
  "backPropagateHiddenLayer nn targetClassification =
     do {
       ol \<leftarrow> getLayer nn OUTPUT;
       hl \<leftarrow> getLayer nn HIDDEN;
       backPropagateHiddenLayer_loop nn ol hl targetClassification 0
     }"

function backPropagateOutputLayer_loop :: "Network \<Rightarrow> int \<Rightarrow> int \<Rightarrow> int \<Rightarrow> Network option" where
  "backPropagateOutputLayer_loop nn ol targetClassification o_idx =
     do {
       nc \<leftarrow> read_int (layers nn) (ncount_at ol);
       if o_idx < nc then
         do {
           on \<leftarrow> getNode (layers nn) ol o_idx;
           let targetOutput = (if o_idx = targetClassification then 1 else 0 :: int);
           out \<leftarrow> read_dbl (layers nn) (output_at on);
           let errorDelta = real_of_int targetOutput - out;
           let errorSignal = errorDelta * getActFctDerivative nn OUTPUT out;
           nn' \<leftarrow> updateNodeWeights nn OUTPUT o_idx errorSignal;
           backPropagateOutputLayer_loop nn' ol targetClassification (o_idx + 1)
         }
       else Some nn
     }"
  by pat_completeness auto
termination
  by (relation "measure (\<lambda>(nn, ol, t, o_idx).
          case read_int (layers nn) (ncount_at ol) of None \<Rightarrow> 0 | Some nc \<Rightarrow> nat (nc - o_idx))")
    (auto dest!: updateNodeWeights_only_dbl intro: bound_measure)

declare backPropagateOutputLayer_loop.simps [simp del]

definition backPropagateOutputLayer :: "Network \<Rightarrow> int \<Rightarrow> Network option" where
  "backPropagateOutputLayer nn targetClassification =
     do {
       ol \<leftarrow> getLayer nn OUTPUT;
       backPropagateOutputLayer_loop nn ol targetClassification 0
     }"

definition backPropagateNetwork :: "Network \<Rightarrow> int \<Rightarrow> Network option" where
  "backPropagateNetwork nn targetClassification =
     do {
       nn1 \<leftarrow> backPropagateOutputLayer nn targetClassification;
       backPropagateHiddenLayer nn1 targetClassification
     }"


section \<open>Forward pass\<close>

definition activateNode :: "Network \<Rightarrow> LayerType \<Rightarrow> int \<Rightarrow> Network option" where
  "activateNode nn ltype nid =
     do {
       l \<leftarrow> getLayer nn ltype;
       n \<leftarrow> getNode (layers nn) l nid;
       let actFct = (if ltype = HIDDEN then hidLayerActType nn else outLayerActType nn);
       x \<leftarrow> read_dbl (layers nn) (output_at n);
       m' \<leftarrow> write_dbl (layers nn) (output_at n)
               (if actFct = TANH then tanh x else 1 / (1 + exp (- x)));
       Some (nn\<lparr>layers := m'\<rparr>)
     }"

lemma activateNode_only_dbl: "activateNode nn ltype nid = Some nn' \<Longrightarrow> only_dbl nn nn'"
  unfolding activateNode_def
  by (auto simp: bind_eq_Some_conv Let_def dest!: only_dbl_write)

text \<open>The loop of calcNodeOutput over the nodes \<open>i\<close> of the previous layer.\<close>

function calcNodeOutput_loop ::
  "Network \<Rightarrow> int \<Rightarrow> int \<Rightarrow> int \<Rightarrow> int \<Rightarrow> int \<Rightarrow> Network option" where
  "calcNodeOutput_loop nn calcNode prevLayer sbptr prevLayerNodeSize i =
     do {
       nc \<leftarrow> read_int (layers nn) (ncount_at prevLayer);
       if i < nc then
         do {
           let prevLayerNode = sbptr;
           acc \<leftarrow> read_dbl (layers nn) (output_at calcNode);
           x \<leftarrow> read_dbl (layers nn) (output_at prevLayerNode);
           w \<leftarrow> read_dbl (layers nn) (weights_at calcNode i);
           m' \<leftarrow> write_dbl (layers nn) (output_at calcNode) (acc + x * w);
           calcNodeOutput_loop (nn\<lparr>layers := m'\<rparr>) calcNode prevLayer
             (sbptr + prevLayerNodeSize) prevLayerNodeSize (i + 1)
         }
       else Some nn
     }"
  by pat_completeness auto
termination
  by (relation "measure (\<lambda>(nn, calcNode, prevLayer, sbptr, sz, i).
          case read_int (layers nn) (ncount_at prevLayer) of None \<Rightarrow> 0 | Some nc \<Rightarrow> nat (nc - i))")
    (auto intro: bound_measure_write)

declare calcNodeOutput_loop.simps [simp del]

definition calcNodeOutput :: "Network \<Rightarrow> LayerType \<Rightarrow> int \<Rightarrow> Network option" where
  "calcNodeOutput nn ltype nid =
     do {
       calcLayer \<leftarrow> getLayer nn ltype;
       calcNode \<leftarrow> getNode (layers nn) calcLayer nid;
       (prevLayer, prevLayerNodeSize) \<leftarrow>
             (if ltype = HIDDEN then do { l \<leftarrow> getLayer nn INPUT; Some (l, inpNodeSize nn) }
              else do { l \<leftarrow> getLayer nn HIDDEN; Some (l, hidNodeSize nn) });
       let sbptr = nodes_at prevLayer;
       b \<leftarrow> read_dbl (layers nn) (bias_at calcNode);
       m1 \<leftarrow> write_dbl (layers nn) (output_at calcNode) b;
       calcNodeOutput_loop (nn\<lparr>layers := m1\<rparr>) calcNode prevLayer sbptr prevLayerNodeSize 0
     }"

lemma calcNodeOutput_loop_only_dbl:
  "calcNodeOutput_loop nn calcNode prevLayer sbptr sz i = Some nn' \<Longrightarrow> only_dbl nn nn'"
proof (induction nn calcNode prevLayer sbptr sz i rule: calcNodeOutput_loop.induct)
  case (1 nn calcNode prevLayer sbptr sz i)
  from "1.prems" obtain nc where
    rd: "read_int (layers nn) (ncount_at prevLayer) = Some nc"
    by (subst (asm) calcNodeOutput_loop.simps) (auto simp: bind_eq_Some_conv)
  show ?case
  proof (cases "i < nc")
    case False
    with "1.prems" rd show ?thesis
      by (subst (asm) calcNodeOutput_loop.simps) (simp add: only_dbl_refl)
  next
    case True
    with "1.prems" rd obtain acc x w m' where
      acc: "read_dbl (layers nn) (output_at calcNode) = Some acc" and
      x: "read_dbl (layers nn) (output_at sbptr) = Some x" and
      w: "read_dbl (layers nn) (weights_at calcNode i) = Some w" and
      wr: "write_dbl (layers nn) (output_at calcNode) (acc + x * w) = Some m'" and
      rest: "calcNodeOutput_loop (nn\<lparr>layers := m'\<rparr>) calcNode prevLayer (sbptr + sz) sz (i + 1) = Some nn'"
      by (subst (asm) calcNodeOutput_loop.simps) (auto simp: bind_eq_Some_conv)
    have "only_dbl (nn\<lparr>layers := m'\<rparr>) nn'"
      using "1.IH" [OF rd True _ acc x w wr rest] by simp
    with only_dbl_write [OF wr] show ?thesis
      by (rule only_dbl_trans)
  qed
qed

lemma calcNodeOutput_only_dbl: "calcNodeOutput nn ltype nid = Some nn' \<Longrightarrow> only_dbl nn nn'"
  unfolding calcNodeOutput_def
  by (auto simp: bind_eq_Some_conv Let_def split: if_splits
      dest!: calcNodeOutput_loop_only_dbl only_dbl_write intro: only_dbl_trans)

function calcLayer_loop :: "Network \<Rightarrow> LayerType \<Rightarrow> int \<Rightarrow> int \<Rightarrow> Network option" where
  "calcLayer_loop nn ltype l i =
     do {
       nc \<leftarrow> read_int (layers nn) (ncount_at l);
       if i < nc then
         do {
           nn1 \<leftarrow> calcNodeOutput nn ltype i;
           nn2 \<leftarrow> activateNode nn1 ltype i;
           calcLayer_loop nn2 ltype l (i + 1)
         }
       else Some nn
     }"
  by pat_completeness auto
termination
  by (relation "measure (\<lambda>(nn, ltype, l, i).
          case read_int (layers nn) (ncount_at l) of None \<Rightarrow> 0 | Some nc \<Rightarrow> nat (nc - i))")
    (auto dest!: calcNodeOutput_only_dbl activateNode_only_dbl
          intro: bound_measure only_dbl_trans)

declare calcLayer_loop.simps [simp del]

definition calcLayer :: "Network \<Rightarrow> LayerType \<Rightarrow> Network option" where
  "calcLayer nn ltype =
     do {
       l \<leftarrow> getLayer nn ltype;
       calcLayer_loop nn ltype l 0
     }"

definition feedForwardNetwork :: "Network \<Rightarrow> Network option" where
  "feedForwardNetwork nn =
     do {
       nn1 \<leftarrow> calcLayer nn HIDDEN;
       calcLayer nn1 OUTPUT
     }"

text \<open>feedInput: \<open>iln++\<close> advances the node pointer by \<open>sizeof(Node)\<close>.  Reading
  \<open>v->vals[i]\<close> beyond the values the vector holds is an out-of-range read.\<close>

definition vals_at :: "Vector \<Rightarrow> int \<Rightarrow> real option" where
  "vals_at v i = (if 0 \<le> i \<and> i < int (length (vals v)) then Some (vals v ! nat i) else None)"

function feedInput_loop :: "Network \<Rightarrow> Vector \<Rightarrow> int \<Rightarrow> int \<Rightarrow> Network option" where
  "feedInput_loop nn v iln i =
     (if i < size_v v then
        do {
          x \<leftarrow> vals_at v i;
          m' \<leftarrow> write_dbl (layers nn) (output_at iln) x;
          feedInput_loop (nn\<lparr>layers := m'\<rparr>) v (iln + sizeof_Node) (i + 1)
        }
      else Some nn)"
  by pat_completeness auto
termination
  by (relation "measure (\<lambda>(nn, v, iln, i). nat (size_v v - i))") auto

declare feedInput_loop.simps [simp del]

definition feedInput :: "Network \<Rightarrow> Vector \<Rightarrow> Network option" where
  "feedInput nn v =
     (let il = 0;
          iln = nodes_at il
      in feedInput_loop nn v iln 0)"

section \<open>Classification\<close>

function getNetworkClassification_loop ::
  "Network \<Rightarrow> int \<Rightarrow> int \<Rightarrow> real \<Rightarrow> int \<Rightarrow> int option" where
  "getNetworkClassification_loop nn l i maxOut maxInd =
     do {
       nc \<leftarrow> read_int (layers nn) (ncount_at l);
       if i < nc then
         do {
           on \<leftarrow> getNode (layers nn) l i;
           out \<leftarrow> read_dbl (layers nn) (output_at on);
           if out > maxOut then getNetworkClassification_loop nn l (i + 1) out i
           else getNetworkClassification_loop nn l (i + 1) maxOut maxInd
         }
       else Some maxInd
     }"
  by pat_completeness auto
termination
  by (relation "measure (\<lambda>(nn, l, i, maxOut, maxInd).
          case read_int (layers nn) (ncount_at l) of None \<Rightarrow> 0 | Some nc \<Rightarrow> nat (nc - i))")
    auto

declare getNetworkClassification_loop.simps [simp del]

definition getNetworkClassification :: "Network \<Rightarrow> int option" where
  "getNetworkClassification nn =
     do {
       l \<leftarrow> getLayer nn OUTPUT;
       getNetworkClassification_loop nn l 0 0 0
     }"


section \<open>Construction\<close>

text \<open>
  Node and layer sizes are computed in \<open>int\<close>, as above.  \<open>malloc\<close> is taken to succeed
  for every non-negative size, and returns a block of uninitialised slots; \<open>memcpy\<close> needs
  every slot of both ranges inside its block and copies the range (every call in this
  program copies a whole number of slots).  \<open>rand()\<close> is the sequence
  \<open>rnd 0, rnd 1, ...\<close> of its results, each between 0 and \<open>RAND_MAX\<close>.
\<close>

definition RAND_MAX :: int where
  "RAND_MAX = 2147483647"

definition malloc :: "int \<Rightarrow> memory option" where
  "malloc n =
     (if 0 \<le> n then Some (\<lambda>a. if 0 \<le> a \<and> a + 8 \<le> n \<and> a mod 8 = 0 then Some Uninit else None)
      else None)"

definition memcpy :: "memory \<Rightarrow> int \<Rightarrow> memory \<Rightarrow> int \<Rightarrow> int \<Rightarrow> memory option" where
  "memcpy dm d sm s n =
     (if 0 \<le> n \<and> (\<forall>k\<in>{0..<n}. k mod 8 = 0 \<longrightarrow> dm (d + k) \<noteq> None \<and> sm (s + k) \<noteq> None)
      then Some (\<lambda>a. if d \<le> a \<and> a < d + n then sm (s + (a - d)) else dm a)
      else None)"

partial_function (option) createInputLayer_loop ::
  "memory \<Rightarrow> memory \<Rightarrow> int \<Rightarrow> int \<Rightarrow> int \<Rightarrow> memory option" where
  "createInputLayer_loop il iln inpNodeSize' sbptr i =
     do {
       nc \<leftarrow> read_int il (ncount_at 0);
       if i < nc then
         do {
           il' \<leftarrow> memcpy il sbptr iln 0 inpNodeSize';
           createInputLayer_loop il' iln inpNodeSize' (sbptr + inpNodeSize') (i + 1)
         }
       else Some il
     }"

definition createInputLayer :: "int \<Rightarrow> memory option" where
  "createInputLayer inpCount =
     do {
       let inpNodeSize' = sizeof_Node;
       p \<leftarrow> c_int (inpCount * inpNodeSize');
       inpLayerSize' \<leftarrow> c_int (sizeof_Layer + p);
       il0 \<leftarrow> malloc inpLayerSize';
       il1 \<leftarrow> write_int il0 (ncount_at 0) inpCount;
       iln0 \<leftarrow> malloc sizeof_Node;
       iln1 \<leftarrow> write_dbl iln0 (bias_at 0) 0;
       iln2 \<leftarrow> write_dbl iln1 (output_at 0) 0;
       iln3 \<leftarrow> write_int iln2 (wcount_at 0) 0;
       let sbptr = nodes_at 0;
       createInputLayer_loop il1 iln3 inpNodeSize' sbptr 0
     }"

function createLayer_wloop :: "memory \<Rightarrow> int \<Rightarrow> int \<Rightarrow> memory option" where
  "createLayer_wloop dn weightCount o_idx =
     (if o_idx < weightCount then
        do {
          dn' \<leftarrow> write_dbl dn (weights_at 0 o_idx) 0;
          createLayer_wloop dn' weightCount (o_idx + 1)
        }
      else Some dn)"
  by pat_completeness auto
termination
  by (relation "measure (\<lambda>(dn, weightCount, o_idx). nat (weightCount - o_idx))") auto

declare createLayer_wloop.simps [simp del]

function createLayer_nloop ::
  "memory \<Rightarrow> memory \<Rightarrow> int \<Rightarrow> int \<Rightarrow> int \<Rightarrow> int \<Rightarrow> memory option" where
  "createLayer_nloop l dn nodeSize sbptr nodeCount i =
     (if i < nodeCount then
        do {
          off \<leftarrow> c_int (i * nodeSize);
          l' \<leftarrow> memcpy l (sbptr + off) dn 0 nodeSize;
          createLayer_nloop l' dn nodeSize sbptr nodeCount (i + 1)
        }
      else Some l)"
  by pat_completeness auto
termination
  by (relation "measure (\<lambda>(l, dn, nodeSize, sbptr, nodeCount, i). nat (nodeCount - i))") auto

declare createLayer_nloop.simps [simp del]

definition createLayer :: "int \<Rightarrow> int \<Rightarrow> memory option" where
  "createLayer nodeCount weightCount =
     do {
       nodeSize \<leftarrow> c_int (sizeof_Node + weightCount * sizeof_double);
       p \<leftarrow> c_int (nodeCount * nodeSize);
       l0 \<leftarrow> malloc (sizeof_Layer + p);
       l1 \<leftarrow> write_int l0 (ncount_at 0) nodeCount;
       dn0 \<leftarrow> malloc (sizeof_Node + weightCount * sizeof_double);
       dn1 \<leftarrow> write_dbl dn0 (bias_at 0) 0;
       dn2 \<leftarrow> write_dbl dn1 (output_at 0) 0;
       dn3 \<leftarrow> write_int dn2 (wcount_at 0) weightCount;
       dn4 \<leftarrow> createLayer_wloop dn3 weightCount 0;
       let sbptr = nodes_at 0;
       createLayer_nloop l1 dn4 nodeSize sbptr nodeCount 0
     }"

definition initNetwork :: "Network \<Rightarrow> int \<Rightarrow> int \<Rightarrow> int \<Rightarrow> Network option" where
  "initNetwork nn inpCount hidCount outCount =
     do {
       il \<leftarrow> createInputLayer inpCount;
       m1 \<leftarrow> memcpy (layers nn) 0 il 0 (inpLayerSize nn);
       let sbptr = 0 + inpLayerSize nn;
       hl \<leftarrow> createLayer hidCount inpCount;
       m2 \<leftarrow> memcpy m1 sbptr hl 0 (hidLayerSize nn);
       let sbptr = sbptr + hidLayerSize nn;
       ol \<leftarrow> createLayer outCount hidCount;
       m3 \<leftarrow> memcpy m2 sbptr ol 0 (outLayerSize nn);
       Some (nn\<lparr>layers := m3\<rparr>)
     }"

definition setNetworkDefaults :: "Network \<Rightarrow> Network" where
  "setNetworkDefaults nn =
     nn\<lparr>hidLayerActType := SIGMOID, outLayerActType := SIGMOID,
        learningRate := 0.004, learningRate := 0.2\<rparr>"

text \<open>initWeights: the state carries the number \<open>k\<close> of calls of \<open>rand()\<close> made so far.\<close>

function initWeights_wloop ::
  "(nat \<Rightarrow> int) \<Rightarrow> Network \<Rightarrow> nat \<Rightarrow> int \<Rightarrow> int \<Rightarrow> (Network \<times> nat) option" where
  "initWeights_wloop rnd nn k n i =
     do {
       wc \<leftarrow> read_int (layers nn) (wcount_at n);
       if i < wc then
         do {
           m1 \<leftarrow> write_dbl (layers nn) (weights_at n i)
                   (0.7 * (real_of_int (rnd k) / real_of_int RAND_MAX));
           m2 \<leftarrow> (if i mod 2 \<noteq> 0 then
                    do {
                      w \<leftarrow> read_dbl m1 (weights_at n i);
                      write_dbl m1 (weights_at n i) (- w)
                    }
                  else Some m1);
           initWeights_wloop rnd (nn\<lparr>layers := m2\<rparr>) (k + 1) n (i + 1)
         }
       else Some (nn, k)
     }"
  by pat_completeness auto
termination
proof (relation "measure (\<lambda>(rnd, nn, k, n, i).
          case read_int (layers nn) (wcount_at n) of None \<Rightarrow> 0 | Some wc \<Rightarrow> nat (wc - i))")
  show "wf (measure (\<lambda>(rnd, nn, k, n, i).
          case read_int (layers nn) (wcount_at n) of None \<Rightarrow> 0 | Some wc \<Rightarrow> nat (wc - i)))"
    by simp
next
  fix rnd :: "nat \<Rightarrow> int" and nn :: Network and k :: nat and n i wc :: int and m1 m2 :: memory
  assume rd: "read_int (layers nn) (wcount_at n) = Some wc" and lt: "i < wc"
    and w1: "write_dbl (layers nn) (weights_at n i)
               (0.7 * (real_of_int (rnd k) / real_of_int RAND_MAX)) = Some m1"
    and w2: "(if i mod 2 \<noteq> 0 then
                do { w \<leftarrow> read_dbl m1 (weights_at n i); write_dbl m1 (weights_at n i) (- w) }
              else Some m1) = Some m2"
  have "only_dbl (nn\<lparr>layers := m1\<rparr>) (nn\<lparr>layers := m2\<rparr>)"
    using w2 only_dbl_write [of "nn\<lparr>layers := m1\<rparr>" "weights_at n i" _ m2]
    by (auto simp: bind_eq_Some_conv only_dbl_refl split: if_splits)
  with only_dbl_write [OF w1] have "only_dbl nn (nn\<lparr>layers := m2\<rparr>)"
    by (rule only_dbl_trans)
  from bound_measure [OF this rd lt]
  show "((rnd, nn\<lparr>layers := m2\<rparr>, k + 1, n, i + 1), (rnd, nn, k, n, i))
        \<in> measure (\<lambda>(rnd, nn, k, n, i).
          case read_int (layers nn) (wcount_at n) of None \<Rightarrow> 0 | Some wc \<Rightarrow> nat (wc - i))"
    using rd by simp
qed

declare initWeights_wloop.simps [simp del]


lemma negate_only_dbl:
  fixes nn :: Network
  assumes "(if c then do { w \<leftarrow> read_dbl m1 a; write_dbl m1 a (- w) } else Some m1) = Some m2"
  shows "only_dbl (nn\<lparr>layers := m1\<rparr>) (nn\<lparr>layers := m2\<rparr>)"
  using assms only_dbl_write [of "nn\<lparr>layers := m1\<rparr>" a _ m2]
  by (auto simp: bind_eq_Some_conv only_dbl_refl split: if_splits)

lemma initWeights_wloop_only_dbl:
  "initWeights_wloop rnd nn k n i = Some (nn', k') \<Longrightarrow> only_dbl nn nn'"
proof (induction rnd nn k n i rule: initWeights_wloop.induct)
  case (1 rnd nn k n i)
  from "1.prems" obtain wc where rd: "read_int (layers nn) (wcount_at n) = Some wc"
    by (subst (asm) initWeights_wloop.simps) (auto simp: bind_eq_Some_conv)
  show ?case
  proof (cases "i < wc")
    case False
    with "1.prems" rd show ?thesis
      by (subst (asm) initWeights_wloop.simps) (simp add: only_dbl_refl)
  next
    case True
    with "1.prems" rd obtain m1 m2 where
      w1: "write_dbl (layers nn) (weights_at n i)
             (0.7 * (real_of_int (rnd k) / real_of_int RAND_MAX)) = Some m1" and
      w2: "(if i mod 2 \<noteq> 0 then
              do { w \<leftarrow> read_dbl m1 (weights_at n i); write_dbl m1 (weights_at n i) (- w) }
            else Some m1) = Some m2" and
      rest: "initWeights_wloop rnd (nn\<lparr>layers := m2\<rparr>) (k + 1) n (i + 1) = Some (nn', k')"
      by (subst (asm) initWeights_wloop.simps) (auto simp: bind_eq_Some_conv)
    have "only_dbl (nn\<lparr>layers := m2\<rparr>) nn'"
      using "1.IH" [OF rd True w1 w2 rest] .
    moreover have "only_dbl nn (nn\<lparr>layers := m2\<rparr>)"
      using only_dbl_write [OF w1] negate_only_dbl [OF w2] by (rule only_dbl_trans)
    ultimately show ?thesis
      using only_dbl_trans by blast
  qed
qed

function initWeights_loop ::
  "(nat \<Rightarrow> int) \<Rightarrow> Network \<Rightarrow> nat \<Rightarrow> int \<Rightarrow> int \<Rightarrow> int \<Rightarrow> int \<Rightarrow> (Network \<times> nat) option" where
  "initWeights_loop rnd nn k l sbptr nodeSize o_idx =
     do {
       nc \<leftarrow> read_int (layers nn) (ncount_at l);
       if o_idx < nc then
         do {
           let n = sbptr;
           r \<leftarrow> initWeights_wloop rnd nn k n 0;
           m1 \<leftarrow> write_dbl (layers (fst r)) (bias_at n)
                   (real_of_int (rnd (snd r)) / real_of_int RAND_MAX);
           m2 \<leftarrow> (if o_idx mod 2 \<noteq> 0 then
                    do {
                      b \<leftarrow> read_dbl m1 (bias_at n);
                      write_dbl m1 (bias_at n) (- b)
                    }
                  else Some m1);
           initWeights_loop rnd ((fst r)\<lparr>layers := m2\<rparr>) (snd r + 1) l
             (sbptr + nodeSize) nodeSize (o_idx + 1)
         }
       else Some (nn, k)
     }"
  by pat_completeness auto
termination
proof (relation "measure (\<lambda>(rnd, nn, k, l, sbptr, nodeSize, o_idx).
          case read_int (layers nn) (ncount_at l) of None \<Rightarrow> 0 | Some nc \<Rightarrow> nat (nc - o_idx))")
  show "wf (measure (\<lambda>(rnd, nn, k, l, sbptr, nodeSize, o_idx).
          case read_int (layers nn) (ncount_at l) of None \<Rightarrow> 0 | Some nc \<Rightarrow> nat (nc - o_idx)))"
    by simp
next
  fix rnd :: "nat \<Rightarrow> int" and nn :: Network and k :: nat and l sbptr nodeSize o_idx nc n :: int
    and r :: "Network \<times> nat" and m1 m2 :: memory
  assume rd: "read_int (layers nn) (ncount_at l) = Some nc" and lt: "o_idx < nc"
    and n: "n = sbptr"
    and r: "initWeights_wloop rnd nn k n 0 = Some r"
    and w1: "write_dbl (layers (fst r)) (bias_at n)
               (real_of_int (rnd (snd r)) / real_of_int RAND_MAX) = Some m1"
    and w2: "(if o_idx mod 2 \<noteq> 0 then
                do { b \<leftarrow> read_dbl m1 (bias_at n); write_dbl m1 (bias_at n) (- b) }
              else Some m1) = Some m2"
  have "only_dbl nn (fst r)"
    using r initWeights_wloop_only_dbl [of rnd nn k n 0 "fst r" "snd r"] by simp
  moreover have "only_dbl (fst r) ((fst r)\<lparr>layers := m2\<rparr>)"
    using only_dbl_write [OF w1] negate_only_dbl [OF w2] by (rule only_dbl_trans)
  ultimately have "only_dbl nn ((fst r)\<lparr>layers := m2\<rparr>)"
    by (rule only_dbl_trans)
  from bound_measure [OF this rd lt]
  show "((rnd, (fst r)\<lparr>layers := m2\<rparr>, snd r + 1, l, sbptr + nodeSize, nodeSize, o_idx + 1),
         (rnd, nn, k, l, sbptr, nodeSize, o_idx))
        \<in> measure (\<lambda>(rnd, nn, k, l, sbptr, nodeSize, o_idx).
          case read_int (layers nn) (ncount_at l) of None \<Rightarrow> 0 | Some nc \<Rightarrow> nat (nc - o_idx))"
    using rd by simp
qed

declare initWeights_loop.simps [simp del]

definition initWeights :: "(nat \<Rightarrow> int) \<Rightarrow> Network \<Rightarrow> nat \<Rightarrow> LayerType \<Rightarrow> (Network \<times> nat) option" where
  "initWeights rnd nn k ltype =
     do {
       let nodeSize = (if ltype = HIDDEN then hidNodeSize nn else outNodeSize nn);
       l \<leftarrow> getLayer nn ltype;
       let sbptr = nodes_at l;
       initWeights_loop rnd nn k l sbptr nodeSize 0
     }"

definition createNetwork :: "(nat \<Rightarrow> int) \<Rightarrow> int \<Rightarrow> int \<Rightarrow> int \<Rightarrow> Network option" where
  "createNetwork rnd inpCount hidCount outCount =
     do {
       let inpNodeSize' = sizeof_Node;
       p1 \<leftarrow> c_int (inpCount * inpNodeSize');
       inpLayerSize' \<leftarrow> c_int (sizeof_Layer + p1);
       let hidWeightsCount = inpCount;
       hidNodeSize' \<leftarrow> c_int (sizeof_Node + hidWeightsCount * sizeof_double);
       p2 \<leftarrow> c_int (hidCount * hidNodeSize');
       hidLayerSize' \<leftarrow> c_int (sizeof_Layer + p2);
       let outWeightsCount = hidCount;
       outNodeSize' \<leftarrow> c_int (sizeof_Node + outWeightsCount * sizeof_double);
       p3 \<leftarrow> c_int (outCount * outNodeSize');
       outLayerSize' \<leftarrow> c_int (sizeof_Layer + p3);
       block \<leftarrow> malloc (sizeof_Network + inpLayerSize' + hidLayerSize' + outLayerSize');
       let nn = \<lparr>inpNodeSize = inpNodeSize', inpLayerSize = inpLayerSize',
                 hidNodeSize = hidNodeSize', hidLayerSize = hidLayerSize',
                 outNodeSize = outNodeSize', outLayerSize = outLayerSize',
                 learningRate = 0, hidLayerActType = SIGMOID, outLayerActType = SIGMOID,
                 layers = (\<lambda>a. if 0 \<le> a then block (a + sizeof_Network) else None)\<rparr>;
       nn1 \<leftarrow> initNetwork nn inpCount hidCount outCount;
       let nn2 = setNetworkDefaults nn1;
       r3 \<leftarrow> initWeights rnd nn2 0 HIDDEN;
       r4 \<leftarrow> initWeights rnd (fst r3) (snd r3) OUTPUT;
       Some (fst r4)
     }"


section \<open>Well-formed networks\<close>

text \<open>
  The layout that createNetwork establishes, for a network of \<open>ic\<close> input, \<open>hc\<close> hidden
  and \<open>oc\<close> output nodes: the six stored sizes, and the cells of every node of every layer.
  The three layer sizes fit an \<open>int\<close>, as the header stores them in \<open>int\<close> fields, and so
  does the sum of the input and the hidden layer's size, which getLayer computes.
  \<open>dbl m a\<close> is the double stored at \<open>a\<close>.
\<close>

definition sizes_fit :: "int \<Rightarrow> int \<Rightarrow> int \<Rightarrow> bool" where
  "sizes_fit ic hc oc \<longleftrightarrow>
     fits_int (sizeof_Layer + ic * sizeof_Node) \<and>
     fits_int (sizeof_Layer + hc * (sizeof_Node + ic * sizeof_double)) \<and>
     fits_int (sizeof_Layer + oc * (sizeof_Node + hc * sizeof_double)) \<and>
     fits_int ((sizeof_Layer + ic * sizeof_Node) +
               (sizeof_Layer + hc * (sizeof_Node + ic * sizeof_double)))"

definition dbl :: "memory \<Rightarrow> int \<Rightarrow> real" where
  "dbl m a = (case m a of Some (DblCell d) \<Rightarrow> d | _ \<Rightarrow> 0)"

definition is_dbl :: "memory \<Rightarrow> int \<Rightarrow> bool" where
  "is_dbl m a = (case m a of Some (DblCell d) \<Rightarrow> True | _ \<Rightarrow> False)"

definition node_ok :: "memory \<Rightarrow> int \<Rightarrow> int \<Rightarrow> bool" where
  "node_ok m n wc \<longleftrightarrow>
     is_dbl m (bias_at n) \<and> is_dbl m (output_at n) \<and> read_int m (wcount_at n) = Some wc \<and>
     (\<forall>k\<in>{0..<wc}. is_dbl m (weights_at n k))"

definition layer_ok :: "memory \<Rightarrow> int \<Rightarrow> int \<Rightarrow> int \<Rightarrow> bool" where
  "layer_ok m l nc wc \<longleftrightarrow>
     read_int m (ncount_at l) = Some nc \<and>
     (\<forall>j\<in>{0..<nc}. node_ok m (nodes_at l + j * (sizeof_Node + wc * sizeof_double)) wc)"

definition wf_network :: "Network \<Rightarrow> int \<Rightarrow> int \<Rightarrow> int \<Rightarrow> bool" where
  "wf_network nn ic hc oc \<longleftrightarrow>
     0 < ic \<and> 0 < hc \<and> 0 < oc \<and> sizes_fit ic hc oc \<and>
     inpNodeSize nn = sizeof_Node \<and>
     inpLayerSize nn = sizeof_Layer + ic * sizeof_Node \<and>
     hidNodeSize nn = sizeof_Node + ic * sizeof_double \<and>
     hidLayerSize nn = sizeof_Layer + hc * (sizeof_Node + ic * sizeof_double) \<and>
     outNodeSize nn = sizeof_Node + hc * sizeof_double \<and>
     outLayerSize nn = sizeof_Layer + oc * (sizeof_Node + hc * sizeof_double) \<and>
     layer_ok (layers nn) (layer_at nn INPUT) ic 0 \<and>
     layer_ok (layers nn) (layer_at nn HIDDEN) hc ic \<and>
     layer_ok (layers nn) (layer_at nn OUTPUT) oc hc"

text \<open>The stored node size of a layer, and the address of its node \<open>j\<close>.\<close>

fun node_size :: "Network \<Rightarrow> LayerType \<Rightarrow> int" where
  "node_size nn INPUT = inpNodeSize nn"
| "node_size nn HIDDEN = hidNodeSize nn"
| "node_size nn OUTPUT = outNodeSize nn"

definition node_addr :: "Network \<Rightarrow> LayerType \<Rightarrow> int \<Rightarrow> int" where
  "node_addr nn ltype j = nodes_at (layer_at nn ltype) + j * node_size nn ltype"

text \<open>Node and connection counts of the three layers of a network of the given shape.\<close>

fun ncount_of :: "int \<Rightarrow> int \<Rightarrow> int \<Rightarrow> LayerType \<Rightarrow> int" where
  "ncount_of ic hc oc INPUT = ic"
| "ncount_of ic hc oc HIDDEN = hc"
| "ncount_of ic hc oc OUTPUT = oc"

fun wcount_of :: "int \<Rightarrow> int \<Rightarrow> int \<Rightarrow> LayerType \<Rightarrow> int" where
  "wcount_of ic hc oc INPUT = 0"
| "wcount_of ic hc oc HIDDEN = ic"
| "wcount_of ic hc oc OUTPUT = hc"


text \<open>The first address past a layer.\<close>

fun layer_end :: "Network \<Rightarrow> LayerType \<Rightarrow> int" where
  "layer_end nn INPUT = layer_at nn HIDDEN"
| "layer_end nn HIDDEN = layer_at nn OUTPUT"
| "layer_end nn OUTPUT = layer_at nn OUTPUT + outLayerSize nn"

lemmas sizes = sizeof_double_def sizeof_Node_def sizeof_Layer_def
lemmas fields = bias_at_def output_at_def wcount_at_def weights_at_def ncount_at_def nodes_at_def

lemma wf_layer_ok:
  "wf_network nn ic hc oc \<Longrightarrow>
   layer_ok (layers nn) (layer_at nn lt) (ncount_of ic hc oc lt) (wcount_of ic hc oc lt)"
  by (cases lt) (auto simp: wf_network_def)

lemma wf_node_size:
  "wf_network nn ic hc oc \<Longrightarrow> node_size nn lt = sizeof_Node + wcount_of ic hc oc lt * sizeof_double"
  by (cases lt) (simp_all add: wf_network_def)

lemma wf_counts_pos:
  "wf_network nn ic hc oc \<Longrightarrow> 0 < ncount_of ic hc oc lt \<and> 0 \<le> wcount_of ic hc oc lt"
  by (cases lt) (simp_all add: wf_network_def)

lemma wf_ncount:
  "wf_network nn ic hc oc \<Longrightarrow>
   read_int (layers nn) (ncount_at (layer_at nn lt)) = Some (ncount_of ic hc oc lt)"
  using wf_layer_ok [of nn ic hc oc lt] by (simp add: layer_ok_def)

lemma wf_node_ok:
  assumes "wf_network nn ic hc oc" and "0 \<le> j" and "j < ncount_of ic hc oc lt"
  shows "node_ok (layers nn) (node_addr nn lt j) (wcount_of ic hc oc lt)"
  using wf_layer_ok [OF assms(1), of lt] wf_node_size [OF assms(1), of lt] assms(2,3)
  by (simp add: layer_ok_def node_addr_def)

lemma wf_sizes_fit: "wf_network nn ic hc oc \<Longrightarrow> sizes_fit ic hc oc"
  by (simp add: wf_network_def)

lemma wf_getLayer: "wf_network nn ic hc oc \<Longrightarrow> getLayer nn lt = Some (layer_at nn lt)"
  by (cases lt) (auto simp: getLayer.simps wf_network_def sizes_fit_def c_int_fits)

lemma wf_node_fits:
  assumes "wf_network nn ic hc oc" and "0 \<le> j" and "j \<le> ncount_of ic hc oc lt"
  shows "fits_int (node_size nn lt)" and "fits_int (j * node_size nn lt)"
proof -
  let ?ns = "sizeof_Node + wcount_of ic hc oc lt * sizeof_double"
  let ?nc = "ncount_of ic hc oc lt"
  have ns: "node_size nn lt = ?ns" by (rule wf_node_size [OF assms(1)])
  have pos: "0 < ?nc" "0 \<le> wcount_of ic hc oc lt"
    using wf_counts_pos [OF assms(1), of lt] by simp_all
  have ns0: "0 \<le> ?ns" using pos(2) by (simp add: sizes)
  have "fits_int (sizeof_Layer + ?nc * ?ns)"
    using wf_sizes_fit [OF assms(1)] by (cases lt) (simp_all add: sizes_fit_def)
  then have top: "?nc * ?ns \<le> INT_MAX"
    unfolding fits_int_def sizeof_Layer_def by linarith
  have a: "j * ?ns \<le> ?nc * ?ns" using assms(3) ns0 by (rule mult_right_mono)
  have b: "?ns \<le> ?nc * ?ns" using mult_right_mono [of 1 ?nc ?ns] pos(1) ns0 by simp
  have c: "0 \<le> j * ?ns" using assms(2) ns0 by simp
  show "fits_int (node_size nn lt)"
    unfolding ns fits_int_def using ns0 b top by (simp add: INT_MAX_def)
  show "fits_int (j * node_size nn lt)"
    unfolding ns fits_int_def using c a top by (simp add: INT_MAX_def)
qed

lemma wf_getNode_fits:
  assumes "wf_network nn ic hc oc" and "fits_int (j * node_size nn lt)"
  shows "getNode (layers nn) (layer_at nn lt) j = Some (node_addr nn lt j)"
proof -
  have "node_ok (layers nn) (node_addr nn lt 0) (wcount_of ic hc oc lt)"
    using wf_node_ok [OF assms(1), of 0 lt] wf_counts_pos [OF assms(1), of lt] by simp
  then have "read_int (layers nn) (wcount_at (nodes_at (layer_at nn lt))) = Some (wcount_of ic hc oc lt)"
    by (simp add: node_ok_def node_addr_def)
  moreover have "c_int (sizeof_Node + wcount_of ic hc oc lt * sizeof_double) = Some (node_size nn lt)"
    using c_int_fits [OF wf_node_fits(1) [OF assms(1), of 0 lt]] wf_node_size [OF assms(1), of lt]
      wf_counts_pos [OF assms(1), of lt]
    by simp
  moreover have "c_int (j * node_size nn lt) = Some (j * node_size nn lt)"
    by (rule c_int_fits [OF assms(2)])
  ultimately show ?thesis
    by (simp add: getNode_def node_addr_def)
qed

lemma wf_getNode:
  assumes "wf_network nn ic hc oc" and "0 \<le> j" and "j \<le> ncount_of ic hc oc lt"
  shows "getNode (layers nn) (layer_at nn lt) j = Some (node_addr nn lt j)"
  by (rule wf_getNode_fits [OF assms(1) wf_node_fits(2) [OF assms]])

lemma wf_getNode_lt:
  assumes "wf_network nn ic hc oc" and "0 \<le> j" and "j < ncount_of ic hc oc lt"
  shows "getNode (layers nn) (layer_at nn lt) j = Some (node_addr nn lt j)"
  using wf_getNode [OF assms(1,2), of lt] assms(3) by simp

lemma node_addr_Suc: "node_addr nn lt (j + 1) = node_addr nn lt j + node_size nn lt"
  by (simp add: node_addr_def algebra_simps)

lemma node_addr_0: "node_addr nn lt 0 = nodes_at (layer_at nn lt)"
  by (simp add: node_addr_def)

lemma node_addr_sep:
  assumes "j < j'" and "0 \<le> node_size nn lt"
  shows "node_addr nn lt j + node_size nn lt \<le> node_addr nn lt j'"
proof -
  have "(j + 1) * node_size nn lt \<le> j' * node_size nn lt"
    using assms by (intro mult_right_mono) auto
  then show ?thesis by (simp add: node_addr_def algebra_simps)
qed

lemma wf_layer_bounds:
  assumes "wf_network nn ic hc oc" and "0 \<le> j" and "j < ncount_of ic hc oc lt"
  shows "nodes_at (layer_at nn lt) \<le> node_addr nn lt j"
    and "node_addr nn lt j + node_size nn lt \<le> layer_end nn lt"
proof -
  have ns: "0 \<le> node_size nn lt"
    using wf_node_size [OF assms(1), of lt] wf_counts_pos [OF assms(1), of lt] by (simp add: sizes)
  have "0 * node_size nn lt \<le> j * node_size nn lt"
    using assms(2) ns by (intro mult_right_mono) auto
  then show "nodes_at (layer_at nn lt) \<le> node_addr nn lt j"
    by (simp add: node_addr_def)
  have "(j + 1) * node_size nn lt \<le> ncount_of ic hc oc lt * node_size nn lt"
    using assms(3) ns by (intro mult_right_mono) auto
  then have "node_addr nn lt j + node_size nn lt
             \<le> nodes_at (layer_at nn lt) + ncount_of ic hc oc lt * node_size nn lt"
    by (simp add: node_addr_def algebra_simps)
  also have "\<dots> = layer_end nn lt"
    using assms(1) by (cases lt) (simp_all add: wf_network_def fields sizes)
  finally show "node_addr nn lt j + node_size nn lt \<le> layer_end nn lt" .
qed

text \<open>
  The cells of a node: its fields, and the address of field \<open>f\<close> of node \<open>j\<close> of a layer.
  In a well-formed network different cells have different addresses, and none is the
  address of a layer's node count.
\<close>

datatype field = Bias | Output | Wcount | Weight int

fun field_at :: "int \<Rightarrow> field \<Rightarrow> int" where
  "field_at n Bias = bias_at n"
| "field_at n Output = output_at n"
| "field_at n Wcount = wcount_at n"
| "field_at n (Weight k) = weights_at n k"

definition cell_addr :: "Network \<Rightarrow> LayerType \<Rightarrow> int \<Rightarrow> field \<Rightarrow> int" where
  "cell_addr nn ltype j f = field_at (node_addr nn ltype j) f"

fun valid_field :: "int \<Rightarrow> field \<Rightarrow> bool" where
  "valid_field wc (Weight k) \<longleftrightarrow> 0 \<le> k \<and> k < wc"
| "valid_field wc f \<longleftrightarrow> True"

definition valid_cell :: "int \<Rightarrow> int \<Rightarrow> int \<Rightarrow> LayerType \<Rightarrow> int \<Rightarrow> field \<Rightarrow> bool" where
  "valid_cell ic hc oc ltype j f \<longleftrightarrow>
     0 \<le> j \<and> j < ncount_of ic hc oc ltype \<and> valid_field (wcount_of ic hc oc ltype) f"

lemma field_at_range:
  assumes "valid_field wc f" and "0 \<le> wc"
  shows "n \<le> field_at n f" and "field_at n f + 8 \<le> n + (sizeof_Node + wc * sizeof_double)"
proof -
  show "n \<le> field_at n f"
    using assms by (cases f) (simp_all add: fields sizes)
  show "field_at n f + 8 \<le> n + (sizeof_Node + wc * sizeof_double)"
    using assms by (cases f) (simp_all add: fields sizes)
qed

lemma field_at_inj:
  assumes "valid_field wc f" and "valid_field wc f'" and "field_at n f = field_at n f'"
  shows "f = f'"
proof -
  have "field_at n f - n = field_at n f' - n"
    using assms(3) by simp
  with assms(1,2) show ?thesis
    by (cases f; cases f') (simp_all add: fields sizes)
qed

lemma layer_order:
  assumes "wf_network nn ic hc oc"
  shows "layer_at nn INPUT = 0"
    and "nodes_at (layer_at nn INPUT) < layer_end nn INPUT"
    and "layer_end nn INPUT = layer_at nn HIDDEN"
    and "layer_at nn HIDDEN < nodes_at (layer_at nn HIDDEN)"
    and "nodes_at (layer_at nn HIDDEN) < layer_end nn HIDDEN"
    and "layer_end nn HIDDEN = layer_at nn OUTPUT"
    and "layer_at nn OUTPUT < nodes_at (layer_at nn OUTPUT)"
    and "nodes_at (layer_at nn OUTPUT) < layer_end nn OUTPUT"
proof -
  have *: "nodes_at (layer_at nn lt) < layer_end nn lt" for lt
    using wf_layer_bounds [OF assms, of 0 lt] wf_counts_pos [OF assms, of lt]
      wf_node_size [OF assms, of lt]
    by (simp add: sizes node_addr_0)
  show "layer_at nn INPUT = 0" "layer_end nn INPUT = layer_at nn HIDDEN"
    "layer_end nn HIDDEN = layer_at nn OUTPUT"
    "layer_at nn HIDDEN < nodes_at (layer_at nn HIDDEN)"
    "layer_at nn OUTPUT < nodes_at (layer_at nn OUTPUT)"
    by (simp_all add: fields sizes)
  show "nodes_at (layer_at nn INPUT) < layer_end nn INPUT"
    "nodes_at (layer_at nn HIDDEN) < layer_end nn HIDDEN"
    "nodes_at (layer_at nn OUTPUT) < layer_end nn OUTPUT"
    by (rule *)+
qed

lemma cell_addr_range:
  assumes "wf_network nn ic hc oc" and "valid_cell ic hc oc lt j f"
  shows "node_addr nn lt j \<le> cell_addr nn lt j f"
    and "cell_addr nn lt j f + 8 \<le> node_addr nn lt j + node_size nn lt"
    and "nodes_at (layer_at nn lt) \<le> cell_addr nn lt j f"
    and "cell_addr nn lt j f + 8 \<le> layer_end nn lt"
proof -
  from assms(2) have j: "0 \<le> j" "j < ncount_of ic hc oc lt"
    and f: "valid_field (wcount_of ic hc oc lt) f"
    by (simp_all add: valid_cell_def)
  show 1: "node_addr nn lt j \<le> cell_addr nn lt j f"
    and 2: "cell_addr nn lt j f + 8 \<le> node_addr nn lt j + node_size nn lt"
    using field_at_range [OF f, of "node_addr nn lt j"] wf_node_size [OF assms(1), of lt]
      wf_counts_pos [OF assms(1), of lt]
    by (simp_all add: cell_addr_def)
  from 1 wf_layer_bounds(1) [OF assms(1) j]
  show "nodes_at (layer_at nn lt) \<le> cell_addr nn lt j f" by simp
  from 2 wf_layer_bounds(2) [OF assms(1) j]
  show "cell_addr nn lt j f + 8 \<le> layer_end nn lt" by simp
qed

lemma cell_addr_inj:
  assumes wf: "wf_network nn ic hc oc"
    and v: "valid_cell ic hc oc lt j f" and v': "valid_cell ic hc oc lt' j' f'"
    and eq: "cell_addr nn lt j f = cell_addr nn lt' j' f'"
  shows "lt = lt' \<and> j = j' \<and> f = f'"
proof -
  note r = cell_addr_range [OF wf v] and r' = cell_addr_range [OF wf v']
  note lo = layer_order [OF wf]
  have lt: "lt = lt'"
    using r(3,4) r'(3,4) eq lo
    by (cases lt; cases lt'; simp add: nodes_at_def sizeof_Layer_def)
  have ns: "0 \<le> node_size nn lt"
    using wf_node_size [OF wf, of lt] wf_counts_pos [OF wf, of lt] by (simp add: sizes)
  have j: "j = j'"
  proof (rule ccontr)
    assume "j \<noteq> j'"
    then consider "j < j'" | "j' < j" by linarith
    then show False
    proof cases
      case 1
      from node_addr_sep [OF 1 ns] r(2) r'(1) eq lt show False by simp
    next
      case 2
      from node_addr_sep [OF 2 ns] r'(2) r(1) eq lt show False by simp
    qed
  qed
  have "f = f'"
    using v v' eq lt j field_at_inj [of "wcount_of ic hc oc lt" f f' "node_addr nn lt j"]
    by (simp add: valid_cell_def cell_addr_def)
  with lt j show ?thesis by simp
qed

lemma cell_addr_not_ncount:
  assumes wf: "wf_network nn ic hc oc" and v: "valid_cell ic hc oc lt j f"
  shows "cell_addr nn lt j f \<noteq> ncount_at (layer_at nn lt')"
  using cell_addr_range(3,4) [OF wf v] layer_order [OF wf]
  by (cases lt; cases lt'; simp add: ncount_at_def nodes_at_def sizeof_Layer_def)

section \<open>An example network\<close>

text \<open>
  A network of one input node, one hidden node and two output nodes, laid out as
  createNetwork does, with learning rate 1 and sigmoid activation.  The input node's output
  is 1, the hidden node's output is 1/2, the outputs of the two output nodes are the
  parameters.  The hidden node's weight is 1, the output nodes' weights are 1 and 0, all
  biases are 0.
\<close>

definition example_net :: "real \<Rightarrow> real \<Rightarrow> Network" where
  "example_net out0 out1 =
     \<lparr>inpNodeSize = 24, inpLayerSize = 32, hidNodeSize = 32, hidLayerSize = 40,
      outNodeSize = 32, outLayerSize = 72, learningRate = 1,
      hidLayerActType = SIGMOID, outLayerActType = SIGMOID,
      layers = map_of
        [(0, IntCell 1),
         (8, DblCell 0), (16, DblCell 1), (24, IntCell 0),
         (32, IntCell 1),
         (40, DblCell 0), (48, DblCell (1/2)), (56, IntCell 1), (64, DblCell 1),
         (72, IntCell 2),
         (80, DblCell 0), (88, DblCell out0), (96, IntCell 1), (104, DblCell 1),
         (112, DblCell 0), (120, DblCell out1), (128, IntCell 1), (136, DblCell 0)]\<rparr>"

lemma ball_int_1: "(\<forall>k\<in>{0..<1::int}. P k) \<longleftrightarrow> P 0"
proof -
  have "{0..<1::int} = {0}" by auto
  then show ?thesis by simp
qed

lemma ball_int_2: "(\<forall>k\<in>{0..<2::int}. P k) \<longleftrightarrow> P 0 \<and> P 1"
proof -
  have "{0..<2::int} = {0, 1}" by auto
  then show ?thesis by simp
qed

lemma wf_example_net: "wf_network (example_net out0 out1) 1 1 2"
  by (simp add: wf_network_def sizes_fit_def fits_int_def INT_MAX_def layer_ok_def node_ok_def
      example_net_def is_dbl_def read_int_def sizes fields ball_int_1 ball_int_2)

text \<open>
  A network of two input nodes, one hidden node and one output node.  The outputs of the
  input nodes are 3 and 5, the hidden node's output is 1/2 and its weights are 1 and 1.
\<close>

definition example_net2 :: Network where
  "example_net2 =
     \<lparr>inpNodeSize = 24, inpLayerSize = 56, hidNodeSize = 40, hidLayerSize = 48,
      outNodeSize = 32, outLayerSize = 40, learningRate = 1,
      hidLayerActType = SIGMOID, outLayerActType = SIGMOID,
      layers = map_of
        [(0, IntCell 2),
         (8, DblCell 0), (16, DblCell 3), (24, IntCell 0),
         (32, DblCell 0), (40, DblCell 5), (48, IntCell 0),
         (56, IntCell 1),
         (64, DblCell 0), (72, DblCell (1/2)), (80, IntCell 2), (88, DblCell 1), (96, DblCell 1),
         (104, IntCell 1),
         (112, DblCell 0), (120, DblCell 0), (128, IntCell 1), (136, DblCell 1)]\<rparr>"

lemma wf_example_net2: "wf_network example_net2 2 1 1"
  by (simp add: wf_network_def sizes_fit_def fits_int_def INT_MAX_def layer_ok_def node_ok_def
      example_net2_def is_dbl_def read_int_def sizes fields ball_int_1 ball_int_2)

section \<open>Addressing (C7)\<close>

text \<open>
  C7, as stated, for every index and every header: getNode multiplies the index by the node
  size in \<open>int\<close>, and getLayer adds the two layer sizes in \<open>int\<close>.  In the example network
  the hidden layer starts at offset 32 and its nodes have 32 bytes; for index 100000000 the
  product 3200000000 overflows.  With the layer sizes 1200000008 and 1200000080 in the
  header, the sum 2400000088 that locates the output layer overflows.
\<close>

theorem getNode_getLayer_int_overflow:
  "getLayer (example_net 0 0) HIDDEN = Some 32 \<and>
   read_int (layers (example_net 0 0)) (wcount_at (nodes_at 32)) = Some 1 \<and>
   getNode (layers (example_net 0 0)) 32 100000000 = None \<and>
   getLayer ((example_net 0 0)\<lparr>inpLayerSize := 1200000008, hidLayerSize := 1200000080\<rparr>) OUTPUT
     = None"
  by (simp add: getLayer.simps getNode_def c_int_def INT_MAX_def example_net_def read_int_def
      fields sizes)

text \<open>
  C7, amended: getLayer returns the start of the layer region for INPUT, the offset
  inpLayerSize for HIDDEN and, when the sum fits an \<open>int\<close>, the offset
  inpLayerSize + hidLayerSize for OUTPUT.  getNode computes the node size from the weight
  count of the layer's first node and, when the node size and index times node size fit an
  \<open>int\<close>, returns the start of the layer's nodes plus index times the node size; in a
  well-formed network that is the stored node size of the layer.  Neither checks a bound:
  getNode answers for every such index, also a negative one or one past the layer's node
  count.
\<close>

theorem getLayer_getNode_offsets:
  "getLayer nn INPUT = Some 0 \<and>
   getLayer nn HIDDEN = Some (inpLayerSize nn) \<and>
   (fits_int (inpLayerSize nn + hidLayerSize nn) \<longrightarrow>
      getLayer nn OUTPUT = Some (inpLayerSize nn + hidLayerSize nn)) \<and>
   (\<forall>m l wc i. read_int m (wcount_at (nodes_at l)) = Some wc \<and>
        fits_int (sizeof_Node + wc * sizeof_double) \<and>
        fits_int (i * (sizeof_Node + wc * sizeof_double)) \<longrightarrow>
      getNode m l i = Some (nodes_at l + i * (sizeof_Node + wc * sizeof_double))) \<and>
   (\<forall>ic hc oc ltype i. wf_network nn ic hc oc \<and> fits_int (i * node_size nn ltype) \<longrightarrow>
      (\<exists>l. getLayer nn ltype = Some l \<and>
           getNode (layers nn) l i = Some (nodes_at l + i * node_size nn ltype)))"
proof -
  have a: "fits_int (inpLayerSize nn + hidLayerSize nn) \<longrightarrow>
      getLayer nn OUTPUT = Some (inpLayerSize nn + hidLayerSize nn)"
    by (simp add: getLayer.simps c_int_fits)
  have b: "getNode m l i = Some (nodes_at l + i * (sizeof_Node + wc * sizeof_double))"
    if "read_int m (wcount_at (nodes_at l)) = Some wc \<and>
        fits_int (sizeof_Node + wc * sizeof_double) \<and>
        fits_int (i * (sizeof_Node + wc * sizeof_double))" for m l wc i
    using that by (simp add: getNode_def c_int_fits)
  have c: "\<exists>l. getLayer nn ltype = Some l \<and>
           getNode (layers nn) l i = Some (nodes_at l + i * node_size nn ltype)"
    if "wf_network nn ic hc oc \<and> fits_int (i * node_size nn ltype)" for ic hc oc ltype i
    using that wf_getLayer [of nn ic hc oc ltype] wf_getNode_fits [of nn ic hc oc i ltype]
    by (simp add: node_addr_def)
  from a b c show ?thesis by simp blast
qed

theorem getLayer_getNode_offsets_witness:
  "wf_network (example_net 0 0) 1 1 2 \<and>
   fits_int (inpLayerSize (example_net 0 0) + hidLayerSize (example_net 0 0)) \<and>
   getLayer (example_net 0 0) OUTPUT = Some 72 \<and>
   getNode (layers (example_net 0 0)) 72 1 = Some 112 \<and>
   getNode (layers (example_net 0 0)) 72 7 = Some 304 \<and>
   getNode (layers (example_net 0 0)) 72 1000000 = Some 32000080 \<and>
   getNode (layers (example_net 0 0)) 32 (- 1) = Some 8"
proof -
  have w: "wf_network (example_net 0 0) 1 1 2" by (rule wf_example_net)
  have f: "fits_int (inpLayerSize (example_net 0 0) + hidLayerSize (example_net 0 0))"
    by (simp add: example_net_def fits_int_def INT_MAX_def)
  have l: "getLayer (example_net 0 0) OUTPUT = Some 72" "getLayer (example_net 0 0) HIDDEN = Some 32"
    using getLayer_getNode_offsets [of "example_net 0 0"] f by (simp_all add: example_net_def)
  have g: "\<And>ltype i. fits_int (i * node_size (example_net 0 0) ltype) \<Longrightarrow>
      \<exists>l. getLayer (example_net 0 0) ltype = Some l \<and>
          getNode (layers (example_net 0 0)) l i = Some (nodes_at l + i * node_size (example_net 0 0) ltype)"
    using getLayer_getNode_offsets [of "example_net 0 0"] w by blast
  have s: "outNodeSize (example_net 0 0) = 32" "hidNodeSize (example_net 0 0) = 32"
    by (simp_all add: example_net_def)
  show ?thesis
    using w f l g [of 1 OUTPUT] g [of 7 OUTPUT] g [of 1000000 OUTPUT] g [of "- 1" HIDDEN]
    by (simp add: s fits_int_def INT_MAX_def nodes_at_def sizes)
qed


section \<open>Runs that keep the layout\<close>

text \<open>
  Two stores have the same layout when they differ only in the values of slots that hold a
  double in both.  A well-formed network stays well-formed under such a change.  A vector
  is well-formed when it holds as many values as its size says.
\<close>

definition same_layout :: "memory \<Rightarrow> memory \<Rightarrow> bool" where
  "same_layout m m' \<longleftrightarrow> (\<forall>a. m' a = m a \<or> (is_dbl m a \<and> is_dbl m' a))"

definition wf_vector :: "Vector \<Rightarrow> bool" where
  "wf_vector v \<longleftrightarrow> size_v v = int (length (vals v))"

lemma same_layoutD: "same_layout m m' \<Longrightarrow> m' a = m a \<or> (is_dbl m a \<and> is_dbl m' a)"
  by (simp add: same_layout_def)

lemma same_layout_refl: "same_layout m m"
  by (simp add: same_layout_def)

lemma same_layout_trans:
  assumes "same_layout a b" and "same_layout b c"
  shows "same_layout a c"
  unfolding same_layout_def
proof
  fix x
  from same_layoutD [OF assms(1), of x] same_layoutD [OF assms(2), of x]
  show "c x = a x \<or> (is_dbl a x \<and> is_dbl c x)" by (auto simp: is_dbl_def)
qed

lemma same_layout_write:
  "is_dbl m a \<Longrightarrow> same_layout m (m(a \<mapsto> DblCell v))"
  by (simp add: same_layout_def is_dbl_def)

lemma same_layout_is_dbl: "same_layout m m' \<Longrightarrow> is_dbl m a \<Longrightarrow> is_dbl m' a"
  using same_layoutD [of m m' a] by (auto simp: is_dbl_def)

lemma same_layout_read_int: "same_layout m m' \<Longrightarrow> read_int m' a = read_int m a"
  using same_layoutD [of m m' a]
  by (auto simp: read_int_def is_dbl_def split: option.splits cell.splits)

lemma same_layout_frame:
  assumes "\<And>a. a \<notin> W \<Longrightarrow> m' a = m a" and "\<And>a. a \<in> W \<Longrightarrow> is_dbl m a \<and> is_dbl m' a"
  shows "same_layout m m'"
  unfolding same_layout_def using assms by blast

lemma is_dbl_read: "is_dbl m a \<Longrightarrow> read_dbl m a = Some (dbl m a)"
  by (auto simp: is_dbl_def read_dbl_def dbl_def split: option.splits cell.splits)

lemma is_dbl_write: "is_dbl m a \<Longrightarrow> write_dbl m a v = Some (m(a \<mapsto> DblCell v))"
  by (auto simp: is_dbl_def write_dbl_def split: option.splits)

lemma getLayer_layers_update [simp]: "getLayer (nn\<lparr>layers := m\<rparr>) lt = getLayer nn lt"
  by (cases lt) (simp_all add: getLayer.simps)

lemma layer_at_layers_update [simp]: "layer_at (nn\<lparr>layers := m\<rparr>) lt = layer_at nn lt"
  by (cases lt) simp_all

lemma node_size_layers_update [simp]: "node_size (nn\<lparr>layers := m\<rparr>) lt = node_size nn lt"
  by (cases lt) simp_all

lemma node_addr_layers_update [simp]: "node_addr (nn\<lparr>layers := m\<rparr>) lt j = node_addr nn lt j"
  by (simp add: node_addr_def)

lemma cell_addr_layers_update [simp]: "cell_addr (nn\<lparr>layers := m\<rparr>) lt j f = cell_addr nn lt j f"
  by (simp add: cell_addr_def)

lemma node_ok_same_layout: "same_layout m m' \<Longrightarrow> node_ok m n wc \<Longrightarrow> node_ok m' n wc"
  by (auto simp: node_ok_def same_layout_read_int intro: same_layout_is_dbl)

lemma layer_ok_same_layout: "same_layout m m' \<Longrightarrow> layer_ok m l nc wc \<Longrightarrow> layer_ok m' l nc wc"
  by (auto simp: layer_ok_def same_layout_read_int intro: node_ok_same_layout)

lemma wf_same_layout:
  assumes "wf_network nn ic hc oc" and "same_layout (layers nn) m'"
  shows "wf_network (nn\<lparr>layers := m'\<rparr>) ic hc oc"
  using assms by (auto simp: wf_network_def intro: layer_ok_same_layout)

lemma wf_cell_is_dbl:
  assumes "wf_network nn ic hc oc" and "valid_cell ic hc oc lt j f" and "f \<noteq> Wcount"
  shows "is_dbl (layers nn) (cell_addr nn lt j f)"
proof -
  from assms(2) have j: "0 \<le> j" "j < ncount_of ic hc oc lt"
    and f: "valid_field (wcount_of ic hc oc lt) f"
    by (simp_all add: valid_cell_def)
  from wf_node_ok [OF assms(1) j] f assms(3) show ?thesis
    by (cases f) (simp_all add: node_ok_def cell_addr_def)
qed

lemma wf_cell_wcount:
  assumes "wf_network nn ic hc oc" and "0 \<le> j" and "j < ncount_of ic hc oc lt"
  shows "read_int (layers nn) (cell_addr nn lt j Wcount) = Some (wcount_of ic hc oc lt)"
  using wf_node_ok [OF assms] by (simp add: node_ok_def cell_addr_def)

section \<open>feedInput (C5, C10)\<close>

lemma feedInput_loop_spec:
  assumes "wf_network nn ic hc oc" and "0 \<le> i" and "size_v v \<le> ic"
    and "size_v v \<le> int (length (vals v))"
  shows "\<exists>m'. feedInput_loop nn v (node_addr nn INPUT i) i = Some (nn\<lparr>layers := m'\<rparr>) \<and>
           (\<forall>k. i \<le> k \<and> k < size_v v \<longrightarrow>
              m' (cell_addr nn INPUT k Output) = Some (DblCell (vals v ! nat k))) \<and>
           (\<forall>a. (\<forall>k. i \<le> k \<and> k < size_v v \<longrightarrow> a \<noteq> cell_addr nn INPUT k Output) \<longrightarrow>
              m' a = layers nn a)"
  using assms
proof (induction "nat (size_v v - i)" arbitrary: nn i)
  case 0
  then have "\<not> i < size_v v" by simp
  then show ?case
    by (subst feedInput_loop.simps) (auto intro!: exI [of _ "layers nn"])
next
  case (Suc n)
  then have lt: "i < size_v v" by linarith
  let ?m = "layers nn"
  let ?a = "cell_addr nn INPUT i Output"
  let ?x = "vals v ! nat i"
  let ?m1 = "?m(?a \<mapsto> DblCell ?x)"
  let ?nn1 = "nn\<lparr>layers := ?m1\<rparr>"
  have vc: "valid_cell ic hc oc INPUT k Output" if "0 \<le> k" "k < size_v v" for k
    using that Suc.prems(3) by (simp add: valid_cell_def)
  have d: "is_dbl ?m ?a"
    using wf_cell_is_dbl [OF Suc.prems(1) vc] Suc.prems(2) lt by simp
  have va: "vals_at v i = Some ?x"
    using Suc.prems(2,4) lt by (simp add: vals_at_def)
  have wf1: "wf_network ?nn1 ic hc oc"
    using wf_same_layout [OF Suc.prems(1) same_layout_write [OF d]] .
  have "\<exists>m'. feedInput_loop ?nn1 v (node_addr ?nn1 INPUT (i + 1)) (i + 1) = Some (?nn1\<lparr>layers := m'\<rparr>) \<and>
           (\<forall>k. i + 1 \<le> k \<and> k < size_v v \<longrightarrow>
              m' (cell_addr ?nn1 INPUT k Output) = Some (DblCell (vals v ! nat k))) \<and>
           (\<forall>a. (\<forall>k. i + 1 \<le> k \<and> k < size_v v \<longrightarrow> a \<noteq> cell_addr ?nn1 INPUT k Output) \<longrightarrow>
              m' a = layers ?nn1 a)"
    using Suc.hyps(2) Suc.prems(2,3,4) wf1 by (intro Suc.hyps(1)) auto
  then obtain m' where
    run: "feedInput_loop ?nn1 v (node_addr nn INPUT (i + 1)) (i + 1) = Some (nn\<lparr>layers := m'\<rparr>)"
    and set: "\<And>k. i + 1 \<le> k \<Longrightarrow> k < size_v v \<Longrightarrow>
              m' (cell_addr nn INPUT k Output) = Some (DblCell (vals v ! nat k))"
    and frame: "\<And>a. (\<forall>k. i + 1 \<le> k \<and> k < size_v v \<longrightarrow> a \<noteq> cell_addr nn INPUT k Output) \<Longrightarrow>
              m' a = ?m1 a"
    by auto
  have step: "feedInput_loop nn v (node_addr nn INPUT i) i = Some (nn\<lparr>layers := m'\<rparr>)"
    using lt va is_dbl_write [OF d] run wf_node_size [OF Suc.prems(1), of INPUT]
    by (subst feedInput_loop.simps) (simp add: cell_addr_def node_addr_Suc)
  have ne: "?a \<noteq> cell_addr nn INPUT k Output" if "i + 1 \<le> k" "k < size_v v" for k
    using cell_addr_inj [OF Suc.prems(1) vc vc, of i k] that Suc.prems(2) lt by auto
  have "m' ?a = Some (DblCell ?x)"
    using frame [of ?a] ne by auto
  with set have set': "m' (cell_addr nn INPUT k Output) = Some (DblCell (vals v ! nat k))"
    if "i \<le> k" "k < size_v v" for k
    using that by (cases "k = i") auto
  have frame': "m' a = ?m a" if "\<forall>k. i \<le> k \<and> k < size_v v \<longrightarrow> a \<noteq> cell_addr nn INPUT k Output" for a
    using frame [of a] that lt by auto
  from step set' frame' show ?case by blast
qed

lemma feedInput_spec:
  assumes wf: "wf_network nn ic hc oc" and sz: "size_v v \<le> ic"
    and len: "size_v v \<le> int (length (vals v))"
  shows "\<exists>m'. feedInput nn v = Some (nn\<lparr>layers := m'\<rparr>) \<and>
           (\<forall>k. 0 \<le> k \<and> k < size_v v \<longrightarrow>
              m' (cell_addr nn INPUT k Output) = Some (DblCell (vals v ! nat k))) \<and>
           (\<forall>a. (\<forall>k. 0 \<le> k \<and> k < size_v v \<longrightarrow> a \<noteq> cell_addr nn INPUT k Output) \<longrightarrow>
              m' a = layers nn a)"
  using feedInput_loop_spec [OF wf _ sz len, of 0]
  by (simp add: feedInput_def node_addr_0)

text \<open>
  C5: for a vector whose size is the node count of the input layer, feedInput returns, and
  afterwards the output field of every input node \<open>i\<close> holds element \<open>i\<close> of the vector,
  unchanged.
\<close>

theorem feedInput_copies_vector:
  assumes "wf_network nn ic hc oc" and "wf_vector v" and "size_v v = ic"
  shows "\<exists>nn'. feedInput nn v = Some nn' \<and>
           (\<forall>i. 0 \<le> i \<and> i < ic \<longrightarrow>
              read_dbl (layers nn') (output_at (node_addr nn' INPUT i)) = Some (vals v ! nat i))"
proof -
  from feedInput_spec [OF assms(1), of v] assms(2,3) obtain m' where
    run: "feedInput nn v = Some (nn\<lparr>layers := m'\<rparr>)" and
    set: "\<And>k. 0 \<le> k \<Longrightarrow> k < size_v v \<Longrightarrow>
            m' (cell_addr nn INPUT k Output) = Some (DblCell (vals v ! nat k))"
    by (auto simp: wf_vector_def)
  have "read_dbl (layers (nn\<lparr>layers := m'\<rparr>)) (output_at (node_addr (nn\<lparr>layers := m'\<rparr>) INPUT i))
          = Some (vals v ! nat i)" if "0 \<le> i" "i < ic" for i
    using set [of i] that assms(3) by (simp add: cell_addr_def read_dbl_def)
  with run show ?thesis by blast
qed

theorem feedInput_copies_vector_witness:
  "wf_network (example_net 0 0) 1 1 2 \<and> wf_vector \<lparr>size_v = 1, vals = [7]\<rparr> \<and>
   (\<exists>nn'. feedInput (example_net 0 0) \<lparr>size_v = 1, vals = [7]\<rparr> = Some nn' \<and>
      read_dbl (layers nn') 16 = Some 7)"
proof -
  have w: "wf_network (example_net 0 0) 1 1 2" by (rule wf_example_net)
  have v: "wf_vector \<lparr>size_v = 1, vals = [7]\<rparr>" by (simp add: wf_vector_def)
  from feedInput_copies_vector [OF w v] obtain nn' where
    run: "feedInput (example_net 0 0) \<lparr>size_v = 1, vals = [7]\<rparr> = Some nn'" and
    out: "\<And>i. 0 \<le> i \<Longrightarrow> i < 1 \<Longrightarrow>
            read_dbl (layers nn') (output_at (node_addr nn' INPUT i)) = Some ([7] ! nat i)"
    by auto
  from out [of 0] have "read_dbl (layers nn') 16 = Some 7"
    by (simp add: node_addr_def fields sizes)
  with w v run show ?thesis by blast
qed

text \<open>
  C10, as stated, for every size of the vector: a vector longer than the input layer makes
  the loop run past the last input node.  In the example network (one input node) a vector
  of size 2 stores its second value into the bias of the hidden node.
\<close>

theorem feedInput_overrun:
  "feedInput (example_net 0 0) \<lparr>size_v = 2, vals = [7, 9]\<rparr> \<noteq> None \<and>
   cell_addr (example_net 0 0) HIDDEN 0 Bias = 40 \<and>
   layers (example_net 0 0) 40 = Some (DblCell 0) \<and>
   layers (the (feedInput (example_net 0 0) \<lparr>size_v = 2, vals = [7, 9]\<rparr>)) 40 = Some (DblCell 9)"
  by (simp add: feedInput_def feedInput_loop.simps vals_at_def write_dbl_def example_net_def
      cell_addr_def node_addr_def fields sizes)

text \<open>
  C10, amended: for a vector no longer than the input layer, feedInput returns; it leaves
  the header of the network (the six sizes included) as it is; it stores element \<open>i\<close> of the
  vector into the output field of input node \<open>i\<close> for every \<open>i\<close> below the vector's size; and
  every other slot keeps its cell: every bias, weight and weight count of every layer, the
  output of every hidden and output node, the output of every input node from the vector's
  size on, and the three node counts.
\<close>

theorem feedInput_frame:
  assumes "wf_network nn ic hc oc" and "wf_vector v" and "size_v v \<le> ic"
  shows "\<exists>nn'. feedInput nn v = Some nn' \<and>
           nn' = nn\<lparr>layers := layers nn'\<rparr> \<and>
           (\<forall>i. 0 \<le> i \<and> i < size_v v \<longrightarrow>
              layers nn' (cell_addr nn INPUT i Output) = Some (DblCell (vals v ! nat i))) \<and>
           (\<forall>a. (\<forall>i. 0 \<le> i \<and> i < size_v v \<longrightarrow> a \<noteq> cell_addr nn INPUT i Output) \<longrightarrow>
              layers nn' a = layers nn a) \<and>
           (\<forall>ltype j f. valid_cell ic hc oc ltype j f \<and>
                \<not> (ltype = INPUT \<and> f = Output \<and> j < size_v v) \<longrightarrow>
              layers nn' (cell_addr nn ltype j f) = layers nn (cell_addr nn ltype j f)) \<and>
           (\<forall>ltype. layers nn' (ncount_at (layer_at nn ltype))
                     = layers nn (ncount_at (layer_at nn ltype)))"
proof -
  from feedInput_spec [OF assms(1,3)] assms(2) obtain m' where
    run: "feedInput nn v = Some (nn\<lparr>layers := m'\<rparr>)" and
    set: "\<And>k. 0 \<le> k \<Longrightarrow> k < size_v v \<Longrightarrow>
            m' (cell_addr nn INPUT k Output) = Some (DblCell (vals v ! nat k))" and
    frame: "\<And>a. (\<forall>k. 0 \<le> k \<and> k < size_v v \<longrightarrow> a \<noteq> cell_addr nn INPUT k Output) \<Longrightarrow>
            m' a = layers nn a"
    by (auto simp: wf_vector_def)
  have vc: "valid_cell ic hc oc INPUT k Output" if "0 \<le> k" "k < size_v v" for k
    using that assms(3) by (simp add: valid_cell_def)
  have cells: "m' (cell_addr nn ltype j f) = layers nn (cell_addr nn ltype j f)"
    if "valid_cell ic hc oc ltype j f" "\<not> (ltype = INPUT \<and> f = Output \<and> j < size_v v)"
    for ltype j f
  proof (rule frame, intro allI impI)
    fix k assume "0 \<le> k \<and> k < size_v v"
    with cell_addr_inj [OF assms(1) that(1) vc, of k] that(2)
    show "cell_addr nn ltype j f \<noteq> cell_addr nn INPUT k Output" by auto
  qed
  have counts: "m' (ncount_at (layer_at nn ltype)) = layers nn (ncount_at (layer_at nn ltype))"
    for ltype
  proof (rule frame, intro allI impI)
    fix k assume "0 \<le> k \<and> k < size_v v"
    with cell_addr_not_ncount [OF assms(1) vc, of k ltype]
    show "ncount_at (layer_at nn ltype) \<noteq> cell_addr nn INPUT k Output" by auto
  qed
  let ?nn' = "nn\<lparr>layers := m'\<rparr>"
  have "feedInput nn v = Some ?nn' \<and>
           ?nn' = nn\<lparr>layers := layers ?nn'\<rparr> \<and>
           (\<forall>i. 0 \<le> i \<and> i < size_v v \<longrightarrow>
              layers ?nn' (cell_addr nn INPUT i Output) = Some (DblCell (vals v ! nat i))) \<and>
           (\<forall>a. (\<forall>i. 0 \<le> i \<and> i < size_v v \<longrightarrow> a \<noteq> cell_addr nn INPUT i Output) \<longrightarrow>
              layers ?nn' a = layers nn a) \<and>
           (\<forall>ltype j f. valid_cell ic hc oc ltype j f \<and>
                \<not> (ltype = INPUT \<and> f = Output \<and> j < size_v v) \<longrightarrow>
              layers ?nn' (cell_addr nn ltype j f) = layers nn (cell_addr nn ltype j f)) \<and>
           (\<forall>ltype. layers ?nn' (ncount_at (layer_at nn ltype))
                     = layers nn (ncount_at (layer_at nn ltype)))"
    using run set frame cells counts by simp
  then show ?thesis by blast
qed

theorem feedInput_frame_witness:
  "wf_network example_net2 2 1 1 \<and> wf_vector \<lparr>size_v = 1, vals = [7]\<rparr> \<and> (1::int) \<le> 2 \<and>
   (\<exists>nn'. feedInput example_net2 \<lparr>size_v = 1, vals = [7]\<rparr> = Some nn' \<and>
      nn' = example_net2\<lparr>layers := layers nn'\<rparr> \<and>
      layers example_net2 16 = Some (DblCell 3) \<and> layers nn' 16 = Some (DblCell 7) \<and>
      layers nn' 40 = Some (DblCell 5) \<and> layers nn' 64 = Some (DblCell 0) \<and>
      layers nn' 88 = Some (DblCell 1) \<and> layers nn' 80 = Some (IntCell 2) \<and>
      layers nn' 120 = Some (DblCell 0) \<and> layers nn' 56 = Some (IntCell 1))"
proof -
  let ?v = "\<lparr>size_v = 1, vals = [7]\<rparr>"
  have w: "wf_network example_net2 2 1 1" by (rule wf_example_net2)
  have v: "wf_vector ?v" by (simp add: wf_vector_def)
  have le: "size_v ?v \<le> 2" by simp
  from feedInput_frame [OF w v le] obtain nn' where
    run: "feedInput example_net2 ?v = Some nn'" and
    hdr: "nn' = example_net2\<lparr>layers := layers nn'\<rparr>" and
    set: "\<And>i. 0 \<le> i \<and> i < 1 \<Longrightarrow>
            layers nn' (cell_addr example_net2 INPUT i Output) = Some (DblCell ([7] ! nat i))" and
    cells: "\<And>ltype j f. valid_cell 2 1 1 ltype j f \<Longrightarrow>
              \<not> (ltype = INPUT \<and> f = Output \<and> j < 1) \<Longrightarrow>
              layers nn' (cell_addr example_net2 ltype j f)
                = layers example_net2 (cell_addr example_net2 ltype j f)" and
    counts: "\<And>ltype. layers nn' (ncount_at (layer_at example_net2 ltype))
                     = layers example_net2 (ncount_at (layer_at example_net2 ltype))"
    by auto
  have "layers example_net2 16 = Some (DblCell 3)"
    by (simp add: example_net2_def)
  moreover have "layers nn' 16 = Some (DblCell 7)"
    using set [of 0]
    by (simp add: cell_addr_def node_addr_def fields sizes example_net2_def)
  moreover have "layers nn' 40 = Some (DblCell 5)"
    using cells [of INPUT 1 Output]
    by (simp add: valid_cell_def cell_addr_def node_addr_def fields sizes example_net2_def)
  moreover have "layers nn' 64 = Some (DblCell 0)"
    using cells [of HIDDEN 0 Bias]
    by (simp add: valid_cell_def cell_addr_def node_addr_def fields sizes example_net2_def)
  moreover have "layers nn' 88 = Some (DblCell 1)"
    using cells [of HIDDEN 0 "Weight 0"]
    by (simp add: valid_cell_def cell_addr_def node_addr_def fields sizes example_net2_def)
  moreover have "layers nn' 80 = Some (IntCell 2)"
    using cells [of HIDDEN 0 Wcount]
    by (simp add: valid_cell_def cell_addr_def node_addr_def fields sizes example_net2_def)
  moreover have "layers nn' 120 = Some (DblCell 0)"
    using cells [of OUTPUT 0 Output]
    by (simp add: valid_cell_def cell_addr_def node_addr_def fields sizes example_net2_def)
  moreover have "layers nn' 56 = Some (IntCell 1)"
    using counts [of HIDDEN] by (simp add: fields example_net2_def)
  ultimately show ?thesis using w v run hdr by simp
qed


section \<open>getNetworkClassification (C2)\<close>

text \<open>\<open>out_val nn ltype j\<close> is the output stored in node \<open>j\<close> of a layer.\<close>

definition out_val :: "Network \<Rightarrow> LayerType \<Rightarrow> int \<Rightarrow> real" where
  "out_val nn ltype j = dbl (layers nn) (cell_addr nn ltype j Output)"

lemma wf_read_output:
  assumes "wf_network nn ic hc oc" and "0 \<le> j" and "j < ncount_of ic hc oc lt"
  shows "read_dbl (layers nn) (output_at (node_addr nn lt j)) = Some (out_val nn lt j)"
  using is_dbl_read [OF wf_cell_is_dbl [OF assms(1), of lt j Output]] assms(2,3)
  by (simp add: valid_cell_def cell_addr_def out_val_def)

lemma getNetworkClassification_loop_spec:
  assumes "wf_network nn ic hc oc" and "0 \<le> i"
  shows "\<exists>r. getNetworkClassification_loop nn (layer_at nn OUTPUT) i maxOut maxInd = Some r \<and>
           ((r = maxInd \<and> (\<forall>k. i \<le> k \<and> k < oc \<longrightarrow> out_val nn OUTPUT k \<le> maxOut)) \<or>
            (i \<le> r \<and> r < oc \<and> maxOut < out_val nn OUTPUT r \<and>
             (\<forall>k. i \<le> k \<and> k < r \<longrightarrow> out_val nn OUTPUT k < out_val nn OUTPUT r) \<and>
             (\<forall>k. r \<le> k \<and> k < oc \<longrightarrow> out_val nn OUTPUT k \<le> out_val nn OUTPUT r)))"
  using assms(2)
proof (induction "nat (oc - i)" arbitrary: i maxOut maxInd)
  case 0
  then have "\<not> i < oc" by simp
  then show ?case
    using wf_ncount [OF assms(1), of OUTPUT]
    by (subst getNetworkClassification_loop.simps) auto
next
  case (Suc n)
  then have lt: "i < oc" by linarith
  let ?x = "out_val nn OUTPUT i"
  have rd: "read_dbl (layers nn) (output_at (node_addr nn OUTPUT i)) = Some ?x"
    using wf_read_output [OF assms(1), of i OUTPUT] Suc.prems lt by simp
  have unfold: "getNetworkClassification_loop nn (layer_at nn OUTPUT) i maxOut maxInd =
      (if ?x > maxOut then getNetworkClassification_loop nn (layer_at nn OUTPUT) (i + 1) ?x i
       else getNetworkClassification_loop nn (layer_at nn OUTPUT) (i + 1) maxOut maxInd)"
    using wf_ncount [OF assms(1), of OUTPUT] wf_getNode [OF assms(1) Suc.prems, of OUTPUT] lt rd
    by (subst getNetworkClassification_loop.simps) simp
  have n: "n = nat (oc - (i + 1))" and i1: "0 \<le> i + 1"
    using Suc.hyps(2) Suc.prems by linarith+
  show ?case
  proof (cases "?x > maxOut")
    case True
    from Suc.hyps(1) [OF n i1, of ?x i] obtain r where
      run: "getNetworkClassification_loop nn (layer_at nn OUTPUT) (i + 1) ?x i = Some r" and
      r: "(r = i \<and> (\<forall>k. i + 1 \<le> k \<and> k < oc \<longrightarrow> out_val nn OUTPUT k \<le> ?x)) \<or>
          (i + 1 \<le> r \<and> r < oc \<and> ?x < out_val nn OUTPUT r \<and>
           (\<forall>k. i + 1 \<le> k \<and> k < r \<longrightarrow> out_val nn OUTPUT k < out_val nn OUTPUT r) \<and>
           (\<forall>k. r \<le> k \<and> k < oc \<longrightarrow> out_val nn OUTPUT k \<le> out_val nn OUTPUT r))"
      by blast
    have "i \<le> r \<and> r < oc \<and> maxOut < out_val nn OUTPUT r \<and>
           (\<forall>k. i \<le> k \<and> k < r \<longrightarrow> out_val nn OUTPUT k < out_val nn OUTPUT r) \<and>
           (\<forall>k. r \<le> k \<and> k < oc \<longrightarrow> out_val nn OUTPUT k \<le> out_val nn OUTPUT r)"
      using r
    proof
      assume a: "r = i \<and> (\<forall>k. i + 1 \<le> k \<and> k < oc \<longrightarrow> out_val nn OUTPUT k \<le> ?x)"
      then have "out_val nn OUTPUT k \<le> out_val nn OUTPUT r" if "r \<le> k" "k < oc" for k
        using that by (cases "k = i") auto
      with a lt True show ?thesis by auto
    next
      assume a: "i + 1 \<le> r \<and> r < oc \<and> ?x < out_val nn OUTPUT r \<and>
           (\<forall>k. i + 1 \<le> k \<and> k < r \<longrightarrow> out_val nn OUTPUT k < out_val nn OUTPUT r) \<and>
           (\<forall>k. r \<le> k \<and> k < oc \<longrightarrow> out_val nn OUTPUT k \<le> out_val nn OUTPUT r)"
      then have "out_val nn OUTPUT k < out_val nn OUTPUT r" if "i \<le> k" "k < r" for k
        using that by (cases "k = i") auto
      with a True show ?thesis by auto
    qed
    with run unfold True show ?thesis by auto
  next
    case False
    from Suc.hyps(1) [OF n i1, of maxOut maxInd] obtain r where
      run: "getNetworkClassification_loop nn (layer_at nn OUTPUT) (i + 1) maxOut maxInd = Some r" and
      r: "(r = maxInd \<and> (\<forall>k. i + 1 \<le> k \<and> k < oc \<longrightarrow> out_val nn OUTPUT k \<le> maxOut)) \<or>
          (i + 1 \<le> r \<and> r < oc \<and> maxOut < out_val nn OUTPUT r \<and>
           (\<forall>k. i + 1 \<le> k \<and> k < r \<longrightarrow> out_val nn OUTPUT k < out_val nn OUTPUT r) \<and>
           (\<forall>k. r \<le> k \<and> k < oc \<longrightarrow> out_val nn OUTPUT k \<le> out_val nn OUTPUT r))"
      by blast
    have "(r = maxInd \<and> (\<forall>k. i \<le> k \<and> k < oc \<longrightarrow> out_val nn OUTPUT k \<le> maxOut)) \<or>
          (i \<le> r \<and> r < oc \<and> maxOut < out_val nn OUTPUT r \<and>
           (\<forall>k. i \<le> k \<and> k < r \<longrightarrow> out_val nn OUTPUT k < out_val nn OUTPUT r) \<and>
           (\<forall>k. r \<le> k \<and> k < oc \<longrightarrow> out_val nn OUTPUT k \<le> out_val nn OUTPUT r))"
      using r
    proof
      assume a: "r = maxInd \<and> (\<forall>k. i + 1 \<le> k \<and> k < oc \<longrightarrow> out_val nn OUTPUT k \<le> maxOut)"
      then have "out_val nn OUTPUT k \<le> maxOut" if "i \<le> k" "k < oc" for k
        using that False by (cases "k = i") auto
      with a show ?thesis by auto
    next
      assume a: "i + 1 \<le> r \<and> r < oc \<and> maxOut < out_val nn OUTPUT r \<and>
           (\<forall>k. i + 1 \<le> k \<and> k < r \<longrightarrow> out_val nn OUTPUT k < out_val nn OUTPUT r) \<and>
           (\<forall>k. r \<le> k \<and> k < oc \<longrightarrow> out_val nn OUTPUT k \<le> out_val nn OUTPUT r)"
      then have "out_val nn OUTPUT k < out_val nn OUTPUT r" if "i \<le> k" "k < r" for k
        using that False by (cases "k = i") auto
      with a show ?thesis by auto
    qed
    with run unfold False show ?thesis by auto
  qed
qed

lemma getNetworkClassification_spec:
  assumes "wf_network nn ic hc oc"
  shows "\<exists>r. getNetworkClassification nn = Some r \<and>
           ((r = 0 \<and> (\<forall>k. 0 \<le> k \<and> k < oc \<longrightarrow> out_val nn OUTPUT k \<le> 0)) \<or>
            (0 \<le> r \<and> r < oc \<and> 0 < out_val nn OUTPUT r \<and>
             (\<forall>k. 0 \<le> k \<and> k < r \<longrightarrow> out_val nn OUTPUT k < out_val nn OUTPUT r) \<and>
             (\<forall>k. r \<le> k \<and> k < oc \<longrightarrow> out_val nn OUTPUT k \<le> out_val nn OUTPUT r)))"
  using getNetworkClassification_loop_spec [OF assms, of 0 0 0]
  by (simp add: getNetworkClassification_def wf_getLayer [OF assms])

text \<open>
  C2, as stated: a node whose output strictly exceeds all others is returned.  In the
  example network with outputs -2 and -1 the second output node strictly exceeds the first,
  and getNetworkClassification returns 0: no output is greater than the initial running
  maximum 0.
\<close>

theorem getNetworkClassification_negative_outputs:
  "wf_network (example_net (- 2) (- 1)) 1 1 2 \<and>
   out_val (example_net (- 2) (- 1)) OUTPUT 0 = - 2 \<and>
   out_val (example_net (- 2) (- 1)) OUTPUT 1 = - 1 \<and>
   getNetworkClassification (example_net (- 2) (- 1)) = Some 0"
proof -
  let ?nn = "example_net (- 2) (- 1)"
  have w: "wf_network ?nn 1 1 2" by (rule wf_example_net)
  have o: "out_val ?nn OUTPUT 0 = - 2" "out_val ?nn OUTPUT 1 = - 1"
    by (simp_all add: out_val_def dbl_def cell_addr_def node_addr_def example_net_def fields sizes)
  have "getNetworkClassification ?nn = Some 0"
    by (simp add: getNetworkClassification_def getNetworkClassification_loop.simps
        getLayer.simps getNode_def c_int_def INT_MAX_def read_int_def read_dbl_def
        example_net_def fields sizes)
  with w o show ?thesis by blast
qed

text \<open>
  C2, amended: in a well-formed network getNetworkClassification returns; the result is 0
  when no output is greater than 0, and otherwise the first index, in scan order, of the
  greatest output, which is greater than 0.  Consequently a node whose output is greater
  than 0 and strictly exceeds all other outputs is returned, and 0 is returned when every
  output is at most 0.
\<close>

theorem getNetworkClassification_first_positive_maximum:
  assumes "wf_network nn ic hc oc"
  shows "\<exists>r. getNetworkClassification nn = Some r \<and>
           ((r = 0 \<and> (\<forall>k. 0 \<le> k \<and> k < oc \<longrightarrow> out_val nn OUTPUT k \<le> 0)) \<or>
            (0 \<le> r \<and> r < oc \<and> 0 < out_val nn OUTPUT r \<and>
             (\<forall>k. 0 \<le> k \<and> k < r \<longrightarrow> out_val nn OUTPUT k < out_val nn OUTPUT r) \<and>
             (\<forall>k. r \<le> k \<and> k < oc \<longrightarrow> out_val nn OUTPUT k \<le> out_val nn OUTPUT r))) \<and>
           (\<forall>j. 0 \<le> j \<and> j < oc \<and> 0 < out_val nn OUTPUT j \<and>
                (\<forall>k. 0 \<le> k \<and> k < oc \<and> k \<noteq> j \<longrightarrow> out_val nn OUTPUT k < out_val nn OUTPUT j)
              \<longrightarrow> r = j) \<and>
           ((\<forall>k. 0 \<le> k \<and> k < oc \<longrightarrow> out_val nn OUTPUT k \<le> 0) \<longrightarrow> r = 0)"
proof -
  from getNetworkClassification_spec [OF assms] obtain r where
    run: "getNetworkClassification nn = Some r" and
    r: "(r = 0 \<and> (\<forall>k. 0 \<le> k \<and> k < oc \<longrightarrow> out_val nn OUTPUT k \<le> 0)) \<or>
        (0 \<le> r \<and> r < oc \<and> 0 < out_val nn OUTPUT r \<and>
         (\<forall>k. 0 \<le> k \<and> k < r \<longrightarrow> out_val nn OUTPUT k < out_val nn OUTPUT r) \<and>
         (\<forall>k. r \<le> k \<and> k < oc \<longrightarrow> out_val nn OUTPUT k \<le> out_val nn OUTPUT r))"
    by blast
  have strict: "r = j" if j: "0 \<le> j" "j < oc" "0 < out_val nn OUTPUT j"
    and m: "\<forall>k. 0 \<le> k \<and> k < oc \<and> k \<noteq> j \<longrightarrow> out_val nn OUTPUT k < out_val nn OUTPUT j" for j
    using r
  proof
    assume "r = 0 \<and> (\<forall>k. 0 \<le> k \<and> k < oc \<longrightarrow> out_val nn OUTPUT k \<le> 0)"
    with j show ?thesis by force
  next
    assume a: "0 \<le> r \<and> r < oc \<and> 0 < out_val nn OUTPUT r \<and>
         (\<forall>k. 0 \<le> k \<and> k < r \<longrightarrow> out_val nn OUTPUT k < out_val nn OUTPUT r) \<and>
         (\<forall>k. r \<le> k \<and> k < oc \<longrightarrow> out_val nn OUTPUT k \<le> out_val nn OUTPUT r)"
    show ?thesis
    proof (rule ccontr)
      assume "r \<noteq> j"
      with a m have "out_val nn OUTPUT r < out_val nn OUTPUT j" by auto
      moreover have "out_val nn OUTPUT j \<le> out_val nn OUTPUT r"
        using a j by (cases "j < r") (auto simp: less_imp_le)
      ultimately show False by simp
    qed
  qed
  have zero: "r = 0" if "\<forall>k. 0 \<le> k \<and> k < oc \<longrightarrow> out_val nn OUTPUT k \<le> 0"
    using r that by force
  from run r strict zero show ?thesis by blast
qed

theorem getNetworkClassification_first_positive_maximum_witness:
  "wf_network (example_net 1 2) 1 1 2 \<and>
   getNetworkClassification (example_net 1 2) = Some 1"
proof -
  let ?nn = "example_net 1 2"
  have w: "wf_network ?nn 1 1 2" by (rule wf_example_net)
  have o0: "out_val ?nn OUTPUT 0 = 1" and o1: "out_val ?nn OUTPUT 1 = 2"
    by (simp_all add: out_val_def dbl_def cell_addr_def node_addr_def example_net_def fields sizes)
  from getNetworkClassification_first_positive_maximum [OF w] obtain r where
    run: "getNetworkClassification ?nn = Some r" and
    strict: "\<And>j. 0 \<le> j \<and> j < 2 \<and> 0 < out_val ?nn OUTPUT j \<and>
                (\<forall>k. 0 \<le> k \<and> k < 2 \<and> k \<noteq> j \<longrightarrow> out_val ?nn OUTPUT k < out_val ?nn OUTPUT j)
              \<Longrightarrow> r = j"
    by blast
  have "\<forall>k. 0 \<le> k \<and> k < 2 \<and> k \<noteq> 1 \<longrightarrow> out_val ?nn OUTPUT k < out_val ?nn OUTPUT 1"
  proof (intro allI impI)
    fix k :: int assume "0 \<le> k \<and> k < 2 \<and> k \<noteq> 1"
    then have "k = 0" by linarith
    with o0 o1 show "out_val ?nn OUTPUT k < out_val ?nn OUTPUT 1" by simp
  qed
  then have "r = 1"
    using o1 by (intro strict) simp
  with w run show ?thesis by simp
qed


section \<open>updateNodeWeights\<close>

text \<open>
  The layer whose outputs a node of a layer reads, as updateNodeWeights and calcNodeOutput
  choose it: INPUT for HIDDEN, and HIDDEN otherwise.  \<open>cell_val nn ltype j f\<close> is the double
  stored in field \<open>f\<close> of node \<open>j\<close> of a layer.
\<close>

definition prev_layer :: "LayerType \<Rightarrow> LayerType" where
  "prev_layer ltype = (if ltype = HIDDEN then INPUT else HIDDEN)"

definition cell_val :: "Network \<Rightarrow> LayerType \<Rightarrow> int \<Rightarrow> field \<Rightarrow> real" where
  "cell_val nn ltype j f = dbl (layers nn) (cell_addr nn ltype j f)"

lemma out_val_cell_val: "out_val nn lt j = cell_val nn lt j Output"
  by (simp add: out_val_def cell_val_def)

lemma wcount_prev:
  "0 \<le> k \<Longrightarrow> k < wcount_of ic hc oc lt \<Longrightarrow> k < ncount_of ic hc oc (prev_layer lt)"
  by (cases lt) (simp_all add: prev_layer_def)

lemma dbl_upd: "dbl (m(a \<mapsto> DblCell v)) b = (if b = a then v else dbl m b)"
  by (simp add: dbl_def)

lemma updateNodeWeights_loop_spec:
  assumes "wf_network nn ic hc oc" and "0 \<le> j" and "j < ncount_of ic hc oc lt" and "0 \<le> i"
  shows "\<exists>m'. updateNodeWeights_loop nn (node_addr nn lt j) (node_addr nn (prev_layer lt) i)
                (node_size nn (prev_layer lt)) e i = Some (nn\<lparr>layers := m'\<rparr>) \<and>
           (\<forall>k. i \<le> k \<and> k < wcount_of ic hc oc lt \<longrightarrow>
              m' (cell_addr nn lt j (Weight k)) =
                Some (DblCell (cell_val nn lt j (Weight k) +
                               learningRate nn * out_val nn (prev_layer lt) k * e))) \<and>
           (\<forall>a. (\<forall>k. i \<le> k \<and> k < wcount_of ic hc oc lt \<longrightarrow> a \<noteq> cell_addr nn lt j (Weight k)) \<longrightarrow>
              m' a = layers nn a)"
  using assms(1,4)
proof (induction "nat (wcount_of ic hc oc lt - i)" arbitrary: nn i)
  case 0
  then have "\<not> i < wcount_of ic hc oc lt" by simp
  then show ?case
    using wf_cell_wcount [OF "0.prems"(1) assms(2,3)]
    by (subst updateNodeWeights_loop.simps)
      (auto simp: cell_addr_def intro!: exI [of _ "layers nn"])
next
  case (Suc n)
  let ?wc = "wcount_of ic hc oc lt"
  let ?pl = "prev_layer lt"
  from Suc have lt: "i < ?wc" by linarith
  note wf = Suc.prems(1)
  let ?m = "layers nn"
  let ?a = "cell_addr nn lt j (Weight i)"
  let ?v = "cell_val nn lt j (Weight i) + learningRate nn * out_val nn ?pl i * e"
  let ?m1 = "?m(?a \<mapsto> DblCell ?v)"
  let ?nn1 = "nn\<lparr>layers := ?m1\<rparr>"
  have vw: "valid_cell ic hc oc lt j (Weight k)" if "0 \<le> k" "k < ?wc" for k
    using that assms(2,3) by (simp add: valid_cell_def)
  have vo: "valid_cell ic hc oc ?pl k Output" if "0 \<le> k" "k < ?wc" for k
    using that wcount_prev [of k ic hc oc lt] by (simp add: valid_cell_def)
  have d: "is_dbl ?m ?a"
    using wf_cell_is_dbl [OF wf vw] Suc.prems(2) lt by simp
  have rdw: "read_dbl ?m (weights_at (node_addr nn lt j) i) = Some (cell_val nn lt j (Weight i))"
    using is_dbl_read [OF d] by (simp add: cell_addr_def cell_val_def)
  have rdx: "read_dbl ?m (output_at (node_addr nn ?pl i)) = Some (out_val nn ?pl i)"
    using wf_read_output [OF wf, of i ?pl] wcount_prev [of i ic hc oc lt] Suc.prems(2) lt by simp
  have wf1: "wf_network ?nn1 ic hc oc"
    using wf_same_layout [OF wf same_layout_write [OF d]] .
  have n: "n = nat (?wc - (i + 1))" and i1: "0 \<le> i + 1"
    using Suc.hyps(2) Suc.prems(2) by linarith+
  from Suc.hyps(1) [OF n wf1 i1] obtain m' where
    run: "updateNodeWeights_loop ?nn1 (node_addr nn lt j) (node_addr nn ?pl (i + 1))
            (node_size nn ?pl) e (i + 1) = Some (nn\<lparr>layers := m'\<rparr>)" and
    set: "\<And>k. i + 1 \<le> k \<Longrightarrow> k < ?wc \<Longrightarrow>
            m' (cell_addr nn lt j (Weight k)) =
              Some (DblCell (cell_val ?nn1 lt j (Weight k) + learningRate nn * out_val ?nn1 ?pl k * e))" and
    frame: "\<And>a. (\<forall>k. i + 1 \<le> k \<and> k < ?wc \<longrightarrow> a \<noteq> cell_addr nn lt j (Weight k)) \<Longrightarrow>
            m' a = ?m1 a"
    by auto
  have step: "updateNodeWeights_loop nn (node_addr nn lt j) (node_addr nn ?pl i)
                (node_size nn ?pl) e i = Some (nn\<lparr>layers := m'\<rparr>)"
    using wf_cell_wcount [OF wf assms(2,3)] lt rdw rdx is_dbl_write [OF d] run
    by (subst updateNodeWeights_loop.simps)
      (simp add: cell_addr_def cell_val_def node_addr_Suc)
  have ne: "?a \<noteq> cell_addr nn lt j (Weight k)" if "i + 1 \<le> k" "k < ?wc" for k
    using cell_addr_inj [OF wf vw vw, of i k] that Suc.prems(2) lt by auto
  have neo: "?a \<noteq> cell_addr nn ?pl k Output" if "0 \<le> k" "k < ?wc" for k
    using cell_addr_inj [OF wf vw vo, of i k] that Suc.prems(2) lt by auto
  have same_w: "cell_val ?nn1 lt j (Weight k) = cell_val nn lt j (Weight k)"
    if "i + 1 \<le> k" "k < ?wc" for k
    using ne [OF that] by (simp add: cell_val_def dbl_upd)
  have same_o: "out_val ?nn1 ?pl k = out_val nn ?pl k" if "i + 1 \<le> k" "k < ?wc" for k
    using neo [of k] that Suc.prems(2) by (simp add: out_val_def dbl_upd)
  have "m' ?a = Some (DblCell ?v)"
    using frame [of ?a] ne by auto
  with set same_w same_o have set': "m' (cell_addr nn lt j (Weight k)) =
      Some (DblCell (cell_val nn lt j (Weight k) + learningRate nn * out_val nn ?pl k * e))"
    if "i \<le> k" "k < ?wc" for k
    using that by (cases "k = i") auto
  have frame': "m' a = ?m a"
    if "\<forall>k. i \<le> k \<and> k < ?wc \<longrightarrow> a \<noteq> cell_addr nn lt j (Weight k)" for a
    using frame [of a] that lt by auto
  from step set' frame' show ?case by blast
qed

lemma updateNodeWeights_spec:
  assumes wf: "wf_network nn ic hc oc" and j: "0 \<le> j" "j < ncount_of ic hc oc lt"
  shows "\<exists>m'. updateNodeWeights nn lt j e = Some (nn\<lparr>layers := m'\<rparr>) \<and>
           (\<forall>k. 0 \<le> k \<and> k < wcount_of ic hc oc lt \<longrightarrow>
              m' (cell_addr nn lt j (Weight k)) =
                Some (DblCell (cell_val nn lt j (Weight k) +
                               learningRate nn * out_val nn (prev_layer lt) k * e))) \<and>
           m' (cell_addr nn lt j Bias) =
             Some (DblCell (cell_val nn lt j Bias + learningRate nn * 1 * e)) \<and>
           (\<forall>a. a \<noteq> cell_addr nn lt j Bias \<and>
                (\<forall>k. 0 \<le> k \<and> k < wcount_of ic hc oc lt \<longrightarrow> a \<noteq> cell_addr nn lt j (Weight k)) \<longrightarrow>
              m' a = layers nn a) \<and>
           same_layout (layers nn) m'"
proof -
  let ?wc = "wcount_of ic hc oc lt"
  let ?pl = "prev_layer lt"
  let ?b = "cell_addr nn lt j Bias"
  from updateNodeWeights_loop_spec [OF wf j, of 0 e] obtain m1 where
    run: "updateNodeWeights_loop nn (node_addr nn lt j) (node_addr nn ?pl 0)
            (node_size nn ?pl) e 0 = Some (nn\<lparr>layers := m1\<rparr>)" and
    set: "\<And>k. 0 \<le> k \<Longrightarrow> k < ?wc \<Longrightarrow>
            m1 (cell_addr nn lt j (Weight k)) =
              Some (DblCell (cell_val nn lt j (Weight k) + learningRate nn * out_val nn ?pl k * e))" and
    frame: "\<And>a. (\<forall>k. 0 \<le> k \<and> k < ?wc \<longrightarrow> a \<noteq> cell_addr nn lt j (Weight k)) \<Longrightarrow>
            m1 a = layers nn a"
    by auto
  have vw: "valid_cell ic hc oc lt j (Weight k)" if "0 \<le> k" "k < ?wc" for k
    using that j by (simp add: valid_cell_def)
  have vb: "valid_cell ic hc oc lt j Bias"
    using j by (simp add: valid_cell_def)
  have nb: "?b \<noteq> cell_addr nn lt j (Weight k)" if "0 \<le> k" "k < ?wc" for k
    using cell_addr_inj [OF wf vb vw, of k] that by auto
  have b1: "m1 ?b = layers nn ?b"
    using frame [of ?b] nb by auto
  have db: "is_dbl (layers nn) ?b"
    using wf_cell_is_dbl [OF wf vb] by simp
  then have db1: "is_dbl m1 ?b"
    using b1 by (simp add: is_dbl_def)
  have val: "dbl m1 ?b = cell_val nn lt j Bias"
    using b1 by (simp add: dbl_def cell_val_def)
  let ?m' = "m1(?b \<mapsto> DblCell (cell_val nn lt j Bias + learningRate nn * 1 * e))"
  have sizes: "(if lt = HIDDEN then do { l \<leftarrow> getLayer nn INPUT; Some (l, inpNodeSize nn) }
                else do { l \<leftarrow> getLayer nn HIDDEN; Some (l, hidNodeSize nn) })
               = Some (layer_at nn ?pl, node_size nn ?pl)"
    by (simp add: prev_layer_def)
  have res: "updateNodeWeights nn lt j e = Some (nn\<lparr>layers := ?m'\<rparr>)"
    unfolding updateNodeWeights_def
    using wf_getLayer [OF wf, of lt] wf_getNode_lt [OF wf j] run is_dbl_read [OF db1] is_dbl_write [OF db1] val
    by (simp add: sizes node_addr_0 [symmetric] cell_addr_def bias_at_def)
  have set': "?m' (cell_addr nn lt j (Weight k)) =
      Some (DblCell (cell_val nn lt j (Weight k) + learningRate nn * out_val nn ?pl k * e))"
    if "0 \<le> k" "k < ?wc" for k
    using set [OF that] nb [OF that] by auto
  have frame': "?m' a = layers nn a"
    if "a \<noteq> ?b \<and> (\<forall>k. 0 \<le> k \<and> k < ?wc \<longrightarrow> a \<noteq> cell_addr nn lt j (Weight k))" for a
    using frame [of a] that by auto
  have sl: "same_layout (layers nn) ?m'"
  proof (rule same_layout_frame [where W = "{a. a = ?b \<or> (\<exists>k. 0 \<le> k \<and> k < ?wc \<and> a = cell_addr nn lt j (Weight k))}"])
    fix a assume "a \<notin> {a. a = ?b \<or> (\<exists>k. 0 \<le> k \<and> k < ?wc \<and> a = cell_addr nn lt j (Weight k))}"
    then show "?m' a = layers nn a" using frame' [of a] by auto
  next
    fix a assume "a \<in> {a. a = ?b \<or> (\<exists>k. 0 \<le> k \<and> k < ?wc \<and> a = cell_addr nn lt j (Weight k))}"
    then consider "a = ?b" | k where "0 \<le> k" "k < ?wc" "a = cell_addr nn lt j (Weight k)"
      by auto
    then show "is_dbl (layers nn) a \<and> is_dbl ?m' a"
    proof cases
      case 1
      with db show ?thesis by (simp add: is_dbl_def)
    next
      case 2
      with wf_cell_is_dbl [OF wf vw, of k] set' [of k] show ?thesis
        by (simp add: is_dbl_def)
    qed
  qed
  from res set' frame' sl show ?thesis
    by (intro exI [of _ ?m']) simp
qed

text \<open>
  C4 asks that the stored weight equal \<open>w + r*x*e\<close> exactly.  The rule above holds of this
  model, in which a \<open>double\<close> is a real number and \<open>+\<close> and \<open>*\<close> are exact; the rounding of
  every operation of the program, on which the exact value of the stored \<open>double\<close> depends,
  is not represented, so the exactness of the stored value is not stated here.
\<close>


section \<open>Forward pass (C3)\<close>

text \<open>
  \<open>activation\<close> is the function activateNode applies to a node of a layer;
  \<open>weighted_sum nn ltype j i n\<close> is the sum, over the nodes \<open>k\<close> from \<open>i\<close> up to \<open>n\<close> of
  the previous layer, of the output of node \<open>k\<close> times weight \<open>k\<close> of node \<open>j\<close>.
\<close>

definition activation :: "Network \<Rightarrow> LayerType \<Rightarrow> real \<Rightarrow> real" where
  "activation nn ltype x =
     (let actFct = (if ltype = HIDDEN then hidLayerActType nn else outLayerActType nn)
      in if actFct = TANH then tanh x else 1 / (1 + exp (- x)))"

definition weighted_sum :: "Network \<Rightarrow> LayerType \<Rightarrow> int \<Rightarrow> int \<Rightarrow> int \<Rightarrow> real" where
  "weighted_sum nn ltype j i n =
     (\<Sum>k = i..<n. out_val nn (prev_layer ltype) k * cell_val nn ltype j (Weight k))"

lemma sum_int_head:
  fixes f :: "int \<Rightarrow> real"
  assumes "i < n"
  shows "(\<Sum>k = i..<n. f k) = f i + (\<Sum>k = i + 1..<n. f k)"
proof -
  have "{i..<n} = insert i {i + 1..<n}" using assms by auto
  then show ?thesis by simp
qed

lemma weighted_sum_head:
  "i < n \<Longrightarrow> weighted_sum nn lt j i n =
     out_val nn (prev_layer lt) i * cell_val nn lt j (Weight i) + weighted_sum nn lt j (i + 1) n"
  unfolding weighted_sum_def by (rule sum_int_head)

lemma weighted_sum_empty: "n \<le> i \<Longrightarrow> weighted_sum nn lt j i n = 0"
  by (simp add: weighted_sum_def)

lemma weighted_sum_cong:
  assumes "\<And>k. i \<le> k \<Longrightarrow> k < n \<Longrightarrow> out_val nn' (prev_layer lt) k = out_val nn (prev_layer lt) k"
    and "\<And>k. i \<le> k \<Longrightarrow> k < n \<Longrightarrow> cell_val nn' lt j (Weight k) = cell_val nn lt j (Weight k)"
  shows "weighted_sum nn' lt j i n = weighted_sum nn lt j i n"
  unfolding weighted_sum_def using assms by (intro sum.cong) auto

lemma wcount_is_prev_ncount:
  "lt \<noteq> INPUT \<Longrightarrow> ncount_of ic hc oc (prev_layer lt) = wcount_of ic hc oc lt"
  by (cases lt) (simp_all add: prev_layer_def)

lemma prev_layer_neq: "prev_layer lt \<noteq> lt"
  by (cases lt) (simp_all add: prev_layer_def)

lemma cell_val_frame:
  "m' (cell_addr nn lt j f) = layers nn (cell_addr nn lt j f) \<Longrightarrow>
   cell_val (nn\<lparr>layers := m'\<rparr>) lt j f = cell_val nn lt j f"
  by (simp add: cell_val_def dbl_def)

lemma cell_val_set:
  "m' (cell_addr nn lt j f) = Some (DblCell v) \<Longrightarrow> cell_val (nn\<lparr>layers := m'\<rparr>) lt j f = v"
  by (simp add: cell_val_def dbl_def)

lemma wf_cell_lookup:
  assumes "wf_network nn ic hc oc" and "valid_cell ic hc oc lt j f" and "f \<noteq> Wcount"
  shows "layers nn (cell_addr nn lt j f) = Some (DblCell (cell_val nn lt j f))"
  using wf_cell_is_dbl [OF assms]
  by (auto simp: is_dbl_def cell_val_def dbl_def split: option.splits cell.splits)

lemma calcNodeOutput_loop_spec:
  assumes "wf_network nn ic hc oc" and "lt \<noteq> INPUT" and "0 \<le> j" and "j < ncount_of ic hc oc lt"
    and "0 \<le> i"
  shows "\<exists>m'. calcNodeOutput_loop nn (node_addr nn lt j) (layer_at nn (prev_layer lt))
                (node_addr nn (prev_layer lt) i) (node_size nn (prev_layer lt)) i
              = Some (nn\<lparr>layers := m'\<rparr>) \<and>
           m' (cell_addr nn lt j Output) =
             Some (DblCell (out_val nn lt j + weighted_sum nn lt j i (wcount_of ic hc oc lt))) \<and>
           (\<forall>a. a \<noteq> cell_addr nn lt j Output \<longrightarrow> m' a = layers nn a)"
  using assms(1,5)
proof (induction "nat (wcount_of ic hc oc lt - i)" arbitrary: nn i)
  case 0
  let ?wc = "wcount_of ic hc oc lt"
  from 0 have ge: "\<not> i < ?wc" "?wc \<le> i" by simp_all
  have vo: "valid_cell ic hc oc lt j Output"
    using assms(3,4) by (simp add: valid_cell_def)
  show ?case
    using wf_ncount [OF "0.prems"(1), of "prev_layer lt"] wcount_is_prev_ncount [OF assms(2), of ic hc oc]
      ge wf_cell_lookup [OF "0.prems"(1) vo]
    by (subst calcNodeOutput_loop.simps)
      (auto simp: weighted_sum_empty out_val_cell_val intro!: exI [of _ "layers nn"])
next
  case (Suc n)
  let ?wc = "wcount_of ic hc oc lt"
  let ?pl = "prev_layer lt"
  from Suc have lt: "i < ?wc" by linarith
  note wf = Suc.prems(1)
  let ?m = "layers nn"
  let ?a = "cell_addr nn lt j Output"
  let ?v = "out_val nn lt j + out_val nn ?pl i * cell_val nn lt j (Weight i)"
  let ?m1 = "?m(?a \<mapsto> DblCell ?v)"
  let ?nn1 = "nn\<lparr>layers := ?m1\<rparr>"
  have vo: "valid_cell ic hc oc lt j Output"
    using assms(3,4) by (simp add: valid_cell_def)
  have vw: "valid_cell ic hc oc lt j (Weight k)" if "0 \<le> k" "k < ?wc" for k
    using that assms(3,4) by (simp add: valid_cell_def)
  have vp: "valid_cell ic hc oc ?pl k Output" if "0 \<le> k" "k < ?wc" for k
    using that wcount_prev [of k ic hc oc lt] by (simp add: valid_cell_def)
  have d: "is_dbl ?m ?a"
    using wf_cell_is_dbl [OF wf vo] by simp
  have rda: "read_dbl ?m (output_at (node_addr nn lt j)) = Some (out_val nn lt j)"
    using wf_read_output [OF wf assms(3,4)] .
  have rdx: "read_dbl ?m (output_at (node_addr nn ?pl i)) = Some (out_val nn ?pl i)"
    using wf_read_output [OF wf, of i ?pl] wcount_prev [of i ic hc oc lt] Suc.prems(2) lt by simp
  have rdw: "read_dbl ?m (weights_at (node_addr nn lt j) i) = Some (cell_val nn lt j (Weight i))"
    using is_dbl_read [OF wf_cell_is_dbl [OF wf vw, of i]] Suc.prems(2) lt
    by (simp add: cell_addr_def cell_val_def)
  have wf1: "wf_network ?nn1 ic hc oc"
    using wf_same_layout [OF wf same_layout_write [OF d]] .
  have n: "n = nat (?wc - (i + 1))" and i1: "0 \<le> i + 1"
    using Suc.hyps(2) Suc.prems(2) by linarith+
  from Suc.hyps(1) [OF n wf1 i1] obtain m' where
    run: "calcNodeOutput_loop ?nn1 (node_addr nn lt j) (layer_at nn ?pl)
            (node_addr nn ?pl (i + 1)) (node_size nn ?pl) (i + 1) = Some (nn\<lparr>layers := m'\<rparr>)" and
    res: "m' ?a = Some (DblCell (out_val ?nn1 lt j + weighted_sum ?nn1 lt j (i + 1) ?wc))" and
    frame: "\<And>a. a \<noteq> ?a \<Longrightarrow> m' a = ?m1 a"
    by auto
  have step: "calcNodeOutput_loop nn (node_addr nn lt j) (layer_at nn ?pl) (node_addr nn ?pl i)
                (node_size nn ?pl) i = Some (nn\<lparr>layers := m'\<rparr>)"
    using wf_ncount [OF wf, of ?pl] wcount_is_prev_ncount [OF assms(2), of ic hc oc]
      lt rda rdx rdw is_dbl_write [OF d] run
    by (subst calcNodeOutput_loop.simps)
      (simp add: cell_addr_def node_addr_Suc)
  have o1: "out_val ?nn1 lt j = ?v"
    by (simp add: out_val_def dbl_upd)
  have ws: "weighted_sum ?nn1 lt j (i + 1) ?wc = weighted_sum nn lt j (i + 1) ?wc"
  proof (rule weighted_sum_cong)
    fix k assume k: "i + 1 \<le> k" "k < ?wc"
    have "cell_addr nn ?pl k Output \<noteq> ?a"
      using cell_addr_inj [OF wf vp vo, of k] k Suc.prems(2) prev_layer_neq [of lt] by auto
    then show "out_val ?nn1 ?pl k = out_val nn ?pl k"
      by (simp add: out_val_def dbl_upd)
    have "cell_addr nn lt j (Weight k) \<noteq> ?a"
      using cell_addr_inj [OF wf vw vo, of k] k Suc.prems(2) by auto
    then show "cell_val ?nn1 lt j (Weight k) = cell_val nn lt j (Weight k)"
      by (simp add: cell_val_def dbl_upd)
  qed
  have "m' ?a = Some (DblCell (out_val nn lt j + weighted_sum nn lt j i ?wc))"
    using res o1 ws weighted_sum_head [OF lt, of nn lt j] by simp
  moreover have "m' a = ?m a" if "a \<noteq> ?a" for a
    using frame [OF that] that by simp
  ultimately show ?case using step by blast
qed

lemma calcNodeOutput_spec:
  assumes wf: "wf_network nn ic hc oc" and lt: "lt \<noteq> INPUT"
    and j: "0 \<le> j" "j < ncount_of ic hc oc lt"
  shows "\<exists>m'. calcNodeOutput nn lt j = Some (nn\<lparr>layers := m'\<rparr>) \<and>
           m' (cell_addr nn lt j Output) =
             Some (DblCell (cell_val nn lt j Bias + weighted_sum nn lt j 0 (wcount_of ic hc oc lt))) \<and>
           (\<forall>a. a \<noteq> cell_addr nn lt j Output \<longrightarrow> m' a = layers nn a) \<and>
           same_layout (layers nn) m'"
proof -
  let ?wc = "wcount_of ic hc oc lt"
  let ?pl = "prev_layer lt"
  let ?a = "cell_addr nn lt j Output"
  let ?b = "cell_val nn lt j Bias"
  let ?m1 = "(layers nn)(?a \<mapsto> DblCell ?b)"
  let ?nn1 = "nn\<lparr>layers := ?m1\<rparr>"
  have vo: "valid_cell ic hc oc lt j Output" and vb: "valid_cell ic hc oc lt j Bias"
    using j by (simp_all add: valid_cell_def)
  have vw: "valid_cell ic hc oc lt j (Weight k)" if "0 \<le> k" "k < ?wc" for k
    using that j by (simp add: valid_cell_def)
  have vp: "valid_cell ic hc oc ?pl k Output" if "0 \<le> k" "k < ?wc" for k
    using that wcount_prev [of k ic hc oc lt] by (simp add: valid_cell_def)
  have d: "is_dbl (layers nn) ?a"
    using wf_cell_is_dbl [OF wf vo] by simp
  have rdb: "read_dbl (layers nn) (bias_at (node_addr nn lt j)) = Some ?b"
    using is_dbl_read [OF wf_cell_is_dbl [OF wf vb]] by (simp add: cell_addr_def cell_val_def)
  have wf1: "wf_network ?nn1 ic hc oc"
    using wf_same_layout [OF wf same_layout_write [OF d]] .
  from calcNodeOutput_loop_spec [OF wf1 lt j, of 0] obtain m' where
    run: "calcNodeOutput_loop ?nn1 (node_addr nn lt j) (layer_at nn ?pl)
            (node_addr nn ?pl 0) (node_size nn ?pl) 0 = Some (nn\<lparr>layers := m'\<rparr>)" and
    res: "m' ?a = Some (DblCell (out_val ?nn1 lt j + weighted_sum ?nn1 lt j 0 ?wc))" and
    frame: "\<And>a. a \<noteq> ?a \<Longrightarrow> m' a = ?m1 a"
    by auto
  have sizes: "(if lt = HIDDEN then do { l \<leftarrow> getLayer nn INPUT; Some (l, inpNodeSize nn) }
                else do { l \<leftarrow> getLayer nn HIDDEN; Some (l, hidNodeSize nn) })
               = Some (layer_at nn ?pl, node_size nn ?pl)"
    by (simp add: prev_layer_def)
  have call: "calcNodeOutput nn lt j = Some (nn\<lparr>layers := m'\<rparr>)"
    unfolding calcNodeOutput_def
    using wf_getLayer [OF wf, of lt] wf_getNode_lt [OF wf j] rdb is_dbl_write [OF d] run
    by (simp add: sizes node_addr_0 [symmetric] cell_addr_def)
  have o1: "out_val ?nn1 lt j = ?b"
    by (simp add: out_val_def dbl_upd)
  have ws: "weighted_sum ?nn1 lt j 0 ?wc = weighted_sum nn lt j 0 ?wc"
  proof (rule weighted_sum_cong)
    fix k :: int assume k: "0 \<le> k" "k < ?wc"
    have "cell_addr nn ?pl k Output \<noteq> ?a"
      using cell_addr_inj [OF wf vp vo, of k] k prev_layer_neq [of lt] by auto
    then show "out_val ?nn1 ?pl k = out_val nn ?pl k"
      by (simp add: out_val_def dbl_upd)
    have "cell_addr nn lt j (Weight k) \<noteq> ?a"
      using cell_addr_inj [OF wf vw vo, of k] k by auto
    then show "cell_val ?nn1 lt j (Weight k) = cell_val nn lt j (Weight k)"
      by (simp add: cell_val_def dbl_upd)
  qed
  have val: "m' ?a = Some (DblCell (?b + weighted_sum nn lt j 0 ?wc))"
    using res o1 ws by simp
  have frame': "m' a = layers nn a" if "a \<noteq> ?a" for a
    using frame [OF that] that by simp
  have sl: "same_layout (layers nn) m'"
  proof (rule same_layout_frame [where W = "{?a}"])
    fix a assume "a \<notin> {?a}" then show "m' a = layers nn a" using frame' by simp
  next
    fix a assume "a \<in> {?a}"
    with d val show "is_dbl (layers nn) a \<and> is_dbl m' a" by (simp add: is_dbl_def)
  qed
  from call val frame' sl show ?thesis by blast
qed

lemma activateNode_spec:
  assumes wf: "wf_network nn ic hc oc" and j: "0 \<le> j" "j < ncount_of ic hc oc lt"
  shows "\<exists>m'. activateNode nn lt j = Some (nn\<lparr>layers := m'\<rparr>) \<and>
           m' (cell_addr nn lt j Output) = Some (DblCell (activation nn lt (out_val nn lt j))) \<and>
           (\<forall>a. a \<noteq> cell_addr nn lt j Output \<longrightarrow> m' a = layers nn a) \<and>
           same_layout (layers nn) m'"
proof -
  let ?a = "cell_addr nn lt j Output"
  let ?m' = "(layers nn)(?a \<mapsto> DblCell (activation nn lt (out_val nn lt j)))"
  have vo: "valid_cell ic hc oc lt j Output"
    using j by (simp add: valid_cell_def)
  have d: "is_dbl (layers nn) ?a"
    using wf_cell_is_dbl [OF wf vo] by simp
  have "activateNode nn lt j = Some (nn\<lparr>layers := ?m'\<rparr>)"
    unfolding activateNode_def
    using wf_getLayer [OF wf, of lt] wf_getNode_lt [OF wf j] wf_read_output [OF wf j] is_dbl_write [OF d]
    by (simp add: activation_def cell_addr_def Let_def)
  moreover have "same_layout (layers nn) ?m'"
    by (rule same_layout_write [OF d])
  ultimately show ?thesis by (intro exI [of _ ?m']) simp
qed

text \<open>\<open>node_result\<close> is the activated output of node \<open>j\<close> of a layer, computed from the
  state \<open>nn\<close>.\<close>

definition node_result :: "Network \<Rightarrow> int \<Rightarrow> int \<Rightarrow> int \<Rightarrow> LayerType \<Rightarrow> int \<Rightarrow> real" where
  "node_result nn ic hc oc ltype j =
     activation nn ltype
       (cell_val nn ltype j Bias + weighted_sum nn ltype j 0 (wcount_of ic hc oc ltype))"

lemma activation_layers_update [simp]: "activation (nn\<lparr>layers := m\<rparr>) lt x = activation nn lt x"
  by (simp add: activation_def)

lemma node_result_frame:
  assumes wf: "wf_network nn ic hc oc" and j: "0 \<le> j" "j < ncount_of ic hc oc lt"
    and frame: "\<And>a. (\<forall>j'. 0 \<le> j' \<and> j' < ncount_of ic hc oc lt \<longrightarrow> a \<noteq> cell_addr nn lt j' Output)
                  \<Longrightarrow> m' a = layers nn a"
  shows "node_result (nn\<lparr>layers := m'\<rparr>) ic hc oc lt j = node_result nn ic hc oc lt j"
proof -
  let ?wc = "wcount_of ic hc oc lt"
  let ?pl = "prev_layer lt"
  have vo: "valid_cell ic hc oc lt j' Output" if "0 \<le> j'" "j' < ncount_of ic hc oc lt" for j'
    using that by (simp add: valid_cell_def)
  have keep: "m' (cell_addr nn lt' k f) = layers nn (cell_addr nn lt' k f)"
    if "valid_cell ic hc oc lt' k f" "lt' \<noteq> lt \<or> f \<noteq> Output" for lt' k f
  proof (rule frame, intro allI impI)
    fix j' assume "0 \<le> j' \<and> j' < ncount_of ic hc oc lt"
    with cell_addr_inj [OF wf that(1) vo, of j'] that(2)
    show "cell_addr nn lt' k f \<noteq> cell_addr nn lt j' Output" by auto
  qed
  have b: "cell_val (nn\<lparr>layers := m'\<rparr>) lt j Bias = cell_val nn lt j Bias"
    using keep [of lt j Bias] j by (intro cell_val_frame) (simp add: valid_cell_def)
  have ws: "weighted_sum (nn\<lparr>layers := m'\<rparr>) lt j 0 ?wc = weighted_sum nn lt j 0 ?wc"
  proof (rule weighted_sum_cong)
    fix k :: int assume k: "0 \<le> k" "k < ?wc"
    have "m' (cell_addr nn ?pl k Output) = layers nn (cell_addr nn ?pl k Output)"
      using keep [of ?pl k Output] k wcount_prev [of k ic hc oc lt] prev_layer_neq [of lt]
      by (simp add: valid_cell_def)
    then show "out_val (nn\<lparr>layers := m'\<rparr>) ?pl k = out_val nn ?pl k"
      by (simp add: out_val_def dbl_def)
    show "cell_val (nn\<lparr>layers := m'\<rparr>) lt j (Weight k) = cell_val nn lt j (Weight k)"
      using keep [of lt j "Weight k"] k j by (intro cell_val_frame) (simp add: valid_cell_def)
  qed
  show ?thesis
    by (simp add: node_result_def b ws)
qed

lemma calcLayer_loop_spec:
  assumes "wf_network nn ic hc oc" and "lt \<noteq> INPUT" and "0 \<le> i"
  shows "\<exists>m'. calcLayer_loop nn lt (layer_at nn lt) i = Some (nn\<lparr>layers := m'\<rparr>) \<and>
           (\<forall>j. i \<le> j \<and> j < ncount_of ic hc oc lt \<longrightarrow>
              m' (cell_addr nn lt j Output) = Some (DblCell (node_result nn ic hc oc lt j))) \<and>
           (\<forall>a. (\<forall>j. i \<le> j \<and> j < ncount_of ic hc oc lt \<longrightarrow> a \<noteq> cell_addr nn lt j Output) \<longrightarrow>
              m' a = layers nn a)"
  using assms(1,3)
proof (induction "nat (ncount_of ic hc oc lt - i)" arbitrary: nn i)
  case 0
  then have "\<not> i < ncount_of ic hc oc lt" by simp
  then show ?case
    using wf_ncount [OF "0.prems"(1), of lt]
    by (subst calcLayer_loop.simps) (auto intro!: exI [of _ "layers nn"])
next
  case (Suc n)
  let ?nc = "ncount_of ic hc oc lt"
  from Suc have lt: "i < ?nc" by linarith
  note wf = Suc.prems(1)
  note i0 = Suc.prems(2)
  let ?a = "cell_addr nn lt i Output"
  have vo: "valid_cell ic hc oc lt j' Output" if "0 \<le> j'" "j' < ?nc" for j'
    using that by (simp add: valid_cell_def)
  from calcNodeOutput_spec [OF wf assms(2) i0 lt] obtain m1 where
    c1: "calcNodeOutput nn lt i = Some (nn\<lparr>layers := m1\<rparr>)" and
    v1: "m1 ?a = Some (DblCell (cell_val nn lt i Bias + weighted_sum nn lt i 0 (wcount_of ic hc oc lt)))" and
    f1: "\<And>a. a \<noteq> ?a \<Longrightarrow> m1 a = layers nn a" and
    s1: "same_layout (layers nn) m1"
    by blast
  let ?nn1 = "nn\<lparr>layers := m1\<rparr>"
  have wf1: "wf_network ?nn1 ic hc oc"
    by (rule wf_same_layout [OF wf s1])
  from activateNode_spec [OF wf1 i0 lt] obtain m2 where
    c2: "activateNode ?nn1 lt i = Some (nn\<lparr>layers := m2\<rparr>)" and
    v2: "m2 ?a = Some (DblCell (activation nn lt (out_val ?nn1 lt i)))" and
    f2: "\<And>a. a \<noteq> ?a \<Longrightarrow> m2 a = m1 a" and
    s2: "same_layout m1 m2"
    by auto
  let ?nn2 = "nn\<lparr>layers := m2\<rparr>"
  have wf2: "wf_network ?nn2 ic hc oc"
    using wf_same_layout [OF wf1, of m2] s2 by simp
  have o1: "out_val ?nn1 lt i = cell_val nn lt i Bias + weighted_sum nn lt i 0 (wcount_of ic hc oc lt)"
    using v1 by (simp add: out_val_def dbl_def)
  have v2': "m2 ?a = Some (DblCell (node_result nn ic hc oc lt i))"
    using v2 o1 by (simp add: node_result_def)
  have f2': "m2 a = layers nn a" if "a \<noteq> ?a" for a
    using f1 [OF that] f2 [OF that] by simp
  have n: "n = nat (?nc - (i + 1))" and i1: "0 \<le> i + 1"
    using Suc.hyps(2) i0 by linarith+
  from Suc.hyps(1) [OF n wf2 i1] obtain m' where
    run: "calcLayer_loop ?nn2 lt (layer_at nn lt) (i + 1) = Some (nn\<lparr>layers := m'\<rparr>)" and
    set: "\<And>j. i + 1 \<le> j \<Longrightarrow> j < ?nc \<Longrightarrow>
            m' (cell_addr nn lt j Output) = Some (DblCell (node_result ?nn2 ic hc oc lt j))" and
    frame: "\<And>a. (\<forall>j. i + 1 \<le> j \<and> j < ?nc \<longrightarrow> a \<noteq> cell_addr nn lt j Output) \<Longrightarrow> m' a = m2 a"
    by auto
  have step: "calcLayer_loop nn lt (layer_at nn lt) i = Some (nn\<lparr>layers := m'\<rparr>)"
    using wf_ncount [OF wf, of lt] lt c1 c2 run
    by (subst calcLayer_loop.simps) simp
  have nr: "node_result ?nn2 ic hc oc lt j = node_result nn ic hc oc lt j"
    if "0 \<le> j" "j < ?nc" for j
  proof (rule node_result_frame [OF wf that])
    fix a assume "\<forall>j'. 0 \<le> j' \<and> j' < ?nc \<longrightarrow> a \<noteq> cell_addr nn lt j' Output"
    with i0 lt have "a \<noteq> ?a" by auto
    then show "m2 a = layers nn a" by (rule f2')
  qed
  have ne: "?a \<noteq> cell_addr nn lt j Output" if "i + 1 \<le> j" "j < ?nc" for j
    using cell_addr_inj [OF wf vo vo, of i j] that i0 lt by auto
  have "m' ?a = Some (DblCell (node_result nn ic hc oc lt i))"
    using frame [of ?a] ne v2' by auto
  with set nr have set': "m' (cell_addr nn lt j Output) = Some (DblCell (node_result nn ic hc oc lt j))"
    if "i \<le> j" "j < ?nc" for j
    using that i0 by (cases "j = i") auto
  have frame': "m' a = layers nn a"
    if "\<forall>j. i \<le> j \<and> j < ?nc \<longrightarrow> a \<noteq> cell_addr nn lt j Output" for a
  proof -
    from that lt have "a \<noteq> ?a" by auto
    with frame [of a] that f2' [of a] show ?thesis by auto
  qed
  from step set' frame' show ?case by blast
qed

lemma calcLayer_spec:
  assumes wf: "wf_network nn ic hc oc" and lt: "lt \<noteq> INPUT"
  shows "\<exists>m'. calcLayer nn lt = Some (nn\<lparr>layers := m'\<rparr>) \<and>
           (\<forall>j. 0 \<le> j \<and> j < ncount_of ic hc oc lt \<longrightarrow>
              m' (cell_addr nn lt j Output) = Some (DblCell (node_result nn ic hc oc lt j))) \<and>
           (\<forall>a. (\<forall>j. 0 \<le> j \<and> j < ncount_of ic hc oc lt \<longrightarrow> a \<noteq> cell_addr nn lt j Output) \<longrightarrow>
              m' a = layers nn a) \<and>
           same_layout (layers nn) m'"
proof -
  let ?nc = "ncount_of ic hc oc lt"
  from calcLayer_loop_spec [OF wf lt, of 0] obtain m' where
    run: "calcLayer nn lt = Some (nn\<lparr>layers := m'\<rparr>)" and
    set: "\<And>j. 0 \<le> j \<Longrightarrow> j < ?nc \<Longrightarrow>
            m' (cell_addr nn lt j Output) = Some (DblCell (node_result nn ic hc oc lt j))" and
    frame: "\<And>a. (\<forall>j. 0 \<le> j \<and> j < ?nc \<longrightarrow> a \<noteq> cell_addr nn lt j Output) \<Longrightarrow> m' a = layers nn a"
    by (auto simp: calcLayer_def wf_getLayer [OF wf])
  have sl: "same_layout (layers nn) m'"
  proof (rule same_layout_frame [where W = "{a. \<exists>j. 0 \<le> j \<and> j < ?nc \<and> a = cell_addr nn lt j Output}"])
    fix a assume "a \<notin> {a. \<exists>j. 0 \<le> j \<and> j < ?nc \<and> a = cell_addr nn lt j Output}"
    then show "m' a = layers nn a" using frame [of a] by auto
  next
    fix a assume "a \<in> {a. \<exists>j. 0 \<le> j \<and> j < ?nc \<and> a = cell_addr nn lt j Output}"
    then obtain j where j: "0 \<le> j" "j < ?nc" "a = cell_addr nn lt j Output" by auto
    with wf_cell_is_dbl [OF wf, of lt j Output] set [of j]
    show "is_dbl (layers nn) a \<and> is_dbl m' a"
      by (simp add: valid_cell_def is_dbl_def)
  qed
  from run set frame sl show ?thesis by blast
qed

lemma feedForwardNetwork_spec:
  assumes wf: "wf_network nn ic hc oc"
  shows "\<exists>m'. feedForwardNetwork nn = Some (nn\<lparr>layers := m'\<rparr>) \<and>
           (\<forall>h. 0 \<le> h \<and> h < hc \<longrightarrow>
              m' (cell_addr nn HIDDEN h Output) = Some (DblCell (node_result nn ic hc oc HIDDEN h))) \<and>
           (\<forall>j. 0 \<le> j \<and> j < oc \<longrightarrow>
              m' (cell_addr nn OUTPUT j Output) =
                Some (DblCell (activation nn OUTPUT
                  (cell_val nn OUTPUT j Bias +
                   (\<Sum>h = 0..<hc. node_result nn ic hc oc HIDDEN h * cell_val nn OUTPUT j (Weight h)))))) \<and>
           (\<forall>a. (\<forall>h. 0 \<le> h \<and> h < hc \<longrightarrow> a \<noteq> cell_addr nn HIDDEN h Output) \<and>
                (\<forall>j. 0 \<le> j \<and> j < oc \<longrightarrow> a \<noteq> cell_addr nn OUTPUT j Output) \<longrightarrow>
              m' a = layers nn a) \<and>
           same_layout (layers nn) m'"
proof -
  from calcLayer_spec [OF wf, of HIDDEN] obtain m1 where
    c1: "calcLayer nn HIDDEN = Some (nn\<lparr>layers := m1\<rparr>)" and
    v1: "\<And>h. 0 \<le> h \<Longrightarrow> h < hc \<Longrightarrow>
           m1 (cell_addr nn HIDDEN h Output) = Some (DblCell (node_result nn ic hc oc HIDDEN h))" and
    f1: "\<And>a. (\<forall>h. 0 \<le> h \<and> h < hc \<longrightarrow> a \<noteq> cell_addr nn HIDDEN h Output) \<Longrightarrow> m1 a = layers nn a" and
    s1: "same_layout (layers nn) m1"
    by auto
  let ?nn1 = "nn\<lparr>layers := m1\<rparr>"
  have wf1: "wf_network ?nn1 ic hc oc"
    by (rule wf_same_layout [OF wf s1])
  from calcLayer_spec [OF wf1, of OUTPUT] obtain m2 where
    c2: "calcLayer ?nn1 OUTPUT = Some (nn\<lparr>layers := m2\<rparr>)" and
    v2: "\<And>j. 0 \<le> j \<Longrightarrow> j < oc \<Longrightarrow>
           m2 (cell_addr nn OUTPUT j Output) = Some (DblCell (node_result ?nn1 ic hc oc OUTPUT j))" and
    f2: "\<And>a. (\<forall>j. 0 \<le> j \<and> j < oc \<longrightarrow> a \<noteq> cell_addr nn OUTPUT j Output) \<Longrightarrow> m2 a = m1 a" and
    s2: "same_layout m1 m2"
    by auto
  have vh: "valid_cell ic hc oc HIDDEN h Output" if "0 \<le> h" "h < hc" for h
    using that by (simp add: valid_cell_def)
  have vo: "valid_cell ic hc oc OUTPUT j f" if "0 \<le> j" "j < oc" "valid_field hc f" for j f
    using that by (simp add: valid_cell_def)
  have keep1: "m1 (cell_addr nn OUTPUT j f) = layers nn (cell_addr nn OUTPUT j f)"
    if "0 \<le> j" "j < oc" "valid_field hc f" for j f
  proof (rule f1, intro allI impI)
    fix h assume "0 \<le> h \<and> h < hc"
    with cell_addr_inj [OF wf vo [OF that] vh, of h]
    show "cell_addr nn OUTPUT j f \<noteq> cell_addr nn HIDDEN h Output" by auto
  qed
  have res: "node_result ?nn1 ic hc oc OUTPUT j =
      activation nn OUTPUT (cell_val nn OUTPUT j Bias +
        (\<Sum>h = 0..<hc. node_result nn ic hc oc HIDDEN h * cell_val nn OUTPUT j (Weight h)))"
    if j: "0 \<le> j" "j < oc" for j
  proof -
    have b: "cell_val ?nn1 OUTPUT j Bias = cell_val nn OUTPUT j Bias"
      using keep1 [OF j, of Bias] by (intro cell_val_frame) simp
    have "weighted_sum ?nn1 OUTPUT j 0 hc =
        (\<Sum>h = 0..<hc. node_result nn ic hc oc HIDDEN h * cell_val nn OUTPUT j (Weight h))"
      unfolding weighted_sum_def
    proof (rule sum.cong)
      fix h assume "h \<in> {0..<hc}"
      then have h: "0 \<le> h" "h < hc" by simp_all
      have "out_val ?nn1 (prev_layer OUTPUT) h = node_result nn ic hc oc HIDDEN h"
        using v1 [OF h] by (simp add: out_val_def dbl_def prev_layer_def)
      moreover have "cell_val ?nn1 OUTPUT j (Weight h) = cell_val nn OUTPUT j (Weight h)"
        using keep1 [OF j, of "Weight h"] h by (intro cell_val_frame) simp
      ultimately show "out_val ?nn1 (prev_layer OUTPUT) h * cell_val ?nn1 OUTPUT j (Weight h)
          = node_result nn ic hc oc HIDDEN h * cell_val nn OUTPUT j (Weight h)"
        by simp
    qed simp
    with b show ?thesis by (simp add: node_result_def)
  qed
  have run: "feedForwardNetwork nn = Some (nn\<lparr>layers := m2\<rparr>)"
    using c1 c2 by (simp add: feedForwardNetwork_def)
  have hid: "m2 (cell_addr nn HIDDEN h Output) = Some (DblCell (node_result nn ic hc oc HIDDEN h))"
    if h: "0 \<le> h" "h < hc" for h
  proof -
    have "\<forall>j. 0 \<le> j \<and> j < oc \<longrightarrow> cell_addr nn HIDDEN h Output \<noteq> cell_addr nn OUTPUT j Output"
    proof (intro allI impI)
      fix j assume "0 \<le> j \<and> j < oc"
      with cell_addr_inj [OF wf vh [OF h] vo, of j Output]
      show "cell_addr nn HIDDEN h Output \<noteq> cell_addr nn OUTPUT j Output" by auto
    qed
    with f2 [of "cell_addr nn HIDDEN h Output"] v1 [OF h] show ?thesis by simp
  qed
  have outp: "m2 (cell_addr nn OUTPUT j Output) =
      Some (DblCell (activation nn OUTPUT (cell_val nn OUTPUT j Bias +
        (\<Sum>h = 0..<hc. node_result nn ic hc oc HIDDEN h * cell_val nn OUTPUT j (Weight h)))))"
    if "0 \<le> j" "j < oc" for j
    using v2 [OF that] res [OF that] by simp
  have frame: "m2 a = layers nn a"
    if "(\<forall>h. 0 \<le> h \<and> h < hc \<longrightarrow> a \<noteq> cell_addr nn HIDDEN h Output) \<and>
        (\<forall>j. 0 \<le> j \<and> j < oc \<longrightarrow> a \<noteq> cell_addr nn OUTPUT j Output)" for a
    using f1 [of a] f2 [of a] that by simp
  have sl: "same_layout (layers nn) m2"
    using s1 s2 by (rule same_layout_trans)
  from run hid outp frame sl show ?thesis by blast
qed

text \<open>
  C3: in a well-formed network, for every node \<open>j\<close> of the hidden or the output layer,
  calcNodeOutput returns and leaves in the node's output its bias plus the sum, over every
  node \<open>i\<close> of the previous layer, of that node's output times weight \<open>i\<close>; the previous
  layer of HIDDEN is INPUT and that of OUTPUT is HIDDEN.  feedForwardNetwork runs calcLayer
  on the hidden layer and then, on the resulting state, on the output layer: afterwards
  every hidden node holds its activated weighted sum of the input outputs, and every output
  node holds its activated weighted sum of these new hidden outputs.
\<close>

lemma sum_int_1: "(\<Sum>i = 0..<1::int. f i) = (f 0 :: real)"
proof -
  have "{0..<1::int} = {0}" by auto
  then show ?thesis by simp
qed

theorem calcNodeOutput_feedForwardNetwork:
  assumes "wf_network nn ic hc oc"
  shows "(\<forall>ltype j. ltype \<noteq> INPUT \<and> 0 \<le> j \<and> j < ncount_of ic hc oc ltype \<longrightarrow>
            (\<exists>nn'. calcNodeOutput nn ltype j = Some nn' \<and>
               read_dbl (layers nn') (output_at (node_addr nn ltype j)) =
                 Some (cell_val nn ltype j Bias +
                       (\<Sum>i = 0..<ncount_of ic hc oc (prev_layer ltype).
                          out_val nn (prev_layer ltype) i * cell_val nn ltype j (Weight i))))) \<and>
         prev_layer HIDDEN = INPUT \<and> prev_layer OUTPUT = HIDDEN \<and>
         feedForwardNetwork nn = Option.bind (calcLayer nn HIDDEN) (\<lambda>nn1. calcLayer nn1 OUTPUT) \<and>
         (\<exists>nn'. feedForwardNetwork nn = Some nn' \<and>
            (\<forall>h. 0 \<le> h \<and> h < hc \<longrightarrow>
               out_val nn' HIDDEN h =
                 activation nn HIDDEN (cell_val nn HIDDEN h Bias +
                   (\<Sum>i = 0..<ic. out_val nn INPUT i * cell_val nn HIDDEN h (Weight i)))) \<and>
            (\<forall>j. 0 \<le> j \<and> j < oc \<longrightarrow>
               out_val nn' OUTPUT j =
                 activation nn OUTPUT (cell_val nn OUTPUT j Bias +
                   (\<Sum>h = 0..<hc. out_val nn' HIDDEN h * cell_val nn OUTPUT j (Weight h)))))"
proof -
  have calc: "\<exists>nn'. calcNodeOutput nn ltype j = Some nn' \<and>
               read_dbl (layers nn') (output_at (node_addr nn ltype j)) =
                 Some (cell_val nn ltype j Bias +
                       (\<Sum>i = 0..<ncount_of ic hc oc (prev_layer ltype).
                          out_val nn (prev_layer ltype) i * cell_val nn ltype j (Weight i)))"
    if "ltype \<noteq> INPUT \<and> 0 \<le> j \<and> j < ncount_of ic hc oc ltype" for ltype j
  proof -
    from that calcNodeOutput_spec [OF assms, of ltype j] obtain m' where
      "calcNodeOutput nn ltype j = Some (nn\<lparr>layers := m'\<rparr>)"
      "m' (cell_addr nn ltype j Output) =
         Some (DblCell (cell_val nn ltype j Bias + weighted_sum nn ltype j 0 (wcount_of ic hc oc ltype)))"
      by blast
    with that show ?thesis
      by (simp add: read_dbl_def cell_addr_def weighted_sum_def wcount_is_prev_ncount)
  qed
  from feedForwardNetwork_spec [OF assms] obtain m' where
    run: "feedForwardNetwork nn = Some (nn\<lparr>layers := m'\<rparr>)" and
    hid: "\<And>h. 0 \<le> h \<Longrightarrow> h < hc \<Longrightarrow>
            m' (cell_addr nn HIDDEN h Output) = Some (DblCell (node_result nn ic hc oc HIDDEN h))" and
    outp: "\<And>j. 0 \<le> j \<Longrightarrow> j < oc \<Longrightarrow>
            m' (cell_addr nn OUTPUT j Output) =
                Some (DblCell (activation nn OUTPUT
                  (cell_val nn OUTPUT j Bias +
                   (\<Sum>h = 0..<hc. node_result nn ic hc oc HIDDEN h * cell_val nn OUTPUT j (Weight h)))))"
    by blast
  let ?nn' = "nn\<lparr>layers := m'\<rparr>"
  have h': "out_val ?nn' HIDDEN h = node_result nn ic hc oc HIDDEN h" if "0 \<le> h" "h < hc" for h
    using hid [OF that] by (simp add: out_val_def dbl_def)
  have h'': "out_val ?nn' HIDDEN h =
                 activation nn HIDDEN (cell_val nn HIDDEN h Bias +
                   (\<Sum>i = 0..<ic. out_val nn INPUT i * cell_val nn HIDDEN h (Weight i)))"
    if "0 \<le> h" "h < hc" for h
    using h' [OF that] by (simp add: node_result_def weighted_sum_def prev_layer_def)
  have o': "out_val ?nn' OUTPUT j =
                 activation nn OUTPUT (cell_val nn OUTPUT j Bias +
                   (\<Sum>h = 0..<hc. out_val ?nn' HIDDEN h * cell_val nn OUTPUT j (Weight h)))"
    if "0 \<le> j" "j < oc" for j
  proof -
    have "(\<Sum>h = 0..<hc. out_val ?nn' HIDDEN h * cell_val nn OUTPUT j (Weight h))
        = (\<Sum>h = 0..<hc. node_result nn ic hc oc HIDDEN h * cell_val nn OUTPUT j (Weight h))"
      by (rule sum.cong) (simp_all add: h')
    with outp [OF that] show ?thesis by (simp add: out_val_def dbl_def)
  qed
  have ff: "\<exists>nn'. feedForwardNetwork nn = Some nn' \<and>
            (\<forall>h. 0 \<le> h \<and> h < hc \<longrightarrow>
               out_val nn' HIDDEN h =
                 activation nn HIDDEN (cell_val nn HIDDEN h Bias +
                   (\<Sum>i = 0..<ic. out_val nn INPUT i * cell_val nn HIDDEN h (Weight i)))) \<and>
            (\<forall>j. 0 \<le> j \<and> j < oc \<longrightarrow>
               out_val nn' OUTPUT j =
                 activation nn OUTPUT (cell_val nn OUTPUT j Bias +
                   (\<Sum>h = 0..<hc. out_val nn' HIDDEN h * cell_val nn OUTPUT j (Weight h))))"
    using run h'' o' by (intro exI [of _ ?nn']) simp
  have ord: "feedForwardNetwork nn = Option.bind (calcLayer nn HIDDEN) (\<lambda>nn1. calcLayer nn1 OUTPUT)"
    by (simp add: feedForwardNetwork_def)
  from calc ff ord show ?thesis
    by (simp add: prev_layer_def)
qed

theorem calcNodeOutput_feedForwardNetwork_witness:
  "wf_network (example_net 0 0) 1 1 2 \<and>
   (\<exists>nn'. calcNodeOutput (example_net 0 0) OUTPUT 0 = Some nn' \<and>
      read_dbl (layers nn') 88 = Some (1/2)) \<and>
   (\<exists>nn'. feedForwardNetwork (example_net 0 0) = Some nn' \<and>
      out_val nn' HIDDEN 0 = 1 / (1 + exp (- 1)) \<and>
      out_val nn' OUTPUT 0 = 1 / (1 + exp (- out_val nn' HIDDEN 0)) \<and>
      out_val nn' OUTPUT 1 = 1 / 2)"
proof -
  let ?nn = "example_net 0 0"
  have w: "wf_network ?nn 1 1 2" by (rule wf_example_net)
  note main = calcNodeOutput_feedForwardNetwork [OF w]
  have v: "cell_val ?nn OUTPUT 0 Bias = 0" "cell_val ?nn OUTPUT 0 (Weight 0) = 1"
    "cell_val ?nn OUTPUT 1 Bias = 0" "cell_val ?nn OUTPUT 1 (Weight 0) = 0"
    "cell_val ?nn HIDDEN 0 Bias = 0" "cell_val ?nn HIDDEN 0 (Weight 0) = 1"
    "out_val ?nn HIDDEN 0 = 1/2" "out_val ?nn INPUT 0 = 1"
    "node_addr ?nn OUTPUT 0 = 80"
    by (simp_all add: cell_val_def out_val_def dbl_def cell_addr_def node_addr_def
        example_net_def fields sizes)
  have act: "activation ?nn lt x = 1 / (1 + exp (- x))" for lt x
    by (simp add: activation_def example_net_def)
  have "\<exists>nn'. calcNodeOutput ?nn OUTPUT 0 = Some nn' \<and>
               read_dbl (layers nn') (output_at (node_addr ?nn OUTPUT 0)) =
                 Some (cell_val ?nn OUTPUT 0 Bias +
                       (\<Sum>i = 0..<ncount_of 1 1 2 (prev_layer OUTPUT).
                          out_val ?nn (prev_layer OUTPUT) i * cell_val ?nn OUTPUT 0 (Weight i)))"
    using main [THEN conjunct1, rule_format, of OUTPUT 0] by simp
  then have c: "\<exists>nn'. calcNodeOutput ?nn OUTPUT 0 = Some nn' \<and> read_dbl (layers nn') 88 = Some (1/2)"
    by (simp add: prev_layer_def sum_int_1 v output_at_def)
  from main obtain nn' where
    run: "feedForwardNetwork ?nn = Some nn'" and
    hid: "\<And>h. 0 \<le> h \<and> h < 1 \<Longrightarrow>
               out_val nn' HIDDEN h =
                 activation ?nn HIDDEN (cell_val ?nn HIDDEN h Bias +
                   (\<Sum>i = 0..<1. out_val ?nn INPUT i * cell_val ?nn HIDDEN h (Weight i)))" and
    outp: "\<And>j. 0 \<le> j \<and> j < 2 \<Longrightarrow>
               out_val nn' OUTPUT j =
                 activation ?nn OUTPUT (cell_val ?nn OUTPUT j Bias +
                   (\<Sum>h = 0..<1. out_val nn' HIDDEN h * cell_val ?nn OUTPUT j (Weight h)))"
    by blast
  have "out_val nn' HIDDEN 0 = 1 / (1 + exp (- 1))"
    using hid [of 0] by (simp add: sum_int_1 v act)
  moreover have "out_val nn' OUTPUT 0 = 1 / (1 + exp (- out_val nn' HIDDEN 0))"
    using outp [of 0] by (simp add: sum_int_1 v act)
  moreover have "out_val nn' OUTPUT 1 = 1 / 2"
    using outp [of 1] by (simp add: sum_int_1 v act)
  ultimately show ?thesis using w c run by blast
qed


section \<open>Backpropagation (C1)\<close>

text \<open>
  \<open>error_signal nn t j\<close> is the error signal of output node \<open>j\<close> for the target \<open>t\<close>, as both
  backPropagateOutputLayer and backPropagateHiddenLayer compute it from the node's output.
  \<open>error_sum nn t h i n\<close> is the sum, over the output nodes \<open>j\<close> from \<open>i\<close> up to \<open>n\<close>, of the
  error signal of \<open>j\<close> times weight \<open>h\<close> of \<open>j\<close>, and \<open>hidden_error_signal\<close> the error signal
  of hidden node \<open>h\<close>; all three read the state \<open>nn\<close> they are given.
\<close>

definition error_signal :: "Network \<Rightarrow> int \<Rightarrow> int \<Rightarrow> real" where
  "error_signal nn targetClassification j =
     (real_of_int (if j = targetClassification then 1 else 0) - out_val nn OUTPUT j)
       * getActFctDerivative nn OUTPUT (out_val nn OUTPUT j)"

definition error_sum :: "Network \<Rightarrow> int \<Rightarrow> int \<Rightarrow> int \<Rightarrow> int \<Rightarrow> real" where
  "error_sum nn targetClassification h i n =
     (\<Sum>j = i..<n. error_signal nn targetClassification j * cell_val nn OUTPUT j (Weight h))"

definition hidden_error_signal :: "Network \<Rightarrow> int \<Rightarrow> int \<Rightarrow> int \<Rightarrow> real" where
  "hidden_error_signal nn oc targetClassification h =
     error_sum nn targetClassification h 0 oc * getActFctDerivative nn HIDDEN (out_val nn HIDDEN h)"

lemma getActFctDerivative_layers_update [simp]:
  "getActFctDerivative (nn\<lparr>layers := m\<rparr>) lt x = getActFctDerivative nn lt x"
  by (simp add: getActFctDerivative_def)

lemma out_val_frame:
  "m' (cell_addr nn lt j Output) = layers nn (cell_addr nn lt j Output) \<Longrightarrow>
   out_val (nn\<lparr>layers := m'\<rparr>) lt j = out_val nn lt j"
  by (simp add: out_val_def dbl_def)

lemma error_signal_frame:
  "m' (cell_addr nn OUTPUT j Output) = layers nn (cell_addr nn OUTPUT j Output) \<Longrightarrow>
   error_signal (nn\<lparr>layers := m'\<rparr>) t j = error_signal nn t j"
  by (simp add: error_signal_def out_val_frame)

lemma error_sum_head:
  "i < n \<Longrightarrow> error_sum nn t h i n =
     error_signal nn t i * cell_val nn OUTPUT i (Weight h) + error_sum nn t h (i + 1) n"
  unfolding error_sum_def by (rule sum_int_head)

lemma error_sum_empty: "n \<le> i \<Longrightarrow> error_sum nn t h i n = 0"
  by (simp add: error_sum_def)

lemma backPropagateHiddenLayer_sum_spec:
  assumes "wf_network nn ic hc oc" and "0 \<le> h" and "h < hc" and "0 \<le> i"
  shows "backPropagateHiddenLayer_sum nn (layer_at nn OUTPUT) h t i acc
           = Some (acc + error_sum nn t h i oc)"
  using assms(4)
proof (induction "nat (oc - i)" arbitrary: i acc)
  case 0
  then have "\<not> i < oc" "oc \<le> i" by simp_all
  then show ?case
    using wf_ncount [OF assms(1), of OUTPUT]
    by (subst backPropagateHiddenLayer_sum.simps) (simp add: error_sum_empty)
next
  case (Suc n)
  then have lt: "i < oc" by linarith
  have vw: "valid_cell ic hc oc OUTPUT i (Weight h)"
    using assms(2,3) Suc.prems lt by (simp add: valid_cell_def)
  have rdw: "read_dbl (layers nn) (weights_at (node_addr nn OUTPUT i) h)
               = Some (cell_val nn OUTPUT i (Weight h))"
    using is_dbl_read [OF wf_cell_is_dbl [OF assms(1) vw]]
    by (simp add: cell_addr_def cell_val_def)
  have rdo: "read_dbl (layers nn) (output_at (node_addr nn OUTPUT i)) = Some (out_val nn OUTPUT i)"
    using wf_read_output [OF assms(1), of i OUTPUT] Suc.prems lt by simp
  have n: "n = nat (oc - (i + 1))" and i1: "0 \<le> i + 1"
    using Suc.hyps(2) Suc.prems by linarith+
  have "backPropagateHiddenLayer_sum nn (layer_at nn OUTPUT) h t i acc =
        backPropagateHiddenLayer_sum nn (layer_at nn OUTPUT) h t (i + 1)
          (acc + error_signal nn t i * cell_val nn OUTPUT i (Weight h))"
    using wf_ncount [OF assms(1), of OUTPUT] wf_getNode [OF assms(1), of i OUTPUT] Suc.prems lt rdw rdo
    by (subst backPropagateHiddenLayer_sum.simps) (simp add: error_signal_def Let_def)
  also have "\<dots> = Some (acc + error_signal nn t i * cell_val nn OUTPUT i (Weight h)
                        + error_sum nn t h (i + 1) oc)"
    by (rule Suc.hyps(1) [OF n i1])
  finally show ?case
    using error_sum_head [OF lt, of nn t h] by simp
qed

text \<open>The frame of a run that changes biases and weights of the nodes from \<open>i\<close> on of
  one layer only.\<close>

definition params_frame :: "Network \<Rightarrow> int \<Rightarrow> int \<Rightarrow> int \<Rightarrow> LayerType \<Rightarrow> int \<Rightarrow> memory \<Rightarrow> bool" where
  "params_frame nn ic hc oc ltype i m' \<longleftrightarrow>
     (\<forall>a. (\<forall>j. i \<le> j \<and> j < ncount_of ic hc oc ltype \<longrightarrow>
             a \<noteq> cell_addr nn ltype j Bias \<and>
             (\<forall>k. 0 \<le> k \<and> k < wcount_of ic hc oc ltype \<longrightarrow> a \<noteq> cell_addr nn ltype j (Weight k)))
          \<longrightarrow> m' a = layers nn a)"

lemma params_frame_keep:
  assumes wf: "wf_network nn ic hc oc" and pf: "params_frame nn ic hc oc lt i m'" and i: "0 \<le> i"
    and v: "valid_cell ic hc oc lt' j f" and d: "lt' \<noteq> lt \<or> j < i \<or> f = Output \<or> f = Wcount"
  shows "m' (cell_addr nn lt' j f) = layers nn (cell_addr nn lt' j f)"
proof -
  have "cell_addr nn lt' j f \<noteq> cell_addr nn lt j' Bias \<and>
        (\<forall>k. 0 \<le> k \<and> k < wcount_of ic hc oc lt \<longrightarrow> cell_addr nn lt' j f \<noteq> cell_addr nn lt j' (Weight k))"
    if j': "i \<le> j'" "j' < ncount_of ic hc oc lt" for j'
  proof (intro conjI allI impI)
    have vb: "valid_cell ic hc oc lt j' Bias" using j' i by (simp add: valid_cell_def)
    from cell_addr_inj [OF wf v vb] d j'
    show "cell_addr nn lt' j f \<noteq> cell_addr nn lt j' Bias" by auto
  next
    fix k assume k: "0 \<le> k \<and> k < wcount_of ic hc oc lt"
    then have vw: "valid_cell ic hc oc lt j' (Weight k)" using j' i by (simp add: valid_cell_def)
    from cell_addr_inj [OF wf v vw] d j'
    show "cell_addr nn lt' j f \<noteq> cell_addr nn lt j' (Weight k)" by auto
  qed
  with pf show ?thesis
    unfolding params_frame_def by blast
qed

lemma params_frame_ncount:
  assumes wf: "wf_network nn ic hc oc" and pf: "params_frame nn ic hc oc lt i m'" and i: "0 \<le> i"
  shows "m' (ncount_at (layer_at nn lt')) = layers nn (ncount_at (layer_at nn lt'))"
proof -
  have "ncount_at (layer_at nn lt') \<noteq> cell_addr nn lt j' Bias \<and>
        (\<forall>k. 0 \<le> k \<and> k < wcount_of ic hc oc lt \<longrightarrow>
           ncount_at (layer_at nn lt') \<noteq> cell_addr nn lt j' (Weight k))"
    if j': "i \<le> j'" "j' < ncount_of ic hc oc lt" for j'
  proof (intro conjI allI impI)
    have vb: "valid_cell ic hc oc lt j' Bias" using j' i by (simp add: valid_cell_def)
    from cell_addr_not_ncount [OF wf vb, of lt']
    show "ncount_at (layer_at nn lt') \<noteq> cell_addr nn lt j' Bias" by auto
  next
    fix k assume k: "0 \<le> k \<and> k < wcount_of ic hc oc lt"
    then have vw: "valid_cell ic hc oc lt j' (Weight k)" using j' i by (simp add: valid_cell_def)
    from cell_addr_not_ncount [OF wf vw, of lt']
    show "ncount_at (layer_at nn lt') \<noteq> cell_addr nn lt j' (Weight k)" by auto
  qed
  with pf show ?thesis
    unfolding params_frame_def by blast
qed

text \<open>The result of updating the nodes from \<open>i\<close> on of a layer, node \<open>j\<close> with the error
  signal \<open>sig j\<close>.\<close>

definition params_updated ::
  "Network \<Rightarrow> int \<Rightarrow> int \<Rightarrow> int \<Rightarrow> LayerType \<Rightarrow> int \<Rightarrow> (int \<Rightarrow> real) \<Rightarrow> memory \<Rightarrow> bool" where
  "params_updated nn ic hc oc ltype i sig m' \<longleftrightarrow>
     (\<forall>j k. i \<le> j \<and> j < ncount_of ic hc oc ltype \<and> 0 \<le> k \<and> k < wcount_of ic hc oc ltype \<longrightarrow>
        m' (cell_addr nn ltype j (Weight k)) =
          Some (DblCell (cell_val nn ltype j (Weight k) +
                         learningRate nn * out_val nn (prev_layer ltype) k * sig j))) \<and>
     (\<forall>j. i \<le> j \<and> j < ncount_of ic hc oc ltype \<longrightarrow>
        m' (cell_addr nn ltype j Bias) =
          Some (DblCell (cell_val nn ltype j Bias + learningRate nn * 1 * sig j))) \<and>
     params_frame nn ic hc oc ltype i m'"

lemma params_updated_same_layout:
  assumes wf: "wf_network nn ic hc oc" and i: "0 \<le> i"
    and pu: "params_updated nn ic hc oc lt i sig m'"
  shows "same_layout (layers nn) m'"
proof (rule same_layout_frame [where W = "{a. \<exists>j. i \<le> j \<and> j < ncount_of ic hc oc lt \<and>
      (a = cell_addr nn lt j Bias \<or>
       (\<exists>k. 0 \<le> k \<and> k < wcount_of ic hc oc lt \<and> a = cell_addr nn lt j (Weight k)))}"])
  fix a
  assume "a \<notin> {a. \<exists>j. i \<le> j \<and> j < ncount_of ic hc oc lt \<and>
      (a = cell_addr nn lt j Bias \<or>
       (\<exists>k. 0 \<le> k \<and> k < wcount_of ic hc oc lt \<and> a = cell_addr nn lt j (Weight k)))}"
  then have "\<forall>j. i \<le> j \<and> j < ncount_of ic hc oc lt \<longrightarrow>
             a \<noteq> cell_addr nn lt j Bias \<and>
             (\<forall>k. 0 \<le> k \<and> k < wcount_of ic hc oc lt \<longrightarrow> a \<noteq> cell_addr nn lt j (Weight k))"
    by auto
  with pu show "m' a = layers nn a"
    unfolding params_updated_def params_frame_def by blast
next
  fix a
  assume "a \<in> {a. \<exists>j. i \<le> j \<and> j < ncount_of ic hc oc lt \<and>
      (a = cell_addr nn lt j Bias \<or>
       (\<exists>k. 0 \<le> k \<and> k < wcount_of ic hc oc lt \<and> a = cell_addr nn lt j (Weight k)))}"
  then obtain j where j: "i \<le> j" "j < ncount_of ic hc oc lt"
    and a: "a = cell_addr nn lt j Bias \<or>
       (\<exists>k. 0 \<le> k \<and> k < wcount_of ic hc oc lt \<and> a = cell_addr nn lt j (Weight k))"
    by blast
  from a show "is_dbl (layers nn) a \<and> is_dbl m' a"
  proof
    assume a: "a = cell_addr nn lt j Bias"
    have "is_dbl (layers nn) a"
      using wf_cell_is_dbl [OF wf, of lt j Bias] j i a by (simp add: valid_cell_def)
    moreover have "is_dbl m' a"
      using pu j a unfolding params_updated_def by (simp add: is_dbl_def)
    ultimately show ?thesis ..
  next
    assume "\<exists>k. 0 \<le> k \<and> k < wcount_of ic hc oc lt \<and> a = cell_addr nn lt j (Weight k)"
    then obtain k where k: "0 \<le> k" "k < wcount_of ic hc oc lt" and a: "a = cell_addr nn lt j (Weight k)"
      by blast
    have "is_dbl (layers nn) a"
      using wf_cell_is_dbl [OF wf, of lt j "Weight k"] j i k a by (simp add: valid_cell_def)
    moreover have "is_dbl m' a"
      using pu j k a unfolding params_updated_def by (simp add: is_dbl_def)
    ultimately show ?thesis ..
  qed
qed

text \<open>One more node at the front: node \<open>i\<close> is updated in \<open>nn\<close>, giving the store \<open>m1\<close>, and
  the nodes from \<open>i + 1\<close> on are updated in the resulting network, with signals that do not
  depend on what the update of node \<open>i\<close> changed.\<close>

lemma params_updated_step:
  assumes wf: "wf_network nn ic hc oc" and i: "0 \<le> i" "i < ncount_of ic hc oc lt"
    and w1: "\<And>k. 0 \<le> k \<Longrightarrow> k < wcount_of ic hc oc lt \<Longrightarrow>
              m1 (cell_addr nn lt i (Weight k)) =
                Some (DblCell (cell_val nn lt i (Weight k) +
                               learningRate nn * out_val nn (prev_layer lt) k * sig i))"
    and b1: "m1 (cell_addr nn lt i Bias) =
                Some (DblCell (cell_val nn lt i Bias + learningRate nn * 1 * sig i))"
    and f1: "\<And>a. a \<noteq> cell_addr nn lt i Bias \<and>
                (\<forall>k. 0 \<le> k \<and> k < wcount_of ic hc oc lt \<longrightarrow> a \<noteq> cell_addr nn lt i (Weight k)) \<Longrightarrow>
              m1 a = layers nn a"
    and rest: "params_updated (nn\<lparr>layers := m1\<rparr>) ic hc oc lt (i + 1) sig m'"
  shows "params_updated nn ic hc oc lt i sig m'"
proof -
  let ?nc = "ncount_of ic hc oc lt" and ?wc = "wcount_of ic hc oc lt"
  let ?nn1 = "nn\<lparr>layers := m1\<rparr>"
  have pf1: "params_frame nn ic hc oc lt i m1"
    unfolding params_frame_def using f1 i by (metis order_refl)
  have keep1: "m1 (cell_addr nn lt' j f) = layers nn (cell_addr nn lt' j f)"
    if "valid_cell ic hc oc lt' j f" "lt' \<noteq> lt \<or> j \<noteq> i \<or> f = Output \<or> f = Wcount" for lt' j f
  proof (rule f1, intro conjI allI impI)
    have vb: "valid_cell ic hc oc lt i Bias" using i by (simp add: valid_cell_def)
    from cell_addr_inj [OF wf that(1) vb] that(2)
    show "cell_addr nn lt' j f \<noteq> cell_addr nn lt i Bias" by auto
  next
    fix k assume "0 \<le> k \<and> k < ?wc"
    then have vw: "valid_cell ic hc oc lt i (Weight k)" using i by (simp add: valid_cell_def)
    from cell_addr_inj [OF wf that(1) vw] that(2)
    show "cell_addr nn lt' j f \<noteq> cell_addr nn lt i (Weight k)" by auto
  qed
  from rest have
    w2: "\<And>j k. i + 1 \<le> j \<Longrightarrow> j < ?nc \<Longrightarrow> 0 \<le> k \<Longrightarrow> k < ?wc \<Longrightarrow>
           m' (cell_addr nn lt j (Weight k)) =
             Some (DblCell (cell_val ?nn1 lt j (Weight k) +
                            learningRate nn * out_val ?nn1 (prev_layer lt) k * sig j))" and
    b2: "\<And>j. i + 1 \<le> j \<Longrightarrow> j < ?nc \<Longrightarrow>
           m' (cell_addr nn lt j Bias) =
             Some (DblCell (cell_val ?nn1 lt j Bias + learningRate nn * 1 * sig j))" and
    f2: "\<And>a. (\<forall>j. i + 1 \<le> j \<and> j < ?nc \<longrightarrow> a \<noteq> cell_addr nn lt j Bias \<and>
             (\<forall>k. 0 \<le> k \<and> k < ?wc \<longrightarrow> a \<noteq> cell_addr nn lt j (Weight k))) \<Longrightarrow> m' a = m1 a"
    unfolding params_updated_def params_frame_def by simp_all
  have keep2: "m' (cell_addr nn lt i f) = m1 (cell_addr nn lt i f)"
    if "valid_field ?wc f" for f
  proof (rule f2, intro conjI allI impI)
    fix j assume j: "i + 1 \<le> j \<and> j < ?nc"
    have v: "valid_cell ic hc oc lt i f" using i that by (simp add: valid_cell_def)
    have vb: "valid_cell ic hc oc lt j Bias" using j i by (simp add: valid_cell_def)
    from cell_addr_inj [OF wf v vb] j
    show "cell_addr nn lt i f \<noteq> cell_addr nn lt j Bias" by auto
    fix k assume "0 \<le> k \<and> k < ?wc"
    then have vw: "valid_cell ic hc oc lt j (Weight k)" using j i by (simp add: valid_cell_def)
    from cell_addr_inj [OF wf v vw] j
    show "cell_addr nn lt i f \<noteq> cell_addr nn lt j (Weight k)" by auto
  qed
  have W: "m' (cell_addr nn lt j (Weight k)) =
      Some (DblCell (cell_val nn lt j (Weight k) + learningRate nn * out_val nn (prev_layer lt) k * sig j))"
    if j: "i \<le> j" "j < ?nc" and k: "0 \<le> k" "k < ?wc" for j k
  proof (cases "j = i")
    case True
    with keep2 [of "Weight k"] w1 [OF k] k show ?thesis by simp
  next
    case False
    with j have j1: "i + 1 \<le> j" by simp
    have "cell_val ?nn1 lt j (Weight k) = cell_val nn lt j (Weight k)"
      using keep1 [of lt j "Weight k"] j k i False
      by (intro cell_val_frame) (simp add: valid_cell_def)
    moreover have "out_val ?nn1 (prev_layer lt) k = out_val nn (prev_layer lt) k"
      using keep1 [of "prev_layer lt" k Output] k wcount_prev [of k ic hc oc lt]
      by (intro out_val_frame) (simp add: valid_cell_def)
    ultimately show ?thesis using w2 [OF j1 j(2) k] by simp
  qed
  have B: "m' (cell_addr nn lt j Bias) =
      Some (DblCell (cell_val nn lt j Bias + learningRate nn * 1 * sig j))"
    if j: "i \<le> j" "j < ?nc" for j
  proof (cases "j = i")
    case True
    with keep2 [of Bias] b1 show ?thesis by simp
  next
    case False
    with j have j1: "i + 1 \<le> j" by simp
    have "cell_val ?nn1 lt j Bias = cell_val nn lt j Bias"
      using keep1 [of lt j Bias] j i False
      by (intro cell_val_frame) (simp add: valid_cell_def)
    then show ?thesis using b2 [OF j1 j(2)] by simp
  qed
  have F: "params_frame nn ic hc oc lt i m'"
    unfolding params_frame_def
  proof (intro allI impI)
    fix a
    assume a: "\<forall>j. i \<le> j \<and> j < ?nc \<longrightarrow> a \<noteq> cell_addr nn lt j Bias \<and>
             (\<forall>k. 0 \<le> k \<and> k < ?wc \<longrightarrow> a \<noteq> cell_addr nn lt j (Weight k))"
    then have "m' a = m1 a" by (intro f2) auto
    moreover have "m1 a = layers nn a" using a i by (intro f1) auto
    ultimately show "m' a = layers nn a" by simp
  qed
  from W B F show ?thesis
    unfolding params_updated_def by blast
qed

lemma params_updated_cong:
  assumes "\<And>j. i \<le> j \<Longrightarrow> j < ncount_of ic hc oc lt \<Longrightarrow> sig j = sig' j"
  shows "params_updated nn ic hc oc lt i sig m' = params_updated nn ic hc oc lt i sig' m'"
  unfolding params_updated_def using assms by auto

lemma params_updated_empty:
  "ncount_of ic hc oc lt \<le> i \<Longrightarrow> params_updated nn ic hc oc lt i sig (layers nn)"
  by (auto simp: params_updated_def params_frame_def)

lemma backPropagateOutputLayer_loop_spec:
  assumes "wf_network nn ic hc oc" and "0 \<le> i"
  shows "\<exists>m'. backPropagateOutputLayer_loop nn (layer_at nn OUTPUT) t i = Some (nn\<lparr>layers := m'\<rparr>) \<and>
           params_updated nn ic hc oc OUTPUT i (error_signal nn t) m'"
  using assms
proof (induction "nat (oc - i)" arbitrary: nn i)
  case 0
  then have "\<not> i < oc" by simp
  then show ?case
    using wf_ncount [OF "0.prems"(1), of OUTPUT] params_updated_empty [of ic hc oc OUTPUT i nn]
    by (subst backPropagateOutputLayer_loop.simps) (auto intro!: exI [of _ "layers nn"])
next
  case (Suc n)
  then have lt: "i < oc" by linarith
  note wf = Suc.prems(1) and i0 = Suc.prems(2)
  let ?e = "error_signal nn t i"
  from updateNodeWeights_spec [OF wf, of i OUTPUT ?e] i0 lt obtain m1 where
    u: "updateNodeWeights nn OUTPUT i ?e = Some (nn\<lparr>layers := m1\<rparr>)" and
    w1: "\<And>k. 0 \<le> k \<Longrightarrow> k < wcount_of ic hc oc OUTPUT \<Longrightarrow>
           m1 (cell_addr nn OUTPUT i (Weight k)) =
             Some (DblCell (cell_val nn OUTPUT i (Weight k) +
                            learningRate nn * out_val nn (prev_layer OUTPUT) k * ?e))" and
    b1: "m1 (cell_addr nn OUTPUT i Bias) =
             Some (DblCell (cell_val nn OUTPUT i Bias + learningRate nn * 1 * ?e))" and
    f1: "\<And>a. a \<noteq> cell_addr nn OUTPUT i Bias \<and>
                (\<forall>k. 0 \<le> k \<and> k < wcount_of ic hc oc OUTPUT \<longrightarrow> a \<noteq> cell_addr nn OUTPUT i (Weight k)) \<Longrightarrow>
              m1 a = layers nn a" and
    s1: "same_layout (layers nn) m1"
    by auto
  let ?nn1 = "nn\<lparr>layers := m1\<rparr>"
  have wf1: "wf_network ?nn1 ic hc oc"
    by (rule wf_same_layout [OF wf s1])
  have n: "n = nat (oc - (i + 1))" and i1: "0 \<le> i + 1"
    using Suc.hyps(2) i0 by linarith+
  from Suc.hyps(1) [OF n wf1 i1] obtain m' where
    run: "backPropagateOutputLayer_loop ?nn1 (layer_at nn OUTPUT) t (i + 1) = Some (nn\<lparr>layers := m'\<rparr>)" and
    pu: "params_updated ?nn1 ic hc oc OUTPUT (i + 1) (error_signal ?nn1 t) m'"
    by auto
  have pf1: "params_frame nn ic hc oc OUTPUT i m1"
    unfolding params_frame_def using f1 i0 lt by (metis ncount_of.simps(3) order_refl)
  have sig: "error_signal ?nn1 t j = error_signal nn t j" if "i + 1 \<le> j" "j < oc" for j
    using params_frame_keep [OF wf pf1 i0, of OUTPUT j Output] that i0
    by (intro error_signal_frame) (simp add: valid_cell_def)
  have pu': "params_updated ?nn1 ic hc oc OUTPUT (i + 1) (error_signal nn t) m'"
    using pu params_updated_cong [of "i + 1" ic hc oc OUTPUT "error_signal ?nn1 t" "error_signal nn t" ?nn1 m'] sig
    by simp
  have res: "params_updated nn ic hc oc OUTPUT i (error_signal nn t) m'"
    using params_updated_step [OF wf, of i OUTPUT m1 "error_signal nn t" m'] i0 lt w1 b1 f1 pu'
    by simp
  have rdo: "read_dbl (layers nn) (output_at (node_addr nn OUTPUT i)) = Some (out_val nn OUTPUT i)"
    using wf_read_output [OF wf, of i OUTPUT] i0 lt by simp
  have step: "backPropagateOutputLayer_loop nn (layer_at nn OUTPUT) t i = Some (nn\<lparr>layers := m'\<rparr>)"
    using wf_ncount [OF wf, of OUTPUT] wf_getNode [OF wf, of i OUTPUT] i0 lt rdo u run
    by (subst backPropagateOutputLayer_loop.simps) (simp add: error_signal_def Let_def)
  from step res show ?case by blast
qed

lemma hidden_error_signal_frame:
  assumes out: "\<And>j. 0 \<le> j \<Longrightarrow> j < oc \<Longrightarrow>
                 m' (cell_addr nn OUTPUT j Output) = layers nn (cell_addr nn OUTPUT j Output)"
    and wgt: "\<And>j. 0 \<le> j \<Longrightarrow> j < oc \<Longrightarrow>
                 m' (cell_addr nn OUTPUT j (Weight h)) = layers nn (cell_addr nn OUTPUT j (Weight h))"
    and hid: "m' (cell_addr nn HIDDEN h Output) = layers nn (cell_addr nn HIDDEN h Output)"
  shows "hidden_error_signal (nn\<lparr>layers := m'\<rparr>) oc t h = hidden_error_signal nn oc t h"
proof -
  have "error_sum (nn\<lparr>layers := m'\<rparr>) t h 0 oc = error_sum nn t h 0 oc"
    unfolding error_sum_def
  proof (rule sum.cong)
    fix j assume "j \<in> {0..<oc}"
    then have j: "0 \<le> j" "j < oc" by simp_all
    show "error_signal (nn\<lparr>layers := m'\<rparr>) t j * cell_val (nn\<lparr>layers := m'\<rparr>) OUTPUT j (Weight h)
        = error_signal nn t j * cell_val nn OUTPUT j (Weight h)"
      using error_signal_frame [of m' nn j t, OF out [OF j]]
        cell_val_frame [of m' nn OUTPUT j "Weight h", OF wgt [OF j]]
      by simp
  qed simp
  then show ?thesis
    using out_val_frame [of m' nn HIDDEN h, OF hid] by (simp add: hidden_error_signal_def)
qed

lemma backPropagateHiddenLayer_loop_spec:
  assumes "wf_network nn ic hc oc" and "0 \<le> i"
  shows "\<exists>m'. backPropagateHiddenLayer_loop nn (layer_at nn OUTPUT) (layer_at nn HIDDEN) t i
                = Some (nn\<lparr>layers := m'\<rparr>) \<and>
           params_updated nn ic hc oc HIDDEN i (hidden_error_signal nn oc t) m'"
  using assms
proof (induction "nat (hc - i)" arbitrary: nn i)
  case 0
  then have "\<not> i < hc" by simp
  then show ?case
    using wf_ncount [OF "0.prems"(1), of HIDDEN] params_updated_empty [of ic hc oc HIDDEN i nn]
    by (subst backPropagateHiddenLayer_loop.simps) (auto intro!: exI [of _ "layers nn"])
next
  case (Suc n)
  then have lt: "i < hc" by linarith
  note wf = Suc.prems(1) and i0 = Suc.prems(2)
  let ?e = "hidden_error_signal nn oc t i"
  from updateNodeWeights_spec [OF wf, of i HIDDEN ?e] i0 lt obtain m1 where
    u: "updateNodeWeights nn HIDDEN i ?e = Some (nn\<lparr>layers := m1\<rparr>)" and
    w1: "\<And>k. 0 \<le> k \<Longrightarrow> k < wcount_of ic hc oc HIDDEN \<Longrightarrow>
           m1 (cell_addr nn HIDDEN i (Weight k)) =
             Some (DblCell (cell_val nn HIDDEN i (Weight k) +
                            learningRate nn * out_val nn (prev_layer HIDDEN) k * ?e))" and
    b1: "m1 (cell_addr nn HIDDEN i Bias) =
             Some (DblCell (cell_val nn HIDDEN i Bias + learningRate nn * 1 * ?e))" and
    f1: "\<And>a. a \<noteq> cell_addr nn HIDDEN i Bias \<and>
                (\<forall>k. 0 \<le> k \<and> k < wcount_of ic hc oc HIDDEN \<longrightarrow> a \<noteq> cell_addr nn HIDDEN i (Weight k)) \<Longrightarrow>
              m1 a = layers nn a" and
    s1: "same_layout (layers nn) m1"
    by auto
  let ?nn1 = "nn\<lparr>layers := m1\<rparr>"
  have wf1: "wf_network ?nn1 ic hc oc"
    by (rule wf_same_layout [OF wf s1])
  have n: "n = nat (hc - (i + 1))" and i1: "0 \<le> i + 1"
    using Suc.hyps(2) i0 by linarith+
  from Suc.hyps(1) [OF n wf1 i1] obtain m' where
    run: "backPropagateHiddenLayer_loop ?nn1 (layer_at nn OUTPUT) (layer_at nn HIDDEN) t (i + 1)
            = Some (nn\<lparr>layers := m'\<rparr>)" and
    pu: "params_updated ?nn1 ic hc oc HIDDEN (i + 1) (hidden_error_signal ?nn1 oc t) m'"
    by auto
  have pf1: "params_frame nn ic hc oc HIDDEN i m1"
    unfolding params_frame_def using f1 i0 lt by (metis ncount_of.simps(2) order_refl)
  have sig: "hidden_error_signal ?nn1 oc t h = hidden_error_signal nn oc t h"
    if "0 \<le> h" "h < hc" for h
  proof (rule hidden_error_signal_frame)
    fix j :: int assume j: "0 \<le> j" "j < oc"
    show "m1 (cell_addr nn OUTPUT j Output) = layers nn (cell_addr nn OUTPUT j Output)"
      using params_frame_keep [OF wf pf1 i0, of OUTPUT j Output] j by (simp add: valid_cell_def)
    show "m1 (cell_addr nn OUTPUT j (Weight h)) = layers nn (cell_addr nn OUTPUT j (Weight h))"
      using params_frame_keep [OF wf pf1 i0, of OUTPUT j "Weight h"] j that
      by (simp add: valid_cell_def)
  next
    show "m1 (cell_addr nn HIDDEN h Output) = layers nn (cell_addr nn HIDDEN h Output)"
      using params_frame_keep [OF wf pf1 i0, of HIDDEN h Output] that by (simp add: valid_cell_def)
  qed
  have pu': "params_updated ?nn1 ic hc oc HIDDEN (i + 1) (hidden_error_signal nn oc t) m'"
    using pu params_updated_cong [of "i + 1" ic hc oc HIDDEN "hidden_error_signal ?nn1 oc t"
        "hidden_error_signal nn oc t" ?nn1 m'] sig i0
    by simp
  have res: "params_updated nn ic hc oc HIDDEN i (hidden_error_signal nn oc t) m'"
    using params_updated_step [OF wf, of i HIDDEN m1 "hidden_error_signal nn oc t" m'] i0 lt w1 b1 f1 pu'
    by simp
  have rdo: "read_dbl (layers nn) (output_at (node_addr nn HIDDEN i)) = Some (out_val nn HIDDEN i)"
    using wf_read_output [OF wf, of i HIDDEN] i0 lt by simp
  have sum: "backPropagateHiddenLayer_sum nn (layer_at nn OUTPUT) i t 0 0 = Some (error_sum nn t i 0 oc)"
    using backPropagateHiddenLayer_sum_spec [OF wf i0 lt, of 0 t 0] by simp
  have step: "backPropagateHiddenLayer_loop nn (layer_at nn OUTPUT) (layer_at nn HIDDEN) t i
                = Some (nn\<lparr>layers := m'\<rparr>)"
    using wf_ncount [OF wf, of HIDDEN] wf_getNode [OF wf, of i HIDDEN] i0 lt rdo sum u run
    by (subst backPropagateHiddenLayer_loop.simps) (simp add: hidden_error_signal_def Let_def)
  from step res show ?case by blast
qed

lemma backPropagateNetwork_spec:
  assumes wf: "wf_network nn ic hc oc"
  shows "\<exists>m1 m2. backPropagateOutputLayer nn t = Some (nn\<lparr>layers := m1\<rparr>) \<and>
           backPropagateNetwork nn t = Some (nn\<lparr>layers := m2\<rparr>) \<and>
           params_updated nn ic hc oc OUTPUT 0 (error_signal nn t) m1 \<and>
           params_updated (nn\<lparr>layers := m1\<rparr>) ic hc oc HIDDEN 0
             (hidden_error_signal (nn\<lparr>layers := m1\<rparr>) oc t) m2 \<and>
           same_layout (layers nn) m1 \<and> same_layout m1 m2"
proof -
  from backPropagateOutputLayer_loop_spec [OF wf, of 0 t] obtain m1 where
    o: "backPropagateOutputLayer nn t = Some (nn\<lparr>layers := m1\<rparr>)" and
    p1: "params_updated nn ic hc oc OUTPUT 0 (error_signal nn t) m1"
    by (auto simp: backPropagateOutputLayer_def wf_getLayer [OF wf])
  let ?nn1 = "nn\<lparr>layers := m1\<rparr>"
  have s1: "same_layout (layers nn) m1"
    by (rule params_updated_same_layout [OF wf _ p1]) simp
  have wf1: "wf_network ?nn1 ic hc oc"
    by (rule wf_same_layout [OF wf s1])
  from backPropagateHiddenLayer_loop_spec [OF wf1, of 0 t] obtain m2 where
    h: "backPropagateHiddenLayer ?nn1 t = Some (nn\<lparr>layers := m2\<rparr>)" and
    p2: "params_updated ?nn1 ic hc oc HIDDEN 0 (hidden_error_signal ?nn1 oc t) m2"
    by (auto simp: backPropagateHiddenLayer_def wf_getLayer [OF wf])
  have s2: "same_layout m1 m2"
    using params_updated_same_layout [OF wf1 _ p2] by simp
  have "backPropagateNetwork nn t = Some (nn\<lparr>layers := m2\<rparr>)"
    using o h by (simp add: backPropagateNetwork_def)
  with o p1 p2 s1 s2 show ?thesis by blast
qed

lemma sum_int_2: "(\<Sum>i = 0..<2::int. f i) = (f 0 + f 1 :: real)"
proof -
  have "{0..<2::int} = {0, 1}" by auto
  then show ?thesis by simp
qed

lemma backPropagateNetwork_hidden_spec:
  assumes wf: "wf_network nn ic hc oc"
  shows "\<exists>nn1 nn2. backPropagateOutputLayer nn t = Some nn1 \<and>
           backPropagateNetwork nn t = Some nn2 \<and>
           (\<forall>j h. 0 \<le> j \<and> j < oc \<and> 0 \<le> h \<and> h < hc \<longrightarrow>
              cell_val nn1 OUTPUT j (Weight h) =
                cell_val nn OUTPUT j (Weight h) + learningRate nn * out_val nn HIDDEN h * error_signal nn t j) \<and>
           (\<forall>h. 0 \<le> h \<and> h < hc \<longrightarrow>
              hidden_error_signal nn1 oc t h =
                (\<Sum>j = 0..<oc. error_signal nn t j * cell_val nn1 OUTPUT j (Weight h))
                  * getActFctDerivative nn HIDDEN (out_val nn HIDDEN h)) \<and>
           (\<forall>h. 0 \<le> h \<and> h < hc \<longrightarrow>
              cell_val nn2 HIDDEN h Bias =
                cell_val nn HIDDEN h Bias + learningRate nn * 1 * hidden_error_signal nn1 oc t h) \<and>
           (\<forall>h i. 0 \<le> h \<and> h < hc \<and> 0 \<le> i \<and> i < ic \<longrightarrow>
              cell_val nn2 HIDDEN h (Weight i) =
                cell_val nn HIDDEN h (Weight i) +
                learningRate nn * out_val nn INPUT i * hidden_error_signal nn1 oc t h)"
proof -
  from backPropagateNetwork_spec [OF wf, of t] obtain m1 m2 where
    o: "backPropagateOutputLayer nn t = Some (nn\<lparr>layers := m1\<rparr>)" and
    n: "backPropagateNetwork nn t = Some (nn\<lparr>layers := m2\<rparr>)" and
    p1: "params_updated nn ic hc oc OUTPUT 0 (error_signal nn t) m1" and
    p2: "params_updated (nn\<lparr>layers := m1\<rparr>) ic hc oc HIDDEN 0
           (hidden_error_signal (nn\<lparr>layers := m1\<rparr>) oc t) m2"
    by blast
  let ?nn1 = "nn\<lparr>layers := m1\<rparr>" and ?nn2 = "nn\<lparr>layers := m2\<rparr>"
  have pf1: "params_frame nn ic hc oc OUTPUT 0 m1"
    using p1 by (simp add: params_updated_def)
  have keep: "m1 (cell_addr nn lt j f) = layers nn (cell_addr nn lt j f)"
    if "valid_cell ic hc oc lt j f" "lt \<noteq> OUTPUT \<or> f = Output" for lt j f
    using params_frame_keep [OF wf pf1 _ that(1)] that(2) by auto
  have w1: "cell_val ?nn1 OUTPUT j (Weight h) =
      cell_val nn OUTPUT j (Weight h) + learningRate nn * out_val nn HIDDEN h * error_signal nn t j"
    if "0 \<le> j \<and> j < oc \<and> 0 \<le> h \<and> h < hc" for j h
    using p1 that unfolding params_updated_def
    by (intro cell_val_set) (simp add: prev_layer_def)
  have es: "error_signal ?nn1 t j = error_signal nn t j" if "0 \<le> j" "j < oc" for j
    using keep [of OUTPUT j Output] that
    by (intro error_signal_frame) (simp add: valid_cell_def)
  have oh: "out_val ?nn1 HIDDEN h = out_val nn HIDDEN h" if "0 \<le> h \<and> h < hc" for h
    using keep [of HIDDEN h Output] that
    by (intro out_val_frame) (simp add: valid_cell_def)
  have oi: "out_val ?nn1 INPUT i = out_val nn INPUT i" if "0 \<le> i" "i < ic" for i
    using keep [of INPUT i Output] that
    by (intro out_val_frame) (simp add: valid_cell_def)
  have hs: "hidden_error_signal ?nn1 oc t h =
      (\<Sum>j = 0..<oc. error_signal nn t j * cell_val ?nn1 OUTPUT j (Weight h))
        * getActFctDerivative nn HIDDEN (out_val nn HIDDEN h)"
    if h: "0 \<le> h \<and> h < hc" for h
  proof -
    have "error_sum ?nn1 t h 0 oc = (\<Sum>j = 0..<oc. error_signal nn t j * cell_val ?nn1 OUTPUT j (Weight h))"
      unfolding error_sum_def by (rule sum.cong) (simp_all add: es)
    then show ?thesis
      using oh [OF h] by (simp add: hidden_error_signal_def)
  qed
  have b2: "cell_val ?nn2 HIDDEN h Bias =
      cell_val nn HIDDEN h Bias + learningRate nn * 1 * hidden_error_signal ?nn1 oc t h"
    if h: "0 \<le> h \<and> h < hc" for h
  proof -
    have "m2 (cell_addr nn HIDDEN h Bias) =
        Some (DblCell (cell_val ?nn1 HIDDEN h Bias + learningRate nn * 1 * hidden_error_signal ?nn1 oc t h))"
      using p2 h unfolding params_updated_def by simp
    moreover have "cell_val ?nn1 HIDDEN h Bias = cell_val nn HIDDEN h Bias"
      using keep [of HIDDEN h Bias] h by (intro cell_val_frame) (simp add: valid_cell_def)
    ultimately show ?thesis
      using cell_val_set [of m2 nn HIDDEN h Bias] by simp
  qed
  have w2: "cell_val ?nn2 HIDDEN h (Weight i) =
      cell_val nn HIDDEN h (Weight i) + learningRate nn * out_val nn INPUT i * hidden_error_signal ?nn1 oc t h"
    if hi: "0 \<le> h \<and> h < hc \<and> 0 \<le> i \<and> i < ic" for h i
  proof -
    have "m2 (cell_addr nn HIDDEN h (Weight i)) =
        Some (DblCell (cell_val ?nn1 HIDDEN h (Weight i) +
                       learningRate nn * out_val ?nn1 INPUT i * hidden_error_signal ?nn1 oc t h))"
      using p2 hi unfolding params_updated_def by (simp add: prev_layer_def)
    moreover have "cell_val ?nn1 HIDDEN h (Weight i) = cell_val nn HIDDEN h (Weight i)"
      using keep [of HIDDEN h "Weight i"] hi by (intro cell_val_frame) (simp add: valid_cell_def)
    ultimately show ?thesis
      using cell_val_set [of m2 nn HIDDEN h "Weight i"] oi [of i] hi by simp
  qed
  from o n w1 hs b2 w2 show ?thesis by blast
qed

lemma example_half_values:
  "cell_val (example_net (1/2) (1/2)) OUTPUT 0 (Weight 0) = 1"
  "cell_val (example_net (1/2) (1/2)) OUTPUT 1 (Weight 0) = 0"
  "cell_val (example_net (1/2) (1/2)) HIDDEN 0 Bias = 0"
  "out_val (example_net (1/2) (1/2)) HIDDEN 0 = 1/2"
  "learningRate (example_net (1/2) (1/2)) = 1"
  "error_signal (example_net (1/2) (1/2)) 0 0 = 1/8"
  "error_signal (example_net (1/2) (1/2)) 0 1 = - (1/8)"
  "getActFctDerivative (example_net (1/2) (1/2)) HIDDEN (1/2) = 1/4"
  by (simp_all add: cell_val_def out_val_def error_signal_def getActFctDerivative_def dbl_def
      cell_addr_def node_addr_def example_net_def fields sizes)

lemma example_half_backprop:
  "\<exists>nn1 nn2. backPropagateOutputLayer (example_net (1/2) (1/2)) 0 = Some nn1 \<and>
     backPropagateNetwork (example_net (1/2) (1/2)) 0 = Some nn2 \<and>
     cell_val nn1 OUTPUT 0 (Weight 0) = 17/16 \<and>
     cell_val nn1 OUTPUT 1 (Weight 0) = - (1/16) \<and>
     cell_val nn2 HIDDEN 0 Bias = 9/256"
proof -
  let ?nn = "example_net (1/2) (1/2)"
  have w: "wf_network ?nn 1 1 2" by (rule wf_example_net)
  from backPropagateNetwork_hidden_spec [OF w, of 0] obtain nn1 nn2 where
    o: "backPropagateOutputLayer ?nn 0 = Some nn1" and
    n: "backPropagateNetwork ?nn 0 = Some nn2" and
    w1: "\<And>j h. 0 \<le> j \<and> j < 2 \<and> 0 \<le> h \<and> h < 1 \<Longrightarrow>
           cell_val nn1 OUTPUT j (Weight h) =
             cell_val ?nn OUTPUT j (Weight h) + learningRate ?nn * out_val ?nn HIDDEN h * error_signal ?nn 0 j" and
    hs: "\<And>h. 0 \<le> h \<and> h < 1 \<Longrightarrow>
           hidden_error_signal nn1 2 0 h =
             (\<Sum>j = 0..<2. error_signal ?nn 0 j * cell_val nn1 OUTPUT j (Weight h))
               * getActFctDerivative ?nn HIDDEN (out_val ?nn HIDDEN h)" and
    b2: "\<And>h. 0 \<le> h \<and> h < 1 \<Longrightarrow>
           cell_val nn2 HIDDEN h Bias =
             cell_val ?nn HIDDEN h Bias + learningRate ?nn * 1 * hidden_error_signal nn1 2 0 h"
    by blast
  have a: "cell_val nn1 OUTPUT 0 (Weight 0) = 17/16" "cell_val nn1 OUTPUT 1 (Weight 0) = - (1/16)"
    using w1 [of 0 0] w1 [of 1 0] by (simp_all add: example_half_values)
  then have "hidden_error_signal nn1 2 0 0 = 9/256"
    using hs [of 0] by (simp add: sum_int_2 example_half_values)
  then have "cell_val nn2 HIDDEN 0 Bias = 9/256"
    using b2 [of 0] by (simp add: example_half_values)
  with o n a show ?thesis by blast
qed

text \<open>
  C1: the error sum of a hidden node is to be taken over the output layer's weights as they
  were during the forward pass.  backPropagateNetwork runs backPropagateOutputLayer first
  and backPropagateHiddenLayer on the state that leaves, and keeps no copy of the weights,
  so the sum is taken over weights the same pass has already updated.  In the example
  network with both outputs 1/2, target 0 and learning rate 1, the weights of the two output
  nodes are 1 and 0 before the pass and 17/16 and -1/16 when backPropagateHiddenLayer reads
  them; the hidden node's bias becomes 9/256, whereas the error sum over the weights before
  the pass makes it 1/32.
\<close>

theorem backPropagateNetwork_not_pre_update_weights:
  "cell_val (example_net (1/2) (1/2)) OUTPUT 0 (Weight 0) = 1 \<and>
   cell_val (example_net (1/2) (1/2)) OUTPUT 1 (Weight 0) = 0 \<and>
   backPropagateOutputLayer (example_net (1/2) (1/2)) 0 \<noteq> None \<and>
   cell_val (the (backPropagateOutputLayer (example_net (1/2) (1/2)) 0)) OUTPUT 0 (Weight 0) = 17/16 \<and>
   cell_val (the (backPropagateOutputLayer (example_net (1/2) (1/2)) 0)) OUTPUT 1 (Weight 0) = - (1/16) \<and>
   backPropagateNetwork (example_net (1/2) (1/2)) 0 \<noteq> None \<and>
   cell_val (the (backPropagateNetwork (example_net (1/2) (1/2)) 0)) HIDDEN 0 Bias = 9/256 \<and>
   cell_val (example_net (1/2) (1/2)) HIDDEN 0 Bias +
     learningRate (example_net (1/2) (1/2)) * 1 *
       hidden_error_signal (example_net (1/2) (1/2)) 2 0 0 = 1/32"
proof -
  have "cell_val (example_net (1/2) (1/2)) HIDDEN 0 Bias +
     learningRate (example_net (1/2) (1/2)) * 1 *
       hidden_error_signal (example_net (1/2) (1/2)) 2 0 0 = 1/32"
    by (simp add: hidden_error_signal_def error_sum_def sum_int_2 example_half_values)
  with example_half_backprop example_half_values(1,2) show ?thesis by auto
qed


section \<open>Construction: the layers as initNetwork leaves them\<close>

text \<open>
  A block is allocated up to \<open>n\<close> when every slot below \<open>n\<close> belongs to it.  A zero node
  has bias 0, output 0, its weight count and that many weights 0; a zero layer has its
  node count and zero nodes.  createInputLayer and createLayer build a zero layer in a block
  of their own, and initNetwork copies the three of them into the network.
\<close>

definition allocated :: "memory \<Rightarrow> int \<Rightarrow> bool" where
  "allocated m n \<longleftrightarrow> (\<forall>a. 0 \<le> a \<and> a + 8 \<le> n \<and> a mod 8 = 0 \<longrightarrow> m a \<noteq> None)"

lemma allocatedD: "allocated m n \<Longrightarrow> 0 \<le> a \<Longrightarrow> a + 8 \<le> n \<Longrightarrow> a mod 8 = 0 \<Longrightarrow> m a \<noteq> None"
  by (simp add: allocated_def)

lemma malloc_allocated: "0 \<le> n \<Longrightarrow> \<exists>m. malloc n = Some m \<and> allocated m n \<and>
    (\<forall>a. m a = (if 0 \<le> a \<and> a + 8 \<le> n \<and> a mod 8 = 0 then Some Uninit else None))"
  by (simp add: malloc_def allocated_def)

lemma allocated_write_int:
  "allocated m n \<Longrightarrow> 0 \<le> a \<Longrightarrow> a + 8 \<le> n \<Longrightarrow> a mod 8 = 0 \<Longrightarrow>
   write_int m a v = Some (m(a \<mapsto> IntCell v)) \<and> allocated (m(a \<mapsto> IntCell v)) n"
  by (simp add: write_int_def allocated_def)

lemma allocated_write_dbl:
  "allocated m n \<Longrightarrow> 0 \<le> a \<Longrightarrow> a + 8 \<le> n \<Longrightarrow> a mod 8 = 0 \<Longrightarrow>
   write_dbl m a v = Some (m(a \<mapsto> DblCell v)) \<and> allocated (m(a \<mapsto> DblCell v)) n"
  by (simp add: write_dbl_def allocated_def)

lemma memcpy_allocated:
  assumes dm: "allocated dm N" and sm: "allocated sm M"
    and d: "0 \<le> d" "d mod 8 = 0" "d + n \<le> N"
    and s: "0 \<le> s" "s mod 8 = 0" "s + n \<le> M"
    and n: "0 \<le> n" "n mod 8 = 0"
  shows "memcpy dm d sm s n = Some (\<lambda>a. if d \<le> a \<and> a < d + n then sm (s + (a - d)) else dm a)"
    and "allocated (\<lambda>a. if d \<le> a \<and> a < d + n then sm (s + (a - d)) else dm a) N"
proof -
  have k8: "k + 8 \<le> n" if "0 \<le> k" "k < n" "k mod 8 = 0" for k :: int
    using that n(2) by presburger
  have "dm (d + k) \<noteq> None \<and> sm (s + k) \<noteq> None" if "k \<in> {0..<n}" "k mod 8 = 0" for k
  proof
    from that have k: "0 \<le> k" "k < n" by simp_all
    have "(d + k) mod 8 = 0" using d(2) that(2) by presburger
    then show "dm (d + k) \<noteq> None"
      using allocatedD [OF dm, of "d + k"] d(1,3) k k8 [OF k that(2)] by simp
    have "(s + k) mod 8 = 0" using s(2) that(2) by presburger
    then show "sm (s + k) \<noteq> None"
      using allocatedD [OF sm, of "s + k"] s(1,3) k k8 [OF k that(2)] by simp
  qed
  then show "memcpy dm d sm s n = Some (\<lambda>a. if d \<le> a \<and> a < d + n then sm (s + (a - d)) else dm a)"
    using n(1) by (simp add: memcpy_def)
  show "allocated (\<lambda>a. if d \<le> a \<and> a < d + n then sm (s + (a - d)) else dm a) N"
    unfolding allocated_def
  proof (intro allI impI)
    fix a assume a: "0 \<le> a \<and> a + 8 \<le> N \<and> a mod 8 = 0"
    show "(if d \<le> a \<and> a < d + n then sm (s + (a - d)) else dm a) \<noteq> None"
    proof (cases "d \<le> a \<and> a < d + n")
      case True
      have m: "(a - d) mod 8 = 0" using a d(2) by presburger
      then have "(s + (a - d)) mod 8 = 0" using s(2) by presburger
      moreover have "a - d + 8 \<le> n"
        using k8 [of "a - d"] True m by simp
      ultimately have "sm (s + (a - d)) \<noteq> None"
        using allocatedD [OF sm, of "s + (a - d)"] s(1,3) True by simp
      with True show ?thesis by simp
    next
      case False
      with allocatedD [OF dm, of a] a show ?thesis by auto
    qed
  qed
qed

definition zero_node :: "memory \<Rightarrow> int \<Rightarrow> int \<Rightarrow> bool" where
  "zero_node m n wc \<longleftrightarrow>
     m (bias_at n) = Some (DblCell 0) \<and> m (output_at n) = Some (DblCell 0) \<and>
     m (wcount_at n) = Some (IntCell wc) \<and>
     (\<forall>k. 0 \<le> k \<and> k < wc \<longrightarrow> m (weights_at n k) = Some (DblCell 0))"

definition zero_layer :: "memory \<Rightarrow> int \<Rightarrow> int \<Rightarrow> int \<Rightarrow> bool" where
  "zero_layer m l nc wc \<longleftrightarrow>
     m (ncount_at l) = Some (IntCell nc) \<and>
     (\<forall>j. 0 \<le> j \<and> j < nc \<longrightarrow>
        zero_node m (nodes_at l + j * (sizeof_Node + wc * sizeof_double)) wc)"

lemma node_aligned:
  fixes i wc :: int
  shows "(i * (sizeof_Node + wc * sizeof_double)) mod 8 = 0"
  unfolding sizeof_Node_def sizeof_double_def
proof -
  have e: "i * (24 + wc * 8) = 8 * (i * (3 + wc))"
    by (simp add: algebra_simps)
  show "i * (24 + wc * 8) mod 8 = 0"
    unfolding e by simp
qed

lemma node_step:
  fixes i j S :: int
  assumes "j < i" and "0 \<le> S"
  shows "j * S + S \<le> i * S"
proof -
  have "(j + 1) * S \<le> i * S"
    using assms by (intro mult_right_mono) auto
  then show ?thesis by (simp add: algebra_simps)
qed

lemma zero_node_frame:
  assumes "zero_node m n wc" and "0 \<le> wc"
    and "\<And>a. n \<le> a \<Longrightarrow> a < n + (sizeof_Node + wc * sizeof_double) \<Longrightarrow> m' a = m a"
  shows "zero_node m' n wc"
  using assms(1,2) unfolding zero_node_def
  by (auto simp: assms(3) fields sizes)

lemma zero_node_copy:
  assumes "zero_node dn 0 wc" and "0 \<le> wc"
    and "\<And>x. 0 \<le> x \<Longrightarrow> x < sizeof_Node + wc * sizeof_double \<Longrightarrow> m' (n + x) = dn x"
  shows "zero_node m' n wc"
proof -
  have "m' (n + 0) = dn 0" "m' (n + 8) = dn 8" "m' (n + 16) = dn 16"
    using assms(2) by (intro assms(3); simp add: sizes)+
  moreover have "m' (n + (sizeof_Node + k * sizeof_double)) = dn (sizeof_Node + k * sizeof_double)"
    if "0 \<le> k" "k < wc" for k
    using that by (intro assms(3)) (simp_all add: sizes)
  ultimately show ?thesis
    using assms(1) unfolding zero_node_def
    by (simp add: fields add.assoc)
qed

text \<open>The loop of createInputLayer.\<close>

lemma createInputLayer_loop_spec:
  assumes iln: "zero_node iln 0 0" "allocated iln sizeof_Node"
    and il: "il (ncount_at 0) = Some (IntCell ic)" "allocated il (sizeof_Layer + ic * sizeof_Node)"
    and prior: "\<And>j. 0 \<le> j \<Longrightarrow> j < i \<Longrightarrow> zero_node il (nodes_at 0 + j * sizeof_Node) 0"
    and i: "0 \<le> i" "i \<le> ic"
  shows "\<exists>il'. createInputLayer_loop il iln sizeof_Node (nodes_at 0 + i * sizeof_Node) i = Some il' \<and>
           zero_layer il' 0 ic 0 \<and> allocated il' (sizeof_Layer + ic * sizeof_Node)"
  using il prior i
proof (induction "nat (ic - i)" arbitrary: il i)
  case 0
  then have "i = ic" by simp
  with 0 show ?case
    by (subst createInputLayer_loop.simps)
      (auto simp: read_int_def zero_layer_def intro!: exI [of _ il])
next
  case (Suc n)
  then have lt: "i < ic" by linarith
  let ?d = "nodes_at 0 + i * sizeof_Node"
  let ?il1 = "\<lambda>a. if ?d \<le> a \<and> a < ?d + sizeof_Node then iln (0 + (a - ?d)) else il a"
  have cp: "memcpy il ?d iln 0 sizeof_Node = Some ?il1"
    and al: "allocated ?il1 (sizeof_Layer + ic * sizeof_Node)"
    using memcpy_allocated [OF Suc.prems(2) iln(2), of ?d sizeof_Node 0] Suc.prems(4) lt
    by (simp_all add: fields sizes)
  have nc1: "?il1 (ncount_at 0) = Some (IntCell ic)"
    using Suc.prems(1,4) by (simp add: fields sizes)
  have done1: "zero_node ?il1 (nodes_at 0 + j * sizeof_Node) 0" if j: "0 \<le> j" "j < i + 1" for j
  proof (cases "j = i")
    case True
    show ?thesis
      unfolding True
      by (rule zero_node_copy [OF iln(1)]) (simp_all add: sizes)
  next
    case False
    with j have ji: "j < i" by simp
    show ?thesis
    proof (rule zero_node_frame [OF Suc.prems(3) [OF j(1) ji]])
      fix a assume "nodes_at 0 + j * sizeof_Node \<le> a"
        "a < nodes_at 0 + j * sizeof_Node + (sizeof_Node + 0 * sizeof_double)"
      with ji show "?il1 a = il a" by (simp add: sizes fields)
    qed simp
  qed
  have n: "n = nat (ic - (i + 1))" and i1: "0 \<le> i + 1" "i + 1 \<le> ic"
    using Suc.hyps(2) Suc.prems(4) lt by linarith+
  from Suc.hyps(1) [OF n nc1 al done1 i1] obtain il' where
    run: "createInputLayer_loop ?il1 iln sizeof_Node (nodes_at 0 + (i + 1) * sizeof_Node) (i + 1) = Some il'"
    and res: "zero_layer il' 0 ic 0" "allocated il' (sizeof_Layer + ic * sizeof_Node)"
    by auto
  have "createInputLayer_loop il iln sizeof_Node ?d i = Some il'"
    using Suc.prems(1) lt cp run
    by (subst createInputLayer_loop.simps) (simp add: read_int_def algebra_simps)
  with res show ?case by blast
qed


lemma createInputLayer_spec:
  assumes "0 \<le> inpCount" and "fits_int (sizeof_Layer + inpCount * sizeof_Node)"
  shows "\<exists>il. createInputLayer inpCount = Some il \<and> zero_layer il 0 inpCount 0 \<and>
           allocated il (sizeof_Layer + inpCount * sizeof_Node)"
proof -
  let ?L = "sizeof_Layer + inpCount * sizeof_Node"
  have f1: "fits_int (inpCount * sizeof_Node)"
    using assms by (simp add: fits_int_def sizes INT_MAX_def)
  from malloc_allocated [of ?L] assms(1) obtain il0 where
    m0: "malloc ?L = Some il0" and a0: "allocated il0 ?L"
    by (auto simp: sizes)
  let ?il1 = "il0(ncount_at 0 \<mapsto> IntCell inpCount)"
  have w1: "write_int il0 (ncount_at 0) inpCount = Some ?il1" and a1: "allocated ?il1 ?L"
    using allocated_write_int [OF a0, of "ncount_at 0" inpCount] assms(1)
    by (simp_all add: fields sizes)
  from malloc_allocated [of sizeof_Node] obtain n0 where
    mn: "malloc sizeof_Node = Some n0" and an: "allocated n0 sizeof_Node"
    by (auto simp: sizes)
  let ?n1 = "n0(bias_at 0 \<mapsto> DblCell 0)"
  let ?n2 = "?n1(output_at 0 \<mapsto> DblCell 0)"
  let ?n3 = "?n2(wcount_at 0 \<mapsto> IntCell 0)"
  have wn1: "write_dbl n0 (bias_at 0) 0 = Some ?n1" and an1: "allocated ?n1 sizeof_Node"
    using allocated_write_dbl [OF an, of "bias_at 0" 0] by (simp_all add: fields sizes)
  have wn2: "write_dbl ?n1 (output_at 0) 0 = Some ?n2" and an2: "allocated ?n2 sizeof_Node"
    using allocated_write_dbl [OF an1, of "output_at 0" 0] by (simp_all add: fields sizes)
  have wn3: "write_int ?n2 (wcount_at 0) 0 = Some ?n3" and an3: "allocated ?n3 sizeof_Node"
    using allocated_write_int [OF an2, of "wcount_at 0" 0] by (simp_all add: fields sizes)
  have zn: "zero_node ?n3 0 0"
    by (simp add: zero_node_def fields)
  have nc: "?il1 (ncount_at 0) = Some (IntCell inpCount)" by simp
  from createInputLayer_loop_spec [OF zn an3 nc a1, of 0] assms(1) obtain il' where
    run: "createInputLayer_loop ?il1 ?n3 sizeof_Node (nodes_at 0) 0 = Some il'" and
    res: "zero_layer il' 0 inpCount 0" "allocated il' ?L"
    by auto
  have "createInputLayer inpCount = Some il'"
    unfolding createInputLayer_def
    using c_int_fits [OF f1] c_int_fits [OF assms(2)] m0 w1 mn wn1 wn2 wn3 run
    by (simp add: Let_def)
  with res show ?thesis by blast
qed

lemma createLayer_wloop_spec:
  assumes "allocated dn (sizeof_Node + wc * sizeof_double)" and "0 \<le> i"
  shows "\<exists>dn'. createLayer_wloop dn wc i = Some dn' \<and>
           (\<forall>k. i \<le> k \<and> k < wc \<longrightarrow> dn' (weights_at 0 k) = Some (DblCell 0)) \<and>
           (\<forall>a. (\<forall>k. i \<le> k \<and> k < wc \<longrightarrow> a \<noteq> weights_at 0 k) \<longrightarrow> dn' a = dn a) \<and>
           allocated dn' (sizeof_Node + wc * sizeof_double)"
  using assms
proof (induction "nat (wc - i)" arbitrary: dn i)
  case 0
  then have "\<not> i < wc" by simp
  with 0 show ?case
    by (subst createLayer_wloop.simps) (auto intro!: exI [of _ dn])
next
  case (Suc n)
  then have lt: "i < wc" by linarith
  let ?dn1 = "dn(weights_at 0 i \<mapsto> DblCell 0)"
  have w: "write_dbl dn (weights_at 0 i) 0 = Some ?dn1"
    and a1: "allocated ?dn1 (sizeof_Node + wc * sizeof_double)"
    using allocated_write_dbl [OF Suc.prems(1), of "weights_at 0 i" 0] Suc.prems(2) lt
    by (simp_all add: fields sizes)
  have n: "n = nat (wc - (i + 1))" and i1: "0 \<le> i + 1"
    using Suc.hyps(2) Suc.prems(2) by linarith+
  from Suc.hyps(1) [OF n a1 i1] obtain dn' where
    run: "createLayer_wloop ?dn1 wc (i + 1) = Some dn'" and
    set: "\<And>k. i + 1 \<le> k \<Longrightarrow> k < wc \<Longrightarrow> dn' (weights_at 0 k) = Some (DblCell 0)" and
    frame: "\<And>a. (\<forall>k. i + 1 \<le> k \<and> k < wc \<longrightarrow> a \<noteq> weights_at 0 k) \<Longrightarrow> dn' a = ?dn1 a" and
    al: "allocated dn' (sizeof_Node + wc * sizeof_double)"
    by auto
  have step: "createLayer_wloop dn wc i = Some dn'"
    using lt w run by (subst createLayer_wloop.simps) simp
  have "dn' (weights_at 0 i) = Some (DblCell 0)"
    using frame [of "weights_at 0 i"] by (simp add: fields sizes)
  with set have set': "dn' (weights_at 0 k) = Some (DblCell 0)" if "i \<le> k" "k < wc" for k
    using that by (cases "k = i") auto
  have frame': "dn' a = dn a" if "\<forall>k. i \<le> k \<and> k < wc \<longrightarrow> a \<noteq> weights_at 0 k" for a
    using frame [of a] that lt by auto
  from step set' frame' al show ?case by blast
qed

lemma createLayer_nloop_spec:
  assumes dn: "zero_node dn 0 wc" "allocated dn (sizeof_Node + wc * sizeof_double)" and wc: "0 \<le> wc"
    and l: "l (ncount_at 0) = Some (IntCell nc)"
      "allocated l (sizeof_Layer + nc * (sizeof_Node + wc * sizeof_double))"
    and prior: "\<And>j. 0 \<le> j \<Longrightarrow> j < i \<Longrightarrow>
      zero_node l (nodes_at 0 + j * (sizeof_Node + wc * sizeof_double)) wc"
    and i: "0 \<le> i" "i \<le> nc"
    and fit: "fits_int (nc * (sizeof_Node + wc * sizeof_double))"
  shows "\<exists>l'. createLayer_nloop l dn (sizeof_Node + wc * sizeof_double) (nodes_at 0) nc i = Some l' \<and>
           zero_layer l' 0 nc wc \<and>
           allocated l' (sizeof_Layer + nc * (sizeof_Node + wc * sizeof_double))"
  using l prior i
proof (induction "nat (nc - i)" arbitrary: l i)
  case 0
  then have "\<not> i < nc" "i = nc" by simp_all
  with 0 show ?case
    by (subst createLayer_nloop.simps) (auto simp: zero_layer_def intro!: exI [of _ l])
next
  case (Suc n)
  then have lt: "i < nc" by linarith
  let ?S = "sizeof_Node + wc * sizeof_double"
  let ?d = "nodes_at 0 + i * ?S"
  let ?l1 = "\<lambda>a. if ?d \<le> a \<and> a < ?d + ?S then dn (0 + (a - ?d)) else l a"
  have S0: "0 \<le> ?S" "24 \<le> ?S" using wc by (simp_all add: sizes)
  have Sal: "?S mod 8 = 0" using node_aligned [of 1 wc] by simp
  have iS: "0 \<le> i * ?S" using Suc.prems(4) S0 by simp
  have dal: "?d mod 8 = 0"
    using node_aligned [of i wc] by (simp add: fields sizes)
  have top: "?d + ?S \<le> sizeof_Layer + nc * ?S"
    using node_step [OF lt S0(1)] by (simp add: fields)
  have cp: "memcpy l ?d dn 0 ?S = Some ?l1"
    and al: "allocated ?l1 (sizeof_Layer + nc * ?S)"
    using memcpy_allocated [OF Suc.prems(2) dn(2), of ?d ?S 0] iS dal top S0 Sal
    by (simp_all add: fields sizes)
  have nc1: "?l1 (ncount_at 0) = Some (IntCell nc)"
    using Suc.prems(1) iS by (simp add: fields sizes)
  have done1: "zero_node ?l1 (nodes_at 0 + j * ?S) wc" if j: "0 \<le> j" "j < i + 1" for j
  proof (cases "j = i")
    case True
    show ?thesis
      unfolding True
      by (rule zero_node_copy [OF dn(1) wc]) simp_all
  next
    case False
    with j have ji: "j < i" by simp
    show ?thesis
    proof (rule zero_node_frame [OF Suc.prems(3) [OF j(1) ji] wc])
      fix a assume "nodes_at 0 + j * ?S \<le> a" "a < nodes_at 0 + j * ?S + ?S"
      with node_step [OF ji S0(1)] show "?l1 a = l a" by simp
    qed
  qed
  have n: "n = nat (nc - (i + 1))" and i1: "0 \<le> i + 1" "i + 1 \<le> nc"
    using Suc.hyps(2) Suc.prems(4) lt by linarith+
  from Suc.hyps(1) [OF n nc1 al done1 i1] obtain l' where
    run: "createLayer_nloop ?l1 dn ?S (nodes_at 0) nc (i + 1) = Some l'"
    and res: "zero_layer l' 0 nc wc" "allocated l' (sizeof_Layer + nc * ?S)"
    by auto
  have "i * ?S \<le> nc * ?S"
    using lt S0(1) by (intro mult_right_mono) simp_all
  with iS fit have fi: "fits_int (i * ?S)"
    unfolding fits_int_def INT_MAX_def by linarith
  have "createLayer_nloop l dn ?S (nodes_at 0) nc i = Some l'"
    using lt cp run c_int_fits [OF fi] by (subst createLayer_nloop.simps) simp
  with res show ?case by blast
qed

lemma createLayer_spec:
  assumes nc: "0 < nodeCount" and wc: "0 \<le> weightCount"
    and fit: "fits_int (sizeof_Layer + nodeCount * (sizeof_Node + weightCount * sizeof_double))"
  shows "\<exists>l. createLayer nodeCount weightCount = Some l \<and> zero_layer l 0 nodeCount weightCount \<and>
           allocated l (sizeof_Layer + nodeCount * (sizeof_Node + weightCount * sizeof_double))"
proof -
  let ?S = "sizeof_Node + weightCount * sizeof_double"
  let ?L = "sizeof_Layer + nodeCount * ?S"
  have S0: "0 \<le> ?S" using wc by (simp add: sizes)
  have SL: "?S \<le> nodeCount * ?S"
    using mult_right_mono [of 1 nodeCount ?S] nc S0 by simp
  have f1: "fits_int ?S" and f2: "fits_int (nodeCount * ?S)"
    using fit S0 SL by (simp_all add: fits_int_def sizes INT_MAX_def)
  from malloc_allocated [of ?L] S0 SL obtain l0 where
    m0: "malloc ?L = Some l0" and a0: "allocated l0 ?L"
    by (auto simp: sizes)
  let ?l1 = "l0(ncount_at 0 \<mapsto> IntCell nodeCount)"
  have w1: "write_int l0 (ncount_at 0) nodeCount = Some ?l1" and a1: "allocated ?l1 ?L"
    using allocated_write_int [OF a0, of "ncount_at 0" nodeCount] S0 SL
    by (simp_all add: fields sizes)
  from malloc_allocated [of ?S] S0 obtain n0 where
    mn: "malloc ?S = Some n0" and an: "allocated n0 ?S"
    by auto
  let ?n1 = "n0(bias_at 0 \<mapsto> DblCell 0)"
  let ?n2 = "?n1(output_at 0 \<mapsto> DblCell 0)"
  let ?n3 = "?n2(wcount_at 0 \<mapsto> IntCell weightCount)"
  have wn1: "write_dbl n0 (bias_at 0) 0 = Some ?n1" and an1: "allocated ?n1 ?S"
    using allocated_write_dbl [OF an, of "bias_at 0" 0] wc by (simp_all add: fields sizes)
  have wn2: "write_dbl ?n1 (output_at 0) 0 = Some ?n2" and an2: "allocated ?n2 ?S"
    using allocated_write_dbl [OF an1, of "output_at 0" 0] wc by (simp_all add: fields sizes)
  have wn3: "write_int ?n2 (wcount_at 0) weightCount = Some ?n3" and an3: "allocated ?n3 ?S"
    using allocated_write_int [OF an2, of "wcount_at 0" weightCount] wc by (simp_all add: fields sizes)
  from createLayer_wloop_spec [OF an3, of 0] obtain n4 where
    wl: "createLayer_wloop ?n3 weightCount 0 = Some n4" and
    set: "\<And>k. 0 \<le> k \<Longrightarrow> k < weightCount \<Longrightarrow> n4 (weights_at 0 k) = Some (DblCell 0)" and
    frame: "\<And>a. (\<forall>k. 0 \<le> k \<and> k < weightCount \<longrightarrow> a \<noteq> weights_at 0 k) \<Longrightarrow> n4 a = ?n3 a" and
    an4: "allocated n4 ?S"
    by auto
  have "n4 (bias_at 0) = ?n3 (bias_at 0)" "n4 (output_at 0) = ?n3 (output_at 0)"
    "n4 (wcount_at 0) = ?n3 (wcount_at 0)"
    by (rule frame; simp add: fields sizes)+
  then have zn: "zero_node n4 0 weightCount"
    using set by (simp add: zero_node_def fields)
  have ncell: "?l1 (ncount_at 0) = Some (IntCell nodeCount)" by simp
  from createLayer_nloop_spec [OF zn an4 wc ncell a1, of 0] nc f2 obtain l' where
    run: "createLayer_nloop ?l1 n4 ?S (nodes_at 0) nodeCount 0 = Some l'" and
    res: "zero_layer l' 0 nodeCount weightCount" "allocated l' ?L"
    by auto
  have "createLayer nodeCount weightCount = Some l'"
    unfolding createLayer_def
    using c_int_fits [OF f1] c_int_fits [OF f2] m0 w1 mn wn1 wn2 wn3 wl run
    by (simp add: Let_def)
  with res show ?thesis by blast
qed

lemma zero_node_shift:
  assumes "zero_node src n wc" and "0 \<le> wc"
    and "\<And>x. 0 \<le> x \<Longrightarrow> x < sizeof_Node + wc * sizeof_double \<Longrightarrow> m (n' + x) = src (n + x)"
  shows "zero_node m n' wc"
proof -
  have "m (n' + 0) = src (n + 0)" "m (n' + 8) = src (n + 8)" "m (n' + 16) = src (n + 16)"
    using assms(2) by (intro assms(3); simp add: sizes)+
  moreover have "m (n' + (sizeof_Node + k * sizeof_double)) = src (n + (sizeof_Node + k * sizeof_double))"
    if "0 \<le> k" "k < wc" for k
    using that by (intro assms(3)) (simp_all add: sizes)
  ultimately show ?thesis
    using assms(1) unfolding zero_node_def
    by (simp add: fields add.assoc)
qed

lemma zero_layer_copy:
  assumes src: "zero_layer src 0 nc wc" and nc: "0 \<le> nc" and wc: "0 \<le> wc"
    and cp: "\<And>x. 0 \<le> x \<Longrightarrow> x < sizeof_Layer + nc * (sizeof_Node + wc * sizeof_double) \<Longrightarrow>
               m (d + x) = src x"
  shows "zero_layer m d nc wc"
  unfolding zero_layer_def
proof (intro conjI allI impI)
  let ?S = "sizeof_Node + wc * sizeof_double"
  have S0: "0 \<le> ?S" using wc by (simp add: sizes)
  have "0 \<le> nc * ?S" using nc S0 by simp
  then have "m (d + 0) = src 0" by (intro cp) (simp_all add: sizes)
  with src show "m (ncount_at d) = Some (IntCell nc)"
    by (simp add: zero_layer_def fields)
  fix j assume j: "0 \<le> j \<and> j < nc"
  then have zs: "zero_node src (nodes_at 0 + j * ?S) wc"
    using src by (simp add: zero_layer_def)
  have jS: "0 \<le> j * ?S" using j S0 by simp
  show "zero_node m (nodes_at d + j * ?S) wc"
  proof (rule zero_node_shift [OF zs wc])
    fix x assume x: "0 \<le> x" "x < ?S"
    have "m (d + (nodes_at 0 + j * ?S + x)) = src (nodes_at 0 + j * ?S + x)"
      using node_step [of j nc ?S] j S0 jS x by (intro cp) (simp_all add: fields sizes)
    then show "m (nodes_at d + j * ?S + x) = src (nodes_at 0 + j * ?S + x)"
      by (simp add: fields add.assoc add.left_commute)
  qed
qed

lemma zero_layer_frame:
  assumes z: "zero_layer m d nc wc" and nc: "0 \<le> nc" and wc: "0 \<le> wc"
    and fr: "\<And>a. d \<le> a \<Longrightarrow> a < d + (sizeof_Layer + nc * (sizeof_Node + wc * sizeof_double)) \<Longrightarrow>
               m' a = m a"
  shows "zero_layer m' d nc wc"
  unfolding zero_layer_def
proof (intro conjI allI impI)
  let ?S = "sizeof_Node + wc * sizeof_double"
  have S0: "0 \<le> ?S" using wc by (simp add: sizes)
  have "0 \<le> nc * ?S" using nc S0 by simp
  then have "m' d = m d" by (intro fr) (simp_all add: sizes)
  with z show "m' (ncount_at d) = Some (IntCell nc)"
    by (simp add: zero_layer_def fields)
  fix j assume j: "0 \<le> j \<and> j < nc"
  then have zs: "zero_node m (nodes_at d + j * ?S) wc"
    using z by (simp add: zero_layer_def)
  have jS: "0 \<le> j * ?S" using j S0 by simp
  show "zero_node m' (nodes_at d + j * ?S) wc"
  proof (rule zero_node_frame [OF zs wc])
    fix a assume a: "nodes_at d + j * ?S \<le> a" "a < nodes_at d + j * ?S + ?S"
    have st: "j * ?S + ?S \<le> nc * ?S"
      using node_step [of j nc ?S] j S0 by simp
    have "d \<le> a"
      using a(1) jS unfolding nodes_at_def sizeof_Layer_def by linarith
    moreover have "a < d + (sizeof_Layer + nc * ?S)"
      using a(2) st unfolding nodes_at_def by linarith
    ultimately show "m' a = m a" by (rule fr)
  qed
qed

lemma zero_layer_memcpy_other:
  assumes "zero_layer m d nc wc" and "0 \<le> nc" and "0 \<le> wc"
    and "d + (sizeof_Layer + nc * (sizeof_Node + wc * sizeof_double)) \<le> D"
  shows "zero_layer (\<lambda>a. if D \<le> a \<and> a < D + N then f a else m a) d nc wc"
  using assms(4) by (intro zero_layer_frame [OF assms(1,2,3)]) simp

lemma zero_layer_memcpy_here:
  assumes "zero_layer src 0 nc wc" and "0 \<le> nc" and "0 \<le> wc"
  shows "zero_layer (\<lambda>a. if D \<le> a \<and> a < D + (sizeof_Layer + nc * (sizeof_Node + wc * sizeof_double))
                        then src (0 + (a - D)) else m a) D nc wc"
  by (intro zero_layer_copy [OF assms]) simp

lemma zero_layer_ok: "zero_layer m l nc wc \<Longrightarrow> layer_ok m l nc wc"
  by (auto simp: zero_layer_def layer_ok_def zero_node_def node_ok_def is_dbl_def read_int_def)


lemma initNetwork_spec:
  assumes pos: "0 < ic" "0 < hc" "0 < oc" and fit: "sizes_fit ic hc oc"
    and sz: "inpLayerSize nn = sizeof_Layer + ic * sizeof_Node"
      "hidLayerSize nn = sizeof_Layer + hc * (sizeof_Node + ic * sizeof_double)"
      "outLayerSize nn = sizeof_Layer + oc * (sizeof_Node + hc * sizeof_double)"
    and al: "allocated (layers nn) (inpLayerSize nn + hidLayerSize nn + outLayerSize nn)"
  shows "\<exists>m'. initNetwork nn ic hc oc = Some (nn\<lparr>layers := m'\<rparr>) \<and>
           zero_layer m' (layer_at nn INPUT) ic 0 \<and>
           zero_layer m' (layer_at nn HIDDEN) hc ic \<and>
           zero_layer m' (layer_at nn OUTPUT) oc hc"
proof -
  let ?LI = "sizeof_Layer + ic * sizeof_Node"
  let ?SH = "sizeof_Node + ic * sizeof_double"
  let ?LH = "sizeof_Layer + hc * ?SH"
  let ?SO = "sizeof_Node + hc * sizeof_double"
  let ?LO = "sizeof_Layer + oc * ?SO"
  let ?T = "?LI + ?LH + ?LO"
  have nn0: "0 \<le> ic * sizeof_Node" "0 \<le> hc * ?SH" "0 \<le> oc * ?SO"
    using pos by (simp_all add: sizes)
  have LIa: "?LI mod 8 = 0" using node_aligned [of ic 0] by (simp add: sizes)
  have LHa: "?LH mod 8 = 0" using node_aligned [of hc ic] by (simp add: sizes)
  have LOa: "?LO mod 8 = 0" using node_aligned [of oc hc] by (simp add: sizes)
  have al': "allocated (layers nn) ?T" using al sz by simp
  from createInputLayer_spec [of ic] pos fit obtain il where
    il: "createInputLayer ic = Some il" "zero_layer il 0 ic 0" "allocated il ?LI"
    by (auto simp: sizes_fit_def)
  from createLayer_spec [of hc ic] pos fit obtain hl where
    hl: "createLayer hc ic = Some hl" "zero_layer hl 0 hc ic" "allocated hl ?LH"
    by (auto simp: sizes_fit_def)
  from createLayer_spec [of oc hc] pos fit obtain ol where
    ol: "createLayer oc hc = Some ol" "zero_layer ol 0 oc hc" "allocated ol ?LO"
    by (auto simp: sizes_fit_def)
  let ?m1 = "\<lambda>a. if 0 \<le> a \<and> a < 0 + ?LI then il (0 + (a - 0)) else layers nn a"
  have c1: "memcpy (layers nn) 0 il 0 ?LI = Some ?m1" and a1: "allocated ?m1 ?T"
    using memcpy_allocated [OF al' il(3), of 0 ?LI 0] nn0 LIa by (simp_all add: sizes)
  let ?m2 = "\<lambda>a. if ?LI \<le> a \<and> a < ?LI + ?LH then hl (0 + (a - ?LI)) else ?m1 a"
  have c2: "memcpy ?m1 ?LI hl 0 ?LH = Some ?m2" and a2: "allocated ?m2 ?T"
    using memcpy_allocated [OF a1 hl(3), of ?LI ?LH 0] nn0 LIa LHa by (simp_all add: sizes)
  let ?m3 = "\<lambda>a. if ?LI + ?LH \<le> a \<and> a < ?LI + ?LH + ?LO then ol (0 + (a - (?LI + ?LH))) else ?m2 a"
  have LIHa: "(?LI + ?LH) mod 8 = 0" using LIa LHa by presburger
  have c3: "memcpy ?m2 (?LI + ?LH) ol 0 ?LO = Some ?m3"
    using memcpy_allocated(1) [OF a2 ol(3), of "?LI + ?LH" ?LO 0] nn0 LIHa LOa
    by (simp add: sizes)
  have run: "initNetwork nn ic hc oc = Some (nn\<lparr>layers := ?m3\<rparr>)"
    unfolding initNetwork_def using il(1) hl(1) ol(1) c1 c2 c3 sz
    by (simp add: Let_def)
  have p: "0 \<le> ic" "0 \<le> hc" "0 \<le> oc" using pos by simp_all
  have z1: "zero_layer ?m1 0 ic 0"
    using zero_layer_memcpy_here [OF il(2) p(1), of 0 "layers nn"] by simp
  have z2i: "zero_layer ?m2 0 ic 0"
    by (rule zero_layer_memcpy_other [OF z1 p(1)]) simp_all
  have z2h: "zero_layer ?m2 ?LI hc ic"
    by (rule zero_layer_memcpy_here [OF hl(2) p(2,1)])
  have LH0: "0 \<le> ?LH" using nn0(2) unfolding sizeof_Layer_def by linarith
  have z3i: "zero_layer ?m3 0 ic 0"
    by (rule zero_layer_memcpy_other [OF z2i p(1)]) (use LH0 in simp_all)
  have z3h: "zero_layer ?m3 ?LI hc ic"
    by (rule zero_layer_memcpy_other [OF z2h p(2,1)]) simp
  have z3o: "zero_layer ?m3 (?LI + ?LH) oc hc"
    by (rule zero_layer_memcpy_here [OF ol(2) p(3,2)])
  from run z3i z3h z3o sz show ?thesis
    by (intro exI [of _ ?m3]) simp
qed


section \<open>Construction: the weights as initWeights leaves them\<close>

text \<open>
  A weight is drawn for connection \<open>i\<close> when it is 0.7 * (rand() / RAND_MAX) for one of the
  calls of \<open>rand()\<close>, negated when \<open>i\<close> is odd; a bias is drawn for node \<open>j\<close> when it is
  rand() / RAND_MAX for one of the calls, negated when \<open>j\<close> is odd.  A layer is randomized
  from node \<open>i\<close> on when the weights and the biases of these nodes are drawn and every other
  slot is as before.
\<close>

definition weight_drawn :: "(nat \<Rightarrow> int) \<Rightarrow> int \<Rightarrow> real \<Rightarrow> bool" where
  "weight_drawn rnd i v \<longleftrightarrow>
     (\<exists>n. v = (if i mod 2 \<noteq> 0 then - (0.7 * (real_of_int (rnd n) / real_of_int RAND_MAX))
               else 0.7 * (real_of_int (rnd n) / real_of_int RAND_MAX)))"

definition bias_drawn :: "(nat \<Rightarrow> int) \<Rightarrow> int \<Rightarrow> real \<Rightarrow> bool" where
  "bias_drawn rnd j v \<longleftrightarrow>
     (\<exists>n. v = (if j mod 2 \<noteq> 0 then - (real_of_int (rnd n) / real_of_int RAND_MAX)
               else real_of_int (rnd n) / real_of_int RAND_MAX))"

definition randomized ::
  "Network \<Rightarrow> int \<Rightarrow> int \<Rightarrow> int \<Rightarrow> LayerType \<Rightarrow> int \<Rightarrow> (nat \<Rightarrow> int) \<Rightarrow> memory \<Rightarrow> bool" where
  "randomized nn ic hc oc ltype i rnd m' \<longleftrightarrow>
     (\<forall>j k. i \<le> j \<and> j < ncount_of ic hc oc ltype \<and> 0 \<le> k \<and> k < wcount_of ic hc oc ltype \<longrightarrow>
        (\<exists>v. m' (cell_addr nn ltype j (Weight k)) = Some (DblCell v) \<and> weight_drawn rnd k v)) \<and>
     (\<forall>j. i \<le> j \<and> j < ncount_of ic hc oc ltype \<longrightarrow>
        (\<exists>v. m' (cell_addr nn ltype j Bias) = Some (DblCell v) \<and> bias_drawn rnd j v)) \<and>
     params_frame nn ic hc oc ltype i m'"

lemma negate_written:
  assumes "is_dbl m a"
  shows "\<exists>v. (do { m1 \<leftarrow> write_dbl m a r;
               (if c then do { w \<leftarrow> read_dbl m1 a; write_dbl m1 a (- w) } else Some m1) })
            = Some (m(a \<mapsto> DblCell v)) \<and> v = (if c then - r else r)"
proof -
  have w: "write_dbl m a r = Some (m(a \<mapsto> DblCell r))"
    by (rule is_dbl_write [OF assms])
  have d1: "is_dbl (m(a \<mapsto> DblCell r)) a" by (simp add: is_dbl_def)
  have "read_dbl (m(a \<mapsto> DblCell r)) a = Some r" by (simp add: read_dbl_def)
  moreover have "write_dbl (m(a \<mapsto> DblCell r)) a (- r) = Some (m(a \<mapsto> DblCell (- r)))"
    using is_dbl_write [OF d1, of "- r"] by simp
  ultimately show ?thesis using w by simp
qed

lemma initWeights_wloop_spec:
  assumes "wf_network nn ic hc oc" and "0 \<le> j" and "j < ncount_of ic hc oc lt" and "0 \<le> i"
  shows "\<exists>m' k'. initWeights_wloop rnd nn k (node_addr nn lt j) i = Some (nn\<lparr>layers := m'\<rparr>, k') \<and>
           (\<forall>x. i \<le> x \<and> x < wcount_of ic hc oc lt \<longrightarrow>
              (\<exists>v. m' (cell_addr nn lt j (Weight x)) = Some (DblCell v) \<and> weight_drawn rnd x v)) \<and>
           (\<forall>a. (\<forall>x. i \<le> x \<and> x < wcount_of ic hc oc lt \<longrightarrow> a \<noteq> cell_addr nn lt j (Weight x)) \<longrightarrow>
              m' a = layers nn a)"
  using assms(1,4)
proof (induction "nat (wcount_of ic hc oc lt - i)" arbitrary: nn i k)
  case 0
  then have "\<not> i < wcount_of ic hc oc lt" by simp
  then show ?case
    using wf_cell_wcount [OF "0.prems"(1) assms(2,3)]
    by (subst initWeights_wloop.simps)
      (auto simp: cell_addr_def intro!: exI [of _ "layers nn"])
next
  case (Suc n)
  let ?wc = "wcount_of ic hc oc lt"
  from Suc have lt: "i < ?wc" by linarith
  note wf = Suc.prems(1) and i0 = Suc.prems(2)
  let ?a = "cell_addr nn lt j (Weight i)"
  let ?r = "0.7 * (real_of_int (rnd k) / real_of_int RAND_MAX)"
  have vw: "valid_cell ic hc oc lt j (Weight x)" if "0 \<le> x" "x < ?wc" for x
    using that assms(2,3) by (simp add: valid_cell_def)
  have d: "is_dbl (layers nn) ?a"
    using wf_cell_is_dbl [OF wf vw] i0 lt by simp
  from negate_written [OF d, of ?r "i mod 2 \<noteq> 0"] obtain v where
    wr: "(do { m1 \<leftarrow> write_dbl (layers nn) ?a ?r;
               (if i mod 2 \<noteq> 0 then do { w \<leftarrow> read_dbl m1 ?a; write_dbl m1 ?a (- w) } else Some m1) })
            = Some ((layers nn)(?a \<mapsto> DblCell v))" and
    v: "v = (if i mod 2 \<noteq> 0 then - ?r else ?r)"
    by blast
  have dv: "weight_drawn rnd i v"
    unfolding weight_drawn_def using v by (intro exI [of _ k]) simp
  let ?m2 = "(layers nn)(?a \<mapsto> DblCell v)"
  let ?nn2 = "nn\<lparr>layers := ?m2\<rparr>"
  have wf2: "wf_network ?nn2 ic hc oc"
    using wf_same_layout [OF wf same_layout_write [OF d]] .
  have n: "n = nat (?wc - (i + 1))" and i1: "0 \<le> i + 1"
    using Suc.hyps(2) i0 by linarith+
  from Suc.hyps(1) [OF n wf2 i1, of "k + 1"] obtain m' k' where
    run: "initWeights_wloop rnd ?nn2 (k + 1) (node_addr nn lt j) (i + 1) = Some (nn\<lparr>layers := m'\<rparr>, k')" and
    set: "\<And>x. i + 1 \<le> x \<Longrightarrow> x < ?wc \<Longrightarrow>
            \<exists>v. m' (cell_addr nn lt j (Weight x)) = Some (DblCell v) \<and> weight_drawn rnd x v" and
    frame: "\<And>a. (\<forall>x. i + 1 \<le> x \<and> x < ?wc \<longrightarrow> a \<noteq> cell_addr nn lt j (Weight x)) \<Longrightarrow> m' a = ?m2 a"
    by auto
  have step: "initWeights_wloop rnd nn k (node_addr nn lt j) i = Some (nn\<lparr>layers := m'\<rparr>, k')"
    using wf_cell_wcount [OF wf assms(2,3)] lt wr run
    by (subst initWeights_wloop.simps)
      (auto simp: cell_addr_def bind_eq_Some_conv split: if_splits)
  have ne: "?a \<noteq> cell_addr nn lt j (Weight x)" if "i + 1 \<le> x" "x < ?wc" for x
    using cell_addr_inj [OF wf vw vw, of i x] that i0 lt by auto
  have "m' ?a = Some (DblCell v)"
    using frame [of ?a] ne by auto
  with set dv have set': "\<exists>v. m' (cell_addr nn lt j (Weight x)) = Some (DblCell v) \<and> weight_drawn rnd x v"
    if "i \<le> x" "x < ?wc" for x
    using that by (cases "x = i") auto
  have frame': "m' a = layers nn a"
    if "\<forall>x. i \<le> x \<and> x < ?wc \<longrightarrow> a \<noteq> cell_addr nn lt j (Weight x)" for a
    using frame [of a] that lt by auto
  from step set' frame' show ?case by blast
qed

lemma randomized_empty:
  "ncount_of ic hc oc lt \<le> i \<Longrightarrow> randomized nn ic hc oc lt i rnd (layers nn)"
  by (auto simp: randomized_def params_frame_def)

lemma randomized_same_layout:
  assumes wf: "wf_network nn ic hc oc" and i: "0 \<le> i" and r: "randomized nn ic hc oc lt i rnd m'"
  shows "same_layout (layers nn) m'"
proof (rule same_layout_frame [where W = "{a. \<exists>j. i \<le> j \<and> j < ncount_of ic hc oc lt \<and>
      (a = cell_addr nn lt j Bias \<or>
       (\<exists>k. 0 \<le> k \<and> k < wcount_of ic hc oc lt \<and> a = cell_addr nn lt j (Weight k)))}"])
  fix a
  assume "a \<notin> {a. \<exists>j. i \<le> j \<and> j < ncount_of ic hc oc lt \<and>
      (a = cell_addr nn lt j Bias \<or>
       (\<exists>k. 0 \<le> k \<and> k < wcount_of ic hc oc lt \<and> a = cell_addr nn lt j (Weight k)))}"
  then have "\<forall>j. i \<le> j \<and> j < ncount_of ic hc oc lt \<longrightarrow>
             a \<noteq> cell_addr nn lt j Bias \<and>
             (\<forall>k. 0 \<le> k \<and> k < wcount_of ic hc oc lt \<longrightarrow> a \<noteq> cell_addr nn lt j (Weight k))"
    by auto
  with r show "m' a = layers nn a"
    unfolding randomized_def params_frame_def by blast
next
  fix a
  assume "a \<in> {a. \<exists>j. i \<le> j \<and> j < ncount_of ic hc oc lt \<and>
      (a = cell_addr nn lt j Bias \<or>
       (\<exists>k. 0 \<le> k \<and> k < wcount_of ic hc oc lt \<and> a = cell_addr nn lt j (Weight k)))}"
  then obtain j where j: "i \<le> j" "j < ncount_of ic hc oc lt"
    and a: "a = cell_addr nn lt j Bias \<or>
       (\<exists>k. 0 \<le> k \<and> k < wcount_of ic hc oc lt \<and> a = cell_addr nn lt j (Weight k))"
    by blast
  from a show "is_dbl (layers nn) a \<and> is_dbl m' a"
  proof
    assume a: "a = cell_addr nn lt j Bias"
    have "is_dbl (layers nn) a"
      using wf_cell_is_dbl [OF wf, of lt j Bias] j i a by (simp add: valid_cell_def)
    moreover have "is_dbl m' a"
      using r j a unfolding randomized_def by (auto simp: is_dbl_def)
    ultimately show ?thesis ..
  next
    assume "\<exists>k. 0 \<le> k \<and> k < wcount_of ic hc oc lt \<and> a = cell_addr nn lt j (Weight k)"
    then obtain k where k: "0 \<le> k" "k < wcount_of ic hc oc lt" and a: "a = cell_addr nn lt j (Weight k)"
      by blast
    have "is_dbl (layers nn) a"
      using wf_cell_is_dbl [OF wf, of lt j "Weight k"] j i k a by (simp add: valid_cell_def)
    moreover have "\<exists>v. m' a = Some (DblCell v)"
      using r j k a unfolding randomized_def by blast
    then have "is_dbl m' a" by (auto simp: is_dbl_def)
    ultimately show ?thesis ..
  qed
qed

lemma initWeights_loop_spec:
  assumes "wf_network nn ic hc oc" and "0 \<le> i"
  shows "\<exists>m' k'. initWeights_loop rnd nn k (layer_at nn lt) (node_addr nn lt i) (node_size nn lt) i
                   = Some (nn\<lparr>layers := m'\<rparr>, k') \<and>
           randomized nn ic hc oc lt i rnd m'"
  using assms
proof (induction "nat (ncount_of ic hc oc lt - i)" arbitrary: nn i k)
  case 0
  then have "\<not> i < ncount_of ic hc oc lt" by simp
  then show ?case
    using wf_ncount [OF "0.prems"(1), of lt] randomized_empty [of ic hc oc lt i nn rnd]
    by (subst initWeights_loop.simps) (auto intro!: exI [of _ "layers nn"])
next
  case (Suc n)
  let ?nc = "ncount_of ic hc oc lt" and ?wc = "wcount_of ic hc oc lt"
  from Suc have lt: "i < ?nc" by linarith
  note wf = Suc.prems(1) and i0 = Suc.prems(2)
  from initWeights_wloop_spec [OF wf i0 lt, of 0 rnd k] obtain m1 k1 where
    w: "initWeights_wloop rnd nn k (node_addr nn lt i) 0 = Some (nn\<lparr>layers := m1\<rparr>, k1)" and
    ws: "\<And>x. 0 \<le> x \<Longrightarrow> x < ?wc \<Longrightarrow>
           \<exists>v. m1 (cell_addr nn lt i (Weight x)) = Some (DblCell v) \<and> weight_drawn rnd x v" and
    wf1: "\<And>a. (\<forall>x. 0 \<le> x \<and> x < ?wc \<longrightarrow> a \<noteq> cell_addr nn lt i (Weight x)) \<Longrightarrow> m1 a = layers nn a"
    by auto
  let ?b = "cell_addr nn lt i Bias"
  let ?r = "real_of_int (rnd k1) / real_of_int RAND_MAX"
  have vw: "valid_cell ic hc oc lt i (Weight x)" if "0 \<le> x" "x < ?wc" for x
    using that i0 lt by (simp add: valid_cell_def)
  have vb: "valid_cell ic hc oc lt i Bias"
    using i0 lt by (simp add: valid_cell_def)
  have nb: "?b \<noteq> cell_addr nn lt i (Weight x)" if "0 \<le> x" "x < ?wc" for x
    using cell_addr_inj [OF wf vb vw, of x] that by auto
  have b1: "m1 ?b = layers nn ?b"
    using wf1 [of ?b] nb by auto
  have db1: "is_dbl m1 ?b"
    using wf_cell_is_dbl [OF wf vb] b1 by (simp add: is_dbl_def)
  from negate_written [OF db1, of ?r "i mod 2 \<noteq> 0"] obtain v where
    wr: "(do { m \<leftarrow> write_dbl m1 ?b ?r;
               (if i mod 2 \<noteq> 0 then do { w \<leftarrow> read_dbl m ?b; write_dbl m ?b (- w) } else Some m) })
            = Some (m1(?b \<mapsto> DblCell v))" and
    v: "v = (if i mod 2 \<noteq> 0 then - ?r else ?r)"
    by blast
  have bv: "bias_drawn rnd i v"
    unfolding bias_drawn_def using v by (intro exI [of _ k1]) simp
  let ?m2 = "m1(?b \<mapsto> DblCell v)"
  let ?nn2 = "nn\<lparr>layers := ?m2\<rparr>"
  have f2: "?m2 a = layers nn a"
    if "a \<noteq> ?b \<and> (\<forall>x. 0 \<le> x \<and> x < ?wc \<longrightarrow> a \<noteq> cell_addr nn lt i (Weight x))" for a
    using wf1 [of a] that by auto
  have w2: "\<exists>v. ?m2 (cell_addr nn lt i (Weight x)) = Some (DblCell v) \<and> weight_drawn rnd x v"
    if "0 \<le> x" "x < ?wc" for x
    using ws [OF that] nb [OF that] by auto
  have sl2: "same_layout (layers nn) ?m2"
  proof (rule same_layout_frame [where W = "{a. a = ?b \<or> (\<exists>x. 0 \<le> x \<and> x < ?wc \<and> a = cell_addr nn lt i (Weight x))}"])
    fix a assume "a \<notin> {a. a = ?b \<or> (\<exists>x. 0 \<le> x \<and> x < ?wc \<and> a = cell_addr nn lt i (Weight x))}"
    then show "?m2 a = layers nn a" using f2 [of a] by auto
  next
    fix a assume "a \<in> {a. a = ?b \<or> (\<exists>x. 0 \<le> x \<and> x < ?wc \<and> a = cell_addr nn lt i (Weight x))}"
    then consider "a = ?b" | x where "0 \<le> x" "x < ?wc" "a = cell_addr nn lt i (Weight x)"
      by auto
    then show "is_dbl (layers nn) a \<and> is_dbl ?m2 a"
    proof cases
      case 1
      with wf_cell_is_dbl [OF wf vb] show ?thesis by (simp add: is_dbl_def)
    next
      case 2
      with wf_cell_is_dbl [OF wf vw, of x] w2 [of x] show ?thesis
        by (auto simp: is_dbl_def)
    qed
  qed
  have wf2: "wf_network ?nn2 ic hc oc"
    by (rule wf_same_layout [OF wf sl2])
  have n: "n = nat (?nc - (i + 1))" and i1: "0 \<le> i + 1"
    using Suc.hyps(2) i0 by linarith+
  from Suc.hyps(1) [OF n wf2 i1, of "k1 + 1"] obtain m' k' where
    run: "initWeights_loop rnd ?nn2 (k1 + 1) (layer_at nn lt) (node_addr nn lt (i + 1)) (node_size nn lt) (i + 1)
            = Some (nn\<lparr>layers := m'\<rparr>, k')" and
    rz: "randomized ?nn2 ic hc oc lt (i + 1) rnd m'"
    by auto
  from rz have
    rw: "\<And>j x. i + 1 \<le> j \<Longrightarrow> j < ?nc \<Longrightarrow> 0 \<le> x \<Longrightarrow> x < ?wc \<Longrightarrow>
           \<exists>v. m' (cell_addr nn lt j (Weight x)) = Some (DblCell v) \<and> weight_drawn rnd x v" and
    rb: "\<And>j. i + 1 \<le> j \<Longrightarrow> j < ?nc \<Longrightarrow>
           \<exists>v. m' (cell_addr nn lt j Bias) = Some (DblCell v) \<and> bias_drawn rnd j v" and
    rf: "\<And>a. (\<forall>j. i + 1 \<le> j \<and> j < ?nc \<longrightarrow> a \<noteq> cell_addr nn lt j Bias \<and>
             (\<forall>x. 0 \<le> x \<and> x < ?wc \<longrightarrow> a \<noteq> cell_addr nn lt j (Weight x))) \<Longrightarrow> m' a = ?m2 a"
    unfolding randomized_def params_frame_def by simp_all
  have keep: "m' (cell_addr nn lt i f) = ?m2 (cell_addr nn lt i f)" if "valid_field ?wc f" for f
  proof (rule rf, intro conjI allI impI)
    fix j assume j: "i + 1 \<le> j \<and> j < ?nc"
    have vf: "valid_cell ic hc oc lt i f" using i0 lt that by (simp add: valid_cell_def)
    have vb': "valid_cell ic hc oc lt j Bias" using j i0 by (simp add: valid_cell_def)
    from cell_addr_inj [OF wf vf vb'] j
    show "cell_addr nn lt i f \<noteq> cell_addr nn lt j Bias" by auto
    fix x assume "0 \<le> x \<and> x < ?wc"
    then have vw': "valid_cell ic hc oc lt j (Weight x)" using j i0 by (simp add: valid_cell_def)
    from cell_addr_inj [OF wf vf vw'] j
    show "cell_addr nn lt i f \<noteq> cell_addr nn lt j (Weight x)" by auto
  qed
  have step: "initWeights_loop rnd nn k (layer_at nn lt) (node_addr nn lt i) (node_size nn lt) i
                = Some (nn\<lparr>layers := m'\<rparr>, k')"
    using wf_ncount [OF wf, of lt] lt w wr run
    by (subst initWeights_loop.simps)
      (auto simp: cell_addr_def bias_at_def node_addr_Suc bind_eq_Some_conv Let_def split: if_splits)
  have W: "\<exists>v. m' (cell_addr nn lt j (Weight x)) = Some (DblCell v) \<and> weight_drawn rnd x v"
    if "i \<le> j" "j < ?nc" "0 \<le> x" "x < ?wc" for j x
  proof (cases "j = i")
    case True
    with keep [of "Weight x"] w2 [of x] that show ?thesis by simp
  next
    case False
    with that rw [of j x] show ?thesis by simp
  qed
  have B: "\<exists>v. m' (cell_addr nn lt j Bias) = Some (DblCell v) \<and> bias_drawn rnd j v"
    if "i \<le> j" "j < ?nc" for j
  proof (cases "j = i")
    case True
    with keep [of Bias] bv show ?thesis by simp
  next
    case False
    with that rb [of j] show ?thesis by simp
  qed
  have F: "params_frame nn ic hc oc lt i m'"
    unfolding params_frame_def
  proof (intro allI impI)
    fix a
    assume a: "\<forall>j. i \<le> j \<and> j < ?nc \<longrightarrow> a \<noteq> cell_addr nn lt j Bias \<and>
             (\<forall>x. 0 \<le> x \<and> x < ?wc \<longrightarrow> a \<noteq> cell_addr nn lt j (Weight x))"
    then have "m' a = ?m2 a" by (intro rf) auto
    moreover have "?m2 a = layers nn a" using a lt by (intro f2) auto
    ultimately show "m' a = layers nn a" by simp
  qed
  from step W B F show ?case
    unfolding randomized_def by blast
qed

lemma initWeights_spec:
  assumes wf: "wf_network nn ic hc oc" and lt: "lt \<noteq> INPUT"
  shows "\<exists>m' k'. initWeights rnd nn k lt = Some (nn\<lparr>layers := m'\<rparr>, k') \<and>
           randomized nn ic hc oc lt 0 rnd m' \<and> same_layout (layers nn) m'"
proof -
  have ns: "(if lt = HIDDEN then hidNodeSize nn else outNodeSize nn) = node_size nn lt"
    using lt by (cases lt) simp_all
  from initWeights_loop_spec [OF wf, of 0 rnd k lt] obtain m' k' where
    run: "initWeights_loop rnd nn k (layer_at nn lt) (node_addr nn lt 0) (node_size nn lt) 0
            = Some (nn\<lparr>layers := m'\<rparr>, k')" and
    rz: "randomized nn ic hc oc lt 0 rnd m'"
    by auto
  have "initWeights rnd nn k lt = Some (nn\<lparr>layers := m'\<rparr>, k')"
    using run by (simp add: initWeights_def ns node_addr_0 Let_def wf_getLayer [OF wf])
  moreover have "same_layout (layers nn) m'"
    by (rule randomized_same_layout [OF wf _ rz]) simp
  ultimately show ?thesis using rz by blast
qed


section \<open>Construction: createNetwork\<close>

text \<open>
  setNetworkDefaults changes the learning rate and the activation types only.  For positive
  counts for which the layer sizes, and the sum of the input and the hidden layer's size,
  fit an \<open>int\<close>, createNetwork returns a well-formed network of the requested shape, with the
  defaults in its header, drawn weights and biases in the hidden and the output layer, bias
  0 in every input node and output 0 in every node.
\<close>

lemma setNetworkDefaults_simps [simp]:
  "layers (setNetworkDefaults nn) = layers nn"
  "layer_at (setNetworkDefaults nn) lt = layer_at nn lt"
  "node_size (setNetworkDefaults nn) lt = node_size nn lt"
  "learningRate (setNetworkDefaults nn) = 0.2"
  "hidLayerActType (setNetworkDefaults nn) = SIGMOID"
  "outLayerActType (setNetworkDefaults nn) = SIGMOID"
  "inpNodeSize (setNetworkDefaults nn) = inpNodeSize nn"
  "inpLayerSize (setNetworkDefaults nn) = inpLayerSize nn"
  "hidNodeSize (setNetworkDefaults nn) = hidNodeSize nn"
  "hidLayerSize (setNetworkDefaults nn) = hidLayerSize nn"
  "outNodeSize (setNetworkDefaults nn) = outNodeSize nn"
  "outLayerSize (setNetworkDefaults nn) = outLayerSize nn"
  by (cases lt; simp add: setNetworkDefaults_def)+

lemma setNetworkDefaults_addr [simp]:
  "node_addr (setNetworkDefaults nn) lt j = node_addr nn lt j"
  "cell_addr (setNetworkDefaults nn) lt j f = cell_addr nn lt j f"
  by (simp_all add: node_addr_def cell_addr_def)

lemma wf_setNetworkDefaults:
  "wf_network nn ic hc oc \<Longrightarrow> wf_network (setNetworkDefaults nn) ic hc oc"
  by (auto simp: wf_network_def)

lemma setNetworkDefaults_layers_update:
  "(setNetworkDefaults nn)\<lparr>layers := m\<rparr> = setNetworkDefaults (nn\<lparr>layers := m\<rparr>)"
  by (simp add: setNetworkDefaults_def)

lemma zero_layer_cells:
  assumes z: "zero_layer (layers nn) (layer_at nn lt) (ncount_of ic hc oc lt) (wcount_of ic hc oc lt)"
    and ns: "node_size nn lt = sizeof_Node + wcount_of ic hc oc lt * sizeof_double"
    and v: "valid_cell ic hc oc lt j f" and f: "f \<noteq> Wcount"
  shows "layers nn (cell_addr nn lt j f) = Some (DblCell 0)"
proof -
  from v have j: "0 \<le> j \<and> j < ncount_of ic hc oc lt"
    and vf: "valid_field (wcount_of ic hc oc lt) f"
    by (simp_all add: valid_cell_def)
  from z j have "zero_node (layers nn) (node_addr nn lt j) (wcount_of ic hc oc lt)"
    by (simp add: zero_layer_def node_addr_def ns)
  with vf f show ?thesis
    by (cases f) (simp_all add: zero_node_def cell_addr_def)
qed

lemma createNetwork_spec:
  assumes pos: "0 < ic" "0 < hc" "0 < oc" and fit: "sizes_fit ic hc oc"
  shows "\<exists>nn. createNetwork rnd ic hc oc = Some nn \<and> wf_network nn ic hc oc \<and>
           learningRate nn = 0.2 \<and> hidLayerActType nn = SIGMOID \<and> outLayerActType nn = SIGMOID \<and>
           (\<forall>lt j k. lt \<noteq> INPUT \<and> 0 \<le> j \<and> j < ncount_of ic hc oc lt \<and>
                     0 \<le> k \<and> k < wcount_of ic hc oc lt \<longrightarrow>
              (\<exists>v. layers nn (cell_addr nn lt j (Weight k)) = Some (DblCell v) \<and> weight_drawn rnd k v)) \<and>
           (\<forall>lt j. lt \<noteq> INPUT \<and> 0 \<le> j \<and> j < ncount_of ic hc oc lt \<longrightarrow>
              (\<exists>v. layers nn (cell_addr nn lt j Bias) = Some (DblCell v) \<and> bias_drawn rnd j v)) \<and>
           (\<forall>j. 0 \<le> j \<and> j < ic \<longrightarrow> layers nn (cell_addr nn INPUT j Bias) = Some (DblCell 0)) \<and>
           (\<forall>lt j. 0 \<le> j \<and> j < ncount_of ic hc oc lt \<longrightarrow>
              layers nn (cell_addr nn lt j Output) = Some (DblCell 0))"
proof -
  let ?LI = "sizeof_Layer + ic * sizeof_Node"
  let ?SH = "sizeof_Node + ic * sizeof_double"
  let ?LH = "sizeof_Layer + hc * ?SH"
  let ?SO = "sizeof_Node + hc * sizeof_double"
  let ?LO = "sizeof_Layer + oc * ?SO"
  have S0: "0 \<le> ?SH" "0 \<le> ?SO" using pos by (simp_all add: sizes)
  have P0: "0 \<le> ic * sizeof_Node" "0 \<le> hc * ?SH" "0 \<le> oc * ?SO"
    using pos S0 by (simp_all add: sizes)
  have SLH: "?SH \<le> hc * ?SH" using mult_right_mono [of 1 hc ?SH] pos S0 by simp
  have SLO: "?SO \<le> oc * ?SO" using mult_right_mono [of 1 oc ?SO] pos S0 by simp
  from fit have fI: "fits_int ?LI" and fH: "fits_int ?LH" and fO: "fits_int ?LO"
    by (simp_all add: sizes_fit_def)
  have f1: "fits_int (ic * sizeof_Node)"
    using fI P0(1) unfolding fits_int_def INT_MAX_def sizeof_Layer_def by linarith
  have f2: "fits_int ?SH" "fits_int (hc * ?SH)"
    using fH P0(2) S0(1) SLH unfolding fits_int_def INT_MAX_def sizeof_Layer_def by linarith+
  have f3: "fits_int ?SO" "fits_int (oc * ?SO)"
    using fO P0(3) S0(2) SLO unfolding fits_int_def INT_MAX_def sizeof_Layer_def by linarith+
  have T0: "0 \<le> sizeof_Network + ?LI + ?LH + ?LO"
    using P0 unfolding sizeof_Network_def sizeof_Layer_def by linarith
  from malloc_allocated [OF T0] obtain block where
    mb: "malloc (sizeof_Network + ?LI + ?LH + ?LO) = Some block" and
    bl: "\<And>a. block a = (if 0 \<le> a \<and> a + 8 \<le> sizeof_Network + ?LI + ?LH + ?LO \<and> a mod 8 = 0
                          then Some Uninit else None)"
    by blast
  let ?nn0 = "\<lparr>inpNodeSize = sizeof_Node, inpLayerSize = ?LI,
                 hidNodeSize = ?SH, hidLayerSize = ?LH,
                 outNodeSize = ?SO, outLayerSize = ?LO,
                 learningRate = 0, hidLayerActType = SIGMOID, outLayerActType = SIGMOID,
                 layers = (\<lambda>a. if 0 \<le> a then block (a + sizeof_Network) else None)\<rparr>"
  have al0: "allocated (layers ?nn0) (inpLayerSize ?nn0 + hidLayerSize ?nn0 + outLayerSize ?nn0)"
    unfolding allocated_def
  proof (intro allI impI)
    fix a assume a: "0 \<le> a \<and> a + 8 \<le> inpLayerSize ?nn0 + hidLayerSize ?nn0 + outLayerSize ?nn0 \<and> a mod 8 = 0"
    then have "(a + sizeof_Network) mod 8 = 0" unfolding sizeof_Network_def by presburger
    moreover have "0 \<le> a + sizeof_Network" "a + sizeof_Network + 8 \<le> sizeof_Network + ?LI + ?LH + ?LO"
      using a unfolding sizeof_Network_def by simp_all
    ultimately have "block (a + sizeof_Network) = Some Uninit"
      using bl [of "a + sizeof_Network"] by simp
    with a show "layers ?nn0 a \<noteq> None" by simp
  qed
  from initNetwork_spec [OF pos fit _ _ _ al0] obtain m1 where
    init: "initNetwork ?nn0 ic hc oc = Some (?nn0\<lparr>layers := m1\<rparr>)" and
    z: "zero_layer m1 (layer_at ?nn0 INPUT) ic 0" "zero_layer m1 (layer_at ?nn0 HIDDEN) hc ic"
      "zero_layer m1 (layer_at ?nn0 OUTPUT) oc hc"
    by auto
  let ?nn1 = "?nn0\<lparr>layers := m1\<rparr>"
  have wf1: "wf_network ?nn1 ic hc oc"
    using pos fit z zero_layer_ok by (simp add: wf_network_def)
  let ?nn2 = "setNetworkDefaults ?nn1"
  have wf2: "wf_network ?nn2 ic hc oc"
    by (rule wf_setNetworkDefaults [OF wf1])
  have zl: "zero_layer (layers ?nn2) (layer_at ?nn2 lt) (ncount_of ic hc oc lt) (wcount_of ic hc oc lt)" for lt
    using z by (cases lt) simp_all
  have zc: "layers ?nn2 (cell_addr ?nn2 lt j f) = Some (DblCell 0)"
    if "valid_cell ic hc oc lt j f" "f \<noteq> Wcount" for lt j f
    by (rule zero_layer_cells [OF zl wf_node_size [OF wf2] that])
  from initWeights_spec [OF wf2, of HIDDEN rnd 0] obtain m3 k3 where
    i3: "initWeights rnd ?nn2 0 HIDDEN = Some (?nn2\<lparr>layers := m3\<rparr>, k3)" and
    r3: "randomized ?nn2 ic hc oc HIDDEN 0 rnd m3" and
    s3: "same_layout (layers ?nn2) m3"
    by auto
  let ?nn3 = "?nn2\<lparr>layers := m3\<rparr>"
  have wf3: "wf_network ?nn3 ic hc oc"
    by (rule wf_same_layout [OF wf2 s3])
  from initWeights_spec [OF wf3, of OUTPUT rnd k3] obtain m4 k4 where
    i4: "initWeights rnd ?nn3 k3 OUTPUT = Some (?nn2\<lparr>layers := m4\<rparr>, k4)" and
    r4: "randomized ?nn3 ic hc oc OUTPUT 0 rnd m4" and
    s4: "same_layout (layers ?nn3) m4"
    by auto
  let ?nn4 = "?nn2\<lparr>layers := m4\<rparr>"
  have wf4: "wf_network ?nn4 ic hc oc"
    using wf_same_layout [OF wf3 s4] by simp
  have run: "createNetwork rnd ic hc oc = Some ?nn4"
    unfolding createNetwork_def
    using c_int_fits [OF f1] c_int_fits [OF fI] c_int_fits [OF f2(1)] c_int_fits [OF f2(2)]
      c_int_fits [OF fH] c_int_fits [OF f3(1)] c_int_fits [OF f3(2)] c_int_fits [OF fO]
      mb init i3 i4
    by (simp add: Let_def)
  have pf3: "params_frame ?nn2 ic hc oc HIDDEN 0 m3"
    using r3 by (simp add: randomized_def)
  have pf4: "params_frame ?nn3 ic hc oc OUTPUT 0 m4"
    using r4 by (simp add: randomized_def)
  have k3: "m3 (cell_addr ?nn2 lt j f) = layers ?nn2 (cell_addr ?nn2 lt j f)"
    if "valid_cell ic hc oc lt j f" "lt \<noteq> HIDDEN \<or> f = Output" for lt j f
    using params_frame_keep [OF wf2 pf3 _ that(1)] that(2) by auto
  have k4: "m4 (cell_addr ?nn2 lt j f) = m3 (cell_addr ?nn2 lt j f)"
    if "valid_cell ic hc oc lt j f" "lt \<noteq> OUTPUT \<or> f = Output" for lt j f
    using params_frame_keep [OF wf3 pf4 _ that(1)] that(2) by auto
  have W: "\<exists>v. layers ?nn4 (cell_addr ?nn4 lt j (Weight k)) = Some (DblCell v) \<and> weight_drawn rnd k v"
    if "lt \<noteq> INPUT \<and> 0 \<le> j \<and> j < ncount_of ic hc oc lt \<and> 0 \<le> k \<and> k < wcount_of ic hc oc lt"
    for lt j k
  proof (cases lt)
    case INPUT with that show ?thesis by simp
  next
    case HIDDEN
    have "m4 (cell_addr ?nn2 HIDDEN j (Weight k)) = m3 (cell_addr ?nn2 HIDDEN j (Weight k))"
      using that HIDDEN by (intro k4) (simp_all add: valid_cell_def)
    moreover have "\<exists>v. m3 (cell_addr ?nn2 HIDDEN j (Weight k)) = Some (DblCell v) \<and> weight_drawn rnd k v"
      using r3 that HIDDEN unfolding randomized_def by simp
    ultimately show ?thesis using HIDDEN by simp
  next
    case OUTPUT
    have "\<exists>v. m4 (cell_addr ?nn3 OUTPUT j (Weight k)) = Some (DblCell v) \<and> weight_drawn rnd k v"
      using r4 that OUTPUT unfolding randomized_def by simp
    then show ?thesis using OUTPUT by simp
  qed
  have B: "\<exists>v. layers ?nn4 (cell_addr ?nn4 lt j Bias) = Some (DblCell v) \<and> bias_drawn rnd j v"
    if "lt \<noteq> INPUT \<and> 0 \<le> j \<and> j < ncount_of ic hc oc lt" for lt j
  proof (cases lt)
    case INPUT with that show ?thesis by simp
  next
    case HIDDEN
    have "m4 (cell_addr ?nn2 HIDDEN j Bias) = m3 (cell_addr ?nn2 HIDDEN j Bias)"
      using that HIDDEN by (intro k4) (simp_all add: valid_cell_def)
    moreover have "\<exists>v. m3 (cell_addr ?nn2 HIDDEN j Bias) = Some (DblCell v) \<and> bias_drawn rnd j v"
      using r3 that HIDDEN unfolding randomized_def by simp
    ultimately show ?thesis using HIDDEN by simp
  next
    case OUTPUT
    have "\<exists>v. m4 (cell_addr ?nn3 OUTPUT j Bias) = Some (DblCell v) \<and> bias_drawn rnd j v"
      using r4 that OUTPUT unfolding randomized_def by simp
    then show ?thesis using OUTPUT by simp
  qed
  have I: "layers ?nn4 (cell_addr ?nn4 INPUT j Bias) = Some (DblCell 0)" if "0 \<le> j \<and> j < ic" for j
  proof -
    have v: "valid_cell ic hc oc INPUT j Bias" using that by (simp add: valid_cell_def)
    from k4 [OF v] k3 [OF v] zc [OF v] show ?thesis by simp
  qed
  have O: "layers ?nn4 (cell_addr ?nn4 lt j Output) = Some (DblCell 0)"
    if "0 \<le> j \<and> j < ncount_of ic hc oc lt" for lt j
  proof -
    have v: "valid_cell ic hc oc lt j Output" using that by (simp add: valid_cell_def)
    from k4 [OF v] k3 [OF v] zc [OF v] show ?thesis by simp
  qed
  have H: "learningRate ?nn4 = 0.2" "hidLayerActType ?nn4 = SIGMOID" "outLayerActType ?nn4 = SIGMOID"
    by (simp_all add: setNetworkDefaults_def)
  from run wf4 H W B I O show ?thesis
    by (intro exI [of _ ?nn4]) blast
qed


section \<open>Shape of a created network (C6)\<close>

text \<open>
  The code reaches node \<open>j\<close> of a layer as \<open>getNode(getLayer(nn, ltype), j)\<close> and the node
  count of a layer as \<open>getLayer(nn, ltype)->ncount\<close>.
\<close>

definition node_of :: "Network \<Rightarrow> LayerType \<Rightarrow> int \<Rightarrow> int option" where
  "node_of nn ltype j =
     do {
       l \<leftarrow> getLayer nn ltype;
       getNode (layers nn) l j
     }"

definition ncount_read :: "Network \<Rightarrow> LayerType \<Rightarrow> int option" where
  "ncount_read nn ltype =
     do {
       l \<leftarrow> getLayer nn ltype;
       read_int (layers nn) (ncount_at l)
     }"

text \<open>A sequence of results of \<open>rand()\<close> that are all the same number.\<close>

definition rand_const :: "int \<Rightarrow> nat \<Rightarrow> int" where
  "rand_const c k = c"

lemma wf_node_of:
  assumes "wf_network nn ic hc oc" and "0 \<le> j" and "j \<le> ncount_of ic hc oc lt"
  shows "node_of nn lt j = Some (node_addr nn lt j)"
  by (simp add: node_of_def wf_getLayer [OF assms(1)] wf_getNode [OF assms])

lemma wf_ncount_read:
  assumes "wf_network nn ic hc oc"
  shows "ncount_read nn lt = Some (ncount_of ic hc oc lt)"
  by (simp add: ncount_read_def wf_getLayer [OF assms] wf_ncount [OF assms])

text \<open>createNetwork returns only when every size it computes in \<open>int\<close> fits.\<close>

lemma c_int_Some: "c_int x = Some y \<Longrightarrow> fits_int x \<and> y = x"
  by (simp add: c_int_def fits_int_def split: if_splits)

lemma initWeights_loop_only_dbl:
  "initWeights_loop rnd nn k l sbptr nodeSize o_idx = Some (nn', k') \<Longrightarrow> only_dbl nn nn'"
proof (induction rnd nn k l sbptr nodeSize o_idx rule: initWeights_loop.induct)
  case (1 rnd nn k l sbptr nodeSize o_idx)
  from "1.prems" obtain nc where rd: "read_int (layers nn) (ncount_at l) = Some nc"
    by (subst (asm) initWeights_loop.simps) (auto simp: bind_eq_Some_conv)
  show ?case
  proof (cases "o_idx < nc")
    case False
    with "1.prems" rd show ?thesis
      by (subst (asm) initWeights_loop.simps) (simp add: only_dbl_refl)
  next
    case True
    with "1.prems" rd obtain r m1 m2 where
      r: "initWeights_wloop rnd nn k sbptr 0 = Some r" and
      w1: "write_dbl (layers (fst r)) (bias_at sbptr)
             (real_of_int (rnd (snd r)) / real_of_int RAND_MAX) = Some m1" and
      w2: "(if o_idx mod 2 \<noteq> 0 then
              do { b \<leftarrow> read_dbl m1 (bias_at sbptr); write_dbl m1 (bias_at sbptr) (- b) }
            else Some m1) = Some m2" and
      rest: "initWeights_loop rnd ((fst r)\<lparr>layers := m2\<rparr>) (snd r + 1) l
               (sbptr + nodeSize) nodeSize (o_idx + 1) = Some (nn', k')"
      by (subst (asm) initWeights_loop.simps) (auto simp: bind_eq_Some_conv Let_def)
    have a: "only_dbl nn (fst r)"
      using r initWeights_wloop_only_dbl [of rnd nn k sbptr 0 "fst r" "snd r"] by simp
    have b: "only_dbl (fst r) ((fst r)\<lparr>layers := m2\<rparr>)"
      using only_dbl_write [OF w1] negate_only_dbl [OF w2] by (rule only_dbl_trans)
    have c: "only_dbl ((fst r)\<lparr>layers := m2\<rparr>) nn'"
      using "1.IH" [OF rd True refl r w1 w2 rest] .
    from a b c show ?thesis
      using only_dbl_trans by blast
  qed
qed

lemma initWeights_header:
  assumes "initWeights rnd nn k lt = Some r"
  shows "inpLayerSize (fst r) = inpLayerSize nn \<and> hidLayerSize (fst r) = hidLayerSize nn"
proof -
  from assms obtain l where
    "initWeights_loop rnd nn k l (nodes_at l)
       (if lt = HIDDEN then hidNodeSize nn else outNodeSize nn) 0 = Some (fst r, snd r)"
    by (auto simp: initWeights_def bind_eq_Some_conv Let_def)
  from initWeights_loop_only_dbl [OF this] have "fst r = nn\<lparr>layers := layers (fst r)\<rparr>"
    by (simp add: only_dbl_def)
  then show ?thesis
    by (metis Network.select_convs(2,4) Network.surjective Network.update_convs(10))
qed

lemma createNetwork_Some_sizes_fit:
  assumes "createNetwork rnd ic hc oc = Some nn"
  shows "sizes_fit ic hc oc"
proof -
  let ?LI = "sizeof_Layer + ic * sizeof_Node"
  let ?SH = "sizeof_Node + ic * sizeof_double"
  let ?LH = "sizeof_Layer + hc * ?SH"
  let ?SO = "sizeof_Node + hc * sizeof_double"
  let ?LO = "sizeof_Layer + oc * ?SO"
  from assms obtain p1 li sh p2 lh so p3 lo block nn1 r3 r4 where
    c: "c_int (ic * sizeof_Node) = Some p1" "c_int (sizeof_Layer + p1) = Some li"
      "c_int ?SH = Some sh" "c_int (hc * sh) = Some p2" "c_int (sizeof_Layer + p2) = Some lh"
      "c_int ?SO = Some so" "c_int (oc * so) = Some p3" "c_int (sizeof_Layer + p3) = Some lo" and
    init: "initNetwork
             \<lparr>inpNodeSize = sizeof_Node, inpLayerSize = li, hidNodeSize = sh, hidLayerSize = lh,
              outNodeSize = so, outLayerSize = lo, learningRate = 0,
              hidLayerActType = SIGMOID, outLayerActType = SIGMOID,
              layers = (\<lambda>a. if 0 \<le> a then block (a + sizeof_Network) else None)\<rparr>
             ic hc oc = Some nn1" and
    i3: "initWeights rnd (setNetworkDefaults nn1) 0 HIDDEN = Some r3" and
    i4: "initWeights rnd (fst r3) (snd r3) OUTPUT = Some r4"
    unfolding createNetwork_def by (auto simp: bind_eq_Some_conv Let_def)
  from c have e: "li = ?LI" "lh = ?LH" "lo = ?LO"
    and f: "fits_int ?LI" "fits_int ?LH" "fits_int ?LO"
    by (auto dest!: c_int_Some)
  from init have h1: "inpLayerSize nn1 = li" "hidLayerSize nn1 = lh"
    by (auto simp: initNetwork_def bind_eq_Some_conv Let_def)
  from initWeights_header [OF i3] h1
  have h3: "inpLayerSize (fst r3) = li" "hidLayerSize (fst r3) = lh"
    by (simp_all add: setNetworkDefaults_def)
  from i4 obtain l where "getLayer (fst r3) OUTPUT = Some l"
    by (auto simp: initWeights_def bind_eq_Some_conv Let_def)
  then have "fits_int (li + lh)"
    using h3 by (auto simp: getLayer.simps bind_eq_Some_conv dest!: c_int_Some)
  with e f show ?thesis by (simp add: sizes_fit_def)
qed

text \<open>
  C6, as stated, for every triple of positive counts: with 100000000 input nodes the
  product \<open>inpCount * inpNodeSize\<close> is 2400000000, which no \<open>int\<close> holds; the computation of
  \<open>inpLayerSize\<close> overflows and createNetwork yields no network.  With 50000000 input and 3
  hidden nodes each layer size fits an \<open>int\<close>, but the sum of the input and the hidden
  layer's size, which getLayer computes to find the output layer in initWeights, is
  2400000088 and overflows.
\<close>

theorem createNetwork_int_overflow:
  "createNetwork (rand_const 0) 100000000 1 1 = None \<and>
   createNetwork (rand_const 0) 50000000 3 1 = None"
proof -
  have "createNetwork (rand_const 0) 100000000 1 1 = None"
    by (simp add: createNetwork_def c_int_def INT_MAX_def sizes)
  moreover have "createNetwork (rand_const 0) 50000000 3 1 = None"
  proof (cases "createNetwork (rand_const 0) 50000000 3 1")
    case None
    then show ?thesis .
  next
    case (Some nn)
    from createNetwork_Some_sizes_fit [OF Some] show ?thesis
      by (simp add: sizes_fit_def fits_int_def INT_MAX_def sizes)
  qed
  ultimately show ?thesis by simp
qed

text \<open>
  C6, amended: for positive counts for which the three layer sizes and the sum of the input
  and the hidden layer's size fit an \<open>int\<close>, createNetwork returns a network whose input,
  hidden and output layer hold exactly the requested numbers of nodes; every input node has
  weight count 0, every hidden node the number of input nodes and every output node the
  number of hidden nodes; the byte size of every node, \<open>sizeof(Node)\<close> plus 8 bytes for each
  of its weights, is the node size stored for its layer, and each node of a layer lies that
  many bytes after the one before it.
\<close>

theorem createNetwork_layer_shapes:
  assumes "0 < ic" and "0 < hc" and "0 < oc" and "sizes_fit ic hc oc"
  shows "\<exists>nn. createNetwork rnd ic hc oc = Some nn \<and>
           ncount_read nn INPUT = Some ic \<and>
           ncount_read nn HIDDEN = Some hc \<and>
           ncount_read nn OUTPUT = Some oc \<and>
           (\<forall>j. 0 \<le> j \<and> j < ic \<longrightarrow>
              (\<exists>n. node_of nn INPUT j = Some n \<and>
                   read_int (layers nn) (wcount_at n) = Some 0 \<and>
                   inpNodeSize nn = sizeof_Node + 0 * sizeof_double)) \<and>
           (\<forall>j. 0 \<le> j \<and> j < hc \<longrightarrow>
              (\<exists>n. node_of nn HIDDEN j = Some n \<and>
                   read_int (layers nn) (wcount_at n) = Some ic \<and>
                   hidNodeSize nn = sizeof_Node + ic * sizeof_double)) \<and>
           (\<forall>j. 0 \<le> j \<and> j < oc \<longrightarrow>
              (\<exists>n. node_of nn OUTPUT j = Some n \<and>
                   read_int (layers nn) (wcount_at n) = Some hc \<and>
                   outNodeSize nn = sizeof_Node + hc * sizeof_double)) \<and>
           (\<forall>ltype j. 0 \<le> j \<and> j < ncount_of ic hc oc ltype \<longrightarrow>
              (\<exists>n. node_of nn ltype j = Some n \<and>
                   node_of nn ltype (j + 1) = Some (n + node_size nn ltype)))"
proof -
  from createNetwork_spec [OF assms, of rnd] obtain nn where
    run: "createNetwork rnd ic hc oc = Some nn" and wf: "wf_network nn ic hc oc"
    by blast
  have nc: "ncount_read nn INPUT = Some ic" "ncount_read nn HIDDEN = Some hc"
    "ncount_read nn OUTPUT = Some oc"
    using wf_ncount_read [OF wf, of INPUT] wf_ncount_read [OF wf, of HIDDEN]
      wf_ncount_read [OF wf, of OUTPUT]
    by simp_all
  have node: "\<exists>n. node_of nn lt j = Some n \<and>
                read_int (layers nn) (wcount_at n) = Some (wcount_of ic hc oc lt) \<and>
                node_size nn lt = sizeof_Node + wcount_of ic hc oc lt * sizeof_double"
    if "0 \<le> j \<and> j < ncount_of ic hc oc lt" for lt j
    using wf_node_of [OF wf, of j lt] wf_cell_wcount [OF wf, of j lt] wf_node_size [OF wf, of lt] that
    by (simp add: cell_addr_def)
  have i: "\<exists>n. node_of nn INPUT j = Some n \<and>
                read_int (layers nn) (wcount_at n) = Some 0 \<and>
                inpNodeSize nn = sizeof_Node + 0 * sizeof_double" if "0 \<le> j \<and> j < ic" for j
    using node [of j INPUT] that by simp
  have h: "\<exists>n. node_of nn HIDDEN j = Some n \<and>
                read_int (layers nn) (wcount_at n) = Some ic \<and>
                hidNodeSize nn = sizeof_Node + ic * sizeof_double" if "0 \<le> j \<and> j < hc" for j
    using node [of j HIDDEN] that by simp
  have o: "\<exists>n. node_of nn OUTPUT j = Some n \<and>
                read_int (layers nn) (wcount_at n) = Some hc \<and>
                outNodeSize nn = sizeof_Node + hc * sizeof_double" if "0 \<le> j \<and> j < oc" for j
    using node [of j OUTPUT] that by simp
  have st: "\<exists>n. node_of nn lt j = Some n \<and> node_of nn lt (j + 1) = Some (n + node_size nn lt)"
    if "0 \<le> j \<and> j < ncount_of ic hc oc lt" for lt j
    using wf_node_of [OF wf, of j lt] wf_node_of [OF wf, of "j + 1" lt] that
    by (simp add: node_addr_Suc)
  from run nc i h o st show ?thesis by blast
qed

theorem createNetwork_layer_shapes_witness:
  "(0::int) < 2 \<and> (0::int) < 3 \<and> sizes_fit 2 3 2 \<and>
   (\<exists>nn. createNetwork (rand_const 0) 2 3 2 = Some nn \<and>
      ncount_read nn INPUT = Some 2 \<and>
      ncount_read nn HIDDEN = Some 3 \<and>
      ncount_read nn OUTPUT = Some 2 \<and>
      inpNodeSize nn = 24 \<and> hidNodeSize nn = 40 \<and> outNodeSize nn = 48 \<and>
      (\<exists>n. node_of nn INPUT 1 = Some n \<and> read_int (layers nn) (wcount_at n) = Some 0) \<and>
      (\<exists>n. node_of nn HIDDEN 2 = Some n \<and> read_int (layers nn) (wcount_at n) = Some 2) \<and>
      (\<exists>n. node_of nn OUTPUT 1 = Some n \<and> read_int (layers nn) (wcount_at n) = Some 3) \<and>
      (\<exists>n. node_of nn HIDDEN 1 = Some n \<and> node_of nn HIDDEN 2 = Some (n + 40)))"
proof -
  have p: "(0::int) < 2" "(0::int) < 3" by simp_all
  have f: "sizes_fit 2 3 2"
    by (simp add: sizes_fit_def fits_int_def INT_MAX_def sizes)
  from createNetwork_layer_shapes [OF p(1) p(2) p(1) f, of "rand_const 0"] obtain nn where
    run: "createNetwork (rand_const 0) 2 3 2 = Some nn" and
    nc: "ncount_read nn INPUT = Some 2" "ncount_read nn HIDDEN = Some 3"
      "ncount_read nn OUTPUT = Some 2" and
    i: "\<And>j. 0 \<le> j \<and> j < 2 \<Longrightarrow> \<exists>n. node_of nn INPUT j = Some n \<and>
                   read_int (layers nn) (wcount_at n) = Some 0 \<and>
                   inpNodeSize nn = sizeof_Node + 0 * sizeof_double" and
    h: "\<And>j. 0 \<le> j \<and> j < 3 \<Longrightarrow> \<exists>n. node_of nn HIDDEN j = Some n \<and>
                   read_int (layers nn) (wcount_at n) = Some 2 \<and>
                   hidNodeSize nn = sizeof_Node + 2 * sizeof_double" and
    o: "\<And>j. 0 \<le> j \<and> j < 2 \<Longrightarrow> \<exists>n. node_of nn OUTPUT j = Some n \<and>
                   read_int (layers nn) (wcount_at n) = Some 3 \<and>
                   outNodeSize nn = sizeof_Node + 3 * sizeof_double" and
    st: "\<And>ltype j. 0 \<le> j \<and> j < ncount_of 2 3 2 ltype \<Longrightarrow>
           \<exists>n. node_of nn ltype j = Some n \<and>
               node_of nn ltype (j + 1) = Some (n + node_size nn ltype)"
    by blast
  from i [of 1] h [of 2] o [of 1]
  have a: "inpNodeSize nn = 24" "hidNodeSize nn = 40" "outNodeSize nn = 48"
    "\<exists>n. node_of nn INPUT 1 = Some n \<and> read_int (layers nn) (wcount_at n) = Some 0"
    "\<exists>n. node_of nn HIDDEN 2 = Some n \<and> read_int (layers nn) (wcount_at n) = Some 2"
    "\<exists>n. node_of nn OUTPUT 1 = Some n \<and> read_int (layers nn) (wcount_at n) = Some 3"
    by (auto simp: sizes)
  from st [of 1 HIDDEN] a(2)
  have b: "\<exists>n. node_of nn HIDDEN 1 = Some n \<and> node_of nn HIDDEN 2 = Some (n + 40)"
    by simp
  from p f run nc a b show ?thesis by blast
qed


section \<open>Randomization of a created network (C8)\<close>

lemma weight_drawn_bounds:
  assumes "\<forall>k. 0 \<le> rnd k \<and> rnd k \<le> RAND_MAX" and "weight_drawn rnd i w"
  shows "\<bar>w\<bar> \<le> 0.7 \<and> (if i mod 2 \<noteq> 0 then w \<le> 0 else 0 \<le> w)"
proof -
  from assms(2) obtain n where
    w: "w = (if i mod 2 \<noteq> 0 then - (0.7 * (real_of_int (rnd n) / real_of_int RAND_MAX))
             else 0.7 * (real_of_int (rnd n) / real_of_int RAND_MAX))"
    unfolding weight_drawn_def by blast
  from assms(1) have r: "0 \<le> rnd n" "rnd n \<le> RAND_MAX" by simp_all
  have R: "(0::real) < real_of_int RAND_MAX" by (simp add: RAND_MAX_def)
  have q0: "0 \<le> real_of_int (rnd n) / real_of_int RAND_MAX"
    using r(1) R by simp
  have q1: "real_of_int (rnd n) / real_of_int RAND_MAX \<le> 1"
    using r(2) R by simp
  from q0 q1 w show ?thesis by (auto split: if_splits)
qed

lemma bias_drawn_bounds:
  assumes "\<forall>k. 0 \<le> rnd k \<and> rnd k \<le> RAND_MAX" and "bias_drawn rnd j b"
  shows "\<bar>b\<bar> \<le> 1 \<and> (if j mod 2 \<noteq> 0 then b \<le> 0 else 0 \<le> b)"
proof -
  from assms(2) obtain n where
    b: "b = (if j mod 2 \<noteq> 0 then - (real_of_int (rnd n) / real_of_int RAND_MAX)
             else real_of_int (rnd n) / real_of_int RAND_MAX)"
    unfolding bias_drawn_def by blast
  from assms(1) have r: "0 \<le> rnd n" "rnd n \<le> RAND_MAX" by simp_all
  have R: "(0::real) < real_of_int RAND_MAX" by (simp add: RAND_MAX_def)
  have q0: "0 \<le> real_of_int (rnd n) / real_of_int RAND_MAX"
    using r(1) R by simp
  have q1: "real_of_int (rnd n) / real_of_int RAND_MAX \<le> 1"
    using r(2) R by simp
  from q0 q1 b show ?thesis by (auto split: if_splits)
qed

text \<open>
  C8, as stated, with every weight of magnitude below 0.7: \<open>rand()\<close> may return
  \<open>RAND_MAX\<close>, and then \<open>0.7 * (rand() / (double) RAND_MAX)\<close> is 0.7 itself.  In the network
  with one node in each layer, the weight of the hidden node (node address 40, weight
  address 64) is then 7/10.
\<close>

theorem createNetwork_weight_at_upper_bound:
  "createNetwork (rand_const RAND_MAX) 1 1 1 \<noteq> None \<and>
   node_of (the (createNetwork (rand_const RAND_MAX) 1 1 1)) HIDDEN 0 = Some 40 \<and>
   read_dbl (layers (the (createNetwork (rand_const RAND_MAX) 1 1 1))) (weights_at 40 0) = Some (7/10)"
proof -
  have f: "sizes_fit 1 1 1"
    by (simp add: sizes_fit_def fits_int_def INT_MAX_def sizes)
  from createNetwork_spec [of 1 1 1 "rand_const RAND_MAX"] f obtain nn where
    run: "createNetwork (rand_const RAND_MAX) 1 1 1 = Some nn" and
    wf: "wf_network nn 1 1 1" and
    W: "\<And>lt j k. lt \<noteq> INPUT \<and> 0 \<le> j \<and> j < ncount_of 1 1 1 lt \<and> 0 \<le> k \<and> k < wcount_of 1 1 1 lt \<Longrightarrow>
          \<exists>v. layers nn (cell_addr nn lt j (Weight k)) = Some (DblCell v) \<and>
              weight_drawn (rand_const RAND_MAX) k v"
    by auto
  have a: "node_addr nn HIDDEN 0 = 40"
    using wf by (simp add: wf_network_def node_addr_def fields sizes)
  from W [of HIDDEN 0 0] obtain v where
    v: "layers nn (cell_addr nn HIDDEN 0 (Weight 0)) = Some (DblCell v)"
      "weight_drawn (rand_const RAND_MAX) 0 v"
    by auto
  from v(2) have "v = 7/10"
    by (simp add: weight_drawn_def rand_const_def RAND_MAX_def)
  with v(1) a have "read_dbl (layers nn) (weights_at 40 0) = Some (7/10)"
    by (simp add: cell_addr_def read_dbl_def)
  with run wf_node_of [OF wf, of 0 HIDDEN] a show ?thesis by simp
qed

text \<open>
  C8, amended: for positive counts for which the three layer sizes and the sum of the input
  and the hidden layer's size fit an \<open>int\<close>, and results of \<open>rand()\<close> between 0 and
  \<open>RAND_MAX\<close>, createNetwork returns a network in which every weight of every hidden and
  output node is drawn as 0.7 * (rand() / RAND_MAX), negated at odd connection indices: its
  magnitude is in [0, 0.7], bounds included, it is non-positive at odd and non-negative at
  even connection indices; every bias of these nodes is drawn as rand() / RAND_MAX, negated
  at odd node indices of the layer: magnitude in [0, 1], non-positive at odd and
  non-negative at even node indices; every input node has weight count 0 and bias 0.
\<close>

theorem createNetwork_randomization:
  assumes "0 < ic" and "0 < hc" and "0 < oc" and "sizes_fit ic hc oc"
    and "\<forall>k. 0 \<le> rnd k \<and> rnd k \<le> RAND_MAX"
  shows "\<exists>nn. createNetwork rnd ic hc oc = Some nn \<and>
           (\<forall>ltype j i. ltype \<noteq> INPUT \<and> 0 \<le> j \<and> j < ncount_of ic hc oc ltype \<and>
                        0 \<le> i \<and> i < wcount_of ic hc oc ltype \<longrightarrow>
              (\<exists>n w. node_of nn ltype j = Some n \<and>
                     read_dbl (layers nn) (weights_at n i) = Some w \<and>
                     weight_drawn rnd i w \<and> \<bar>w\<bar> \<le> 0.7 \<and>
                     (if i mod 2 \<noteq> 0 then w \<le> 0 else 0 \<le> w))) \<and>
           (\<forall>ltype j. ltype \<noteq> INPUT \<and> 0 \<le> j \<and> j < ncount_of ic hc oc ltype \<longrightarrow>
              (\<exists>n b. node_of nn ltype j = Some n \<and>
                     read_dbl (layers nn) (bias_at n) = Some b \<and>
                     bias_drawn rnd j b \<and> \<bar>b\<bar> \<le> 1 \<and>
                     (if j mod 2 \<noteq> 0 then b \<le> 0 else 0 \<le> b))) \<and>
           (\<forall>j. 0 \<le> j \<and> j < ic \<longrightarrow>
              (\<exists>n. node_of nn INPUT j = Some n \<and>
                   read_int (layers nn) (wcount_at n) = Some 0 \<and>
                   read_dbl (layers nn) (bias_at n) = Some 0))"
proof -
  from createNetwork_spec [OF assms(1-4), of rnd] obtain nn where
    run: "createNetwork rnd ic hc oc = Some nn" and
    wf: "wf_network nn ic hc oc" and
    W: "\<And>lt j k. lt \<noteq> INPUT \<and> 0 \<le> j \<and> j < ncount_of ic hc oc lt \<and> 0 \<le> k \<and> k < wcount_of ic hc oc lt \<Longrightarrow>
          \<exists>v. layers nn (cell_addr nn lt j (Weight k)) = Some (DblCell v) \<and> weight_drawn rnd k v" and
    B: "\<And>lt j. lt \<noteq> INPUT \<and> 0 \<le> j \<and> j < ncount_of ic hc oc lt \<Longrightarrow>
          \<exists>v. layers nn (cell_addr nn lt j Bias) = Some (DblCell v) \<and> bias_drawn rnd j v" and
    I: "\<And>j. 0 \<le> j \<and> j < ic \<Longrightarrow> layers nn (cell_addr nn INPUT j Bias) = Some (DblCell 0)"
    by blast
  have gn: "node_of nn lt j = Some (node_addr nn lt j)"
    if "0 \<le> j \<and> j < ncount_of ic hc oc lt" for lt j
    using wf_node_of [OF wf, of j lt] that by simp
  have w: "\<exists>n w. node_of nn lt j = Some n \<and>
                 read_dbl (layers nn) (weights_at n i) = Some w \<and>
                 weight_drawn rnd i w \<and> \<bar>w\<bar> \<le> 0.7 \<and> (if i mod 2 \<noteq> 0 then w \<le> 0 else 0 \<le> w)"
    if c: "lt \<noteq> INPUT \<and> 0 \<le> j \<and> j < ncount_of ic hc oc lt \<and> 0 \<le> i \<and> i < wcount_of ic hc oc lt"
    for lt j i
  proof -
    from W [OF c] obtain v where
      v: "layers nn (cell_addr nn lt j (Weight i)) = Some (DblCell v)" "weight_drawn rnd i v"
      by blast
    from v(1) have "read_dbl (layers nn) (weights_at (node_addr nn lt j) i) = Some v"
      by (simp add: cell_addr_def read_dbl_def)
    with gn [of j lt] c v(2) weight_drawn_bounds [OF assms(5) v(2)]
    show ?thesis by blast
  qed
  have b: "\<exists>n b. node_of nn lt j = Some n \<and>
                 read_dbl (layers nn) (bias_at n) = Some b \<and>
                 bias_drawn rnd j b \<and> \<bar>b\<bar> \<le> 1 \<and> (if j mod 2 \<noteq> 0 then b \<le> 0 else 0 \<le> b)"
    if c: "lt \<noteq> INPUT \<and> 0 \<le> j \<and> j < ncount_of ic hc oc lt" for lt j
  proof -
    from B [OF c] obtain v where
      v: "layers nn (cell_addr nn lt j Bias) = Some (DblCell v)" "bias_drawn rnd j v"
      by blast
    from v(1) have "read_dbl (layers nn) (bias_at (node_addr nn lt j)) = Some v"
      by (simp add: cell_addr_def read_dbl_def)
    with gn [of j lt] c v(2) bias_drawn_bounds [OF assms(5) v(2)]
    show ?thesis by blast
  qed
  have i: "\<exists>n. node_of nn INPUT j = Some n \<and>
               read_int (layers nn) (wcount_at n) = Some 0 \<and>
               read_dbl (layers nn) (bias_at n) = Some 0"
    if c: "0 \<le> j \<and> j < ic" for j
  proof -
    from I [OF c] have "read_dbl (layers nn) (bias_at (node_addr nn INPUT j)) = Some 0"
      by (simp add: cell_addr_def read_dbl_def)
    with gn [of j INPUT] wf_cell_wcount [OF wf, of j INPUT] c
    show ?thesis by (simp add: cell_addr_def)
  qed
  from run w b i show ?thesis by blast
qed

theorem createNetwork_randomization_witness:
  "(0::int) < 2 \<and> (0::int) < 3 \<and> sizes_fit 2 3 2 \<and>
   (\<forall>k. 0 \<le> rand_const 1073741823 k \<and> rand_const 1073741823 k \<le> RAND_MAX) \<and>
   (\<exists>nn. createNetwork (rand_const 1073741823) 2 3 2 = Some nn \<and>
      (\<exists>n w. node_of nn HIDDEN 2 = Some n \<and>
             read_dbl (layers nn) (weights_at n 1) = Some w \<and> \<bar>w\<bar> \<le> 0.7 \<and> w \<le> 0) \<and>
      (\<exists>n w. node_of nn OUTPUT 1 = Some n \<and>
             read_dbl (layers nn) (weights_at n 2) = Some w \<and> \<bar>w\<bar> \<le> 0.7 \<and> 0 \<le> w) \<and>
      (\<exists>n b. node_of nn OUTPUT 1 = Some n \<and>
             read_dbl (layers nn) (bias_at n) = Some b \<and> b \<le> 0) \<and>
      (\<exists>n. node_of nn INPUT 1 = Some n \<and>
           read_int (layers nn) (wcount_at n) = Some 0 \<and>
           read_dbl (layers nn) (bias_at n) = Some 0))"
proof -
  have p: "(0::int) < 2" "(0::int) < 3" by simp_all
  have f: "sizes_fit 2 3 2"
    by (simp add: sizes_fit_def fits_int_def INT_MAX_def sizes)
  have r: "\<forall>k. 0 \<le> rand_const 1073741823 k \<and> rand_const 1073741823 k \<le> RAND_MAX"
    by (simp add: rand_const_def RAND_MAX_def)
  from createNetwork_randomization [OF p(1) p(2) p(1) f r] obtain nn where
    run: "createNetwork (rand_const 1073741823) 2 3 2 = Some nn" and
    W: "\<And>ltype j i. ltype \<noteq> INPUT \<and> 0 \<le> j \<and> j < ncount_of 2 3 2 ltype \<and>
                        0 \<le> i \<and> i < wcount_of 2 3 2 ltype \<Longrightarrow>
              (\<exists>n w. node_of nn ltype j = Some n \<and>
                     read_dbl (layers nn) (weights_at n i) = Some w \<and>
                     weight_drawn (rand_const 1073741823) i w \<and> \<bar>w\<bar> \<le> 0.7 \<and>
                     (if i mod 2 \<noteq> 0 then w \<le> 0 else 0 \<le> w))" and
    B: "\<And>ltype j. ltype \<noteq> INPUT \<and> 0 \<le> j \<and> j < ncount_of 2 3 2 ltype \<Longrightarrow>
              (\<exists>n b. node_of nn ltype j = Some n \<and>
                     read_dbl (layers nn) (bias_at n) = Some b \<and>
                     bias_drawn (rand_const 1073741823) j b \<and> \<bar>b\<bar> \<le> 1 \<and>
                     (if j mod 2 \<noteq> 0 then b \<le> 0 else 0 \<le> b))" and
    I: "\<And>j. 0 \<le> j \<and> j < 2 \<Longrightarrow>
              (\<exists>n. node_of nn INPUT j = Some n \<and>
                   read_int (layers nn) (wcount_at n) = Some 0 \<and>
                   read_dbl (layers nn) (bias_at n) = Some 0)"
    by blast
  have "\<exists>n w. node_of nn HIDDEN 2 = Some n \<and>
             read_dbl (layers nn) (weights_at n 1) = Some w \<and> \<bar>w\<bar> \<le> 0.7 \<and> w \<le> 0"
    using W [of HIDDEN 2 1] by auto
  moreover have "\<exists>n w. node_of nn OUTPUT 1 = Some n \<and>
             read_dbl (layers nn) (weights_at n 2) = Some w \<and> \<bar>w\<bar> \<le> 0.7 \<and> 0 \<le> w"
    using W [of OUTPUT 1 2] by auto
  moreover have "\<exists>n b. node_of nn OUTPUT 1 = Some n \<and>
             read_dbl (layers nn) (bias_at n) = Some b \<and> b \<le> 0"
    using B [of OUTPUT 1] by auto
  moreover note I [of 1]
  ultimately show ?thesis using p f r run by simp
qed


section \<open>Lifetime invariants (C9)\<close>

text \<open>
  The operations on a network after its construction, and runs of any sequence of them.
  getNetworkClassification only reads the network.  feedInput is used as its contract asks:
  with a vector that is no longer than the input layer.  A cell is mutable when it is the
  bias, the output or a weight of a node.
\<close>

datatype operation =
  FeedInput Vector
| FeedForwardNetwork
| BackPropagateNetwork int
| GetNetworkClassification

fun run_op :: "Network \<Rightarrow> operation \<Rightarrow> Network option" where
  "run_op nn (FeedInput v) = feedInput nn v"
| "run_op nn FeedForwardNetwork = feedForwardNetwork nn"
| "run_op nn (BackPropagateNetwork targetClassification) = backPropagateNetwork nn targetClassification"
| "run_op nn GetNetworkClassification =
     (case getNetworkClassification nn of None \<Rightarrow> None | Some maxInd \<Rightarrow> Some nn)"

fun run_ops :: "Network \<Rightarrow> operation list \<Rightarrow> Network option" where
  "run_ops nn [] = Some nn"
| "run_ops nn (x # xs) = (case run_op nn x of None \<Rightarrow> None | Some nn' \<Rightarrow> run_ops nn' xs)"

fun op_ok :: "int \<Rightarrow> operation \<Rightarrow> bool" where
  "op_ok ic (FeedInput v) \<longleftrightarrow> wf_vector v \<and> size_v v \<le> ic"
| "op_ok ic x \<longleftrightarrow> True"

definition mutable_cell :: "Network \<Rightarrow> int \<Rightarrow> int \<Rightarrow> int \<Rightarrow> int \<Rightarrow> bool" where
  "mutable_cell nn ic hc oc a \<longleftrightarrow>
     (\<exists>ltype j f. valid_cell ic hc oc ltype j f \<and> f \<noteq> Wcount \<and> a = cell_addr nn ltype j f)"

definition fields_only :: "Network \<Rightarrow> int \<Rightarrow> int \<Rightarrow> int \<Rightarrow> memory \<Rightarrow> bool" where
  "fields_only nn ic hc oc m' \<longleftrightarrow>
     same_layout (layers nn) m' \<and> (\<forall>a. m' a \<noteq> layers nn a \<longrightarrow> mutable_cell nn ic hc oc a)"

lemma mutable_cell_layers_update [simp]:
  "mutable_cell (nn\<lparr>layers := m\<rparr>) ic hc oc a = mutable_cell nn ic hc oc a"
  by (simp add: mutable_cell_def)

lemma fields_only_refl: "fields_only nn ic hc oc (layers nn)"
  by (simp add: fields_only_def same_layout_refl)

lemma fields_only_trans:
  assumes "fields_only nn ic hc oc m1" and "fields_only (nn\<lparr>layers := m1\<rparr>) ic hc oc m2"
  shows "fields_only nn ic hc oc m2"
  unfolding fields_only_def
proof (intro conjI allI impI)
  show "same_layout (layers nn) m2"
    using assms same_layout_trans [of "layers nn" m1 m2] by (simp add: fields_only_def)
next
  fix a assume "m2 a \<noteq> layers nn a"
  then have "m2 a \<noteq> m1 a \<or> m1 a \<noteq> layers nn a" by auto
  with assms show "mutable_cell nn ic hc oc a"
    by (auto simp: fields_only_def)
qed

lemma params_updated_fields_only:
  assumes wf: "wf_network nn ic hc oc" and pu: "params_updated nn ic hc oc lt 0 sig m'"
  shows "fields_only nn ic hc oc m'"
  unfolding fields_only_def
proof (intro conjI allI impI)
  show "same_layout (layers nn) m'"
    by (rule params_updated_same_layout [OF wf _ pu]) simp
next
  fix a assume ne: "m' a \<noteq> layers nn a"
  from pu have "params_frame nn ic hc oc lt 0 m'" by (simp add: params_updated_def)
  with ne obtain j where j: "0 \<le> j" "j < ncount_of ic hc oc lt"
    and a: "a = cell_addr nn lt j Bias \<or>
            (\<exists>k. 0 \<le> k \<and> k < wcount_of ic hc oc lt \<and> a = cell_addr nn lt j (Weight k))"
    unfolding params_frame_def by blast
  from a show "mutable_cell nn ic hc oc a"
  proof
    assume "a = cell_addr nn lt j Bias"
    with j show ?thesis
      unfolding mutable_cell_def
      by (intro exI [of _ lt] exI [of _ j] exI [of _ Bias]) (simp add: valid_cell_def)
  next
    assume "\<exists>k. 0 \<le> k \<and> k < wcount_of ic hc oc lt \<and> a = cell_addr nn lt j (Weight k)"
    then obtain k where "0 \<le> k" "k < wcount_of ic hc oc lt" "a = cell_addr nn lt j (Weight k)"
      by blast
    with j show ?thesis
      unfolding mutable_cell_def
      by (intro exI [of _ lt] exI [of _ j] exI [of _ "Weight k"]) (simp add: valid_cell_def)
  qed
qed

lemma run_op_fields_only:
  assumes wf: "wf_network nn ic hc oc" and ok: "op_ok ic x"
  shows "\<exists>m'. run_op nn x = Some (nn\<lparr>layers := m'\<rparr>) \<and> fields_only nn ic hc oc m'"
proof (cases x)
  case (FeedInput v)
  with ok have v: "size_v v \<le> ic" "size_v v \<le> int (length (vals v))"
    by (simp_all add: wf_vector_def)
  from feedInput_spec [OF wf v] obtain m' where
    run: "feedInput nn v = Some (nn\<lparr>layers := m'\<rparr>)" and
    set: "\<And>k. 0 \<le> k \<Longrightarrow> k < size_v v \<Longrightarrow>
            m' (cell_addr nn INPUT k Output) = Some (DblCell (vals v ! nat k))" and
    frame: "\<And>a. (\<forall>k. 0 \<le> k \<and> k < size_v v \<longrightarrow> a \<noteq> cell_addr nn INPUT k Output) \<Longrightarrow>
            m' a = layers nn a"
    by auto
  have vc: "valid_cell ic hc oc INPUT k Output" if "0 \<le> k" "k < size_v v" for k
    using that v(1) by (simp add: valid_cell_def)
  have sl: "same_layout (layers nn) m'"
  proof (rule same_layout_frame [where W = "{a. \<exists>k. 0 \<le> k \<and> k < size_v v \<and> a = cell_addr nn INPUT k Output}"])
    fix a assume "a \<notin> {a. \<exists>k. 0 \<le> k \<and> k < size_v v \<and> a = cell_addr nn INPUT k Output}"
    then show "m' a = layers nn a" using frame [of a] by auto
  next
    fix a assume "a \<in> {a. \<exists>k. 0 \<le> k \<and> k < size_v v \<and> a = cell_addr nn INPUT k Output}"
    then obtain k where k: "0 \<le> k" "k < size_v v" "a = cell_addr nn INPUT k Output" by auto
    with wf_cell_is_dbl [OF wf vc, of k] set [of k]
    show "is_dbl (layers nn) a \<and> is_dbl m' a" by (simp add: is_dbl_def)
  qed
  have mc: "mutable_cell nn ic hc oc a" if "m' a \<noteq> layers nn a" for a
  proof -
    from that frame [of a] obtain k where k: "0 \<le> k" "k < size_v v" "a = cell_addr nn INPUT k Output"
      by blast
    with vc [of k] show ?thesis
      unfolding mutable_cell_def by (intro exI [of _ INPUT] exI [of _ k] exI [of _ Output]) simp
  qed
  from run sl mc FeedInput show ?thesis
    by (auto simp: fields_only_def)
next
  case FeedForwardNetwork
  from feedForwardNetwork_spec [OF wf] obtain m' where
    run: "feedForwardNetwork nn = Some (nn\<lparr>layers := m'\<rparr>)" and
    frame: "\<And>a. (\<forall>h. 0 \<le> h \<and> h < hc \<longrightarrow> a \<noteq> cell_addr nn HIDDEN h Output) \<and>
                (\<forall>j. 0 \<le> j \<and> j < oc \<longrightarrow> a \<noteq> cell_addr nn OUTPUT j Output) \<Longrightarrow>
              m' a = layers nn a" and
    sl: "same_layout (layers nn) m'"
    by blast
  have mc: "mutable_cell nn ic hc oc a" if "m' a \<noteq> layers nn a" for a
  proof -
    from that frame [of a] consider h where "0 \<le> h" "h < hc" "a = cell_addr nn HIDDEN h Output"
      | j where "0 \<le> j" "j < oc" "a = cell_addr nn OUTPUT j Output"
      by blast
    then show ?thesis
    proof cases
      case 1
      then show ?thesis
        unfolding mutable_cell_def
        by (intro exI [of _ HIDDEN] exI [of _ h] exI [of _ Output]) (simp add: valid_cell_def)
    next
      case 2
      then show ?thesis
        unfolding mutable_cell_def
        by (intro exI [of _ OUTPUT] exI [of _ j] exI [of _ Output]) (simp add: valid_cell_def)
    qed
  qed
  from run sl mc FeedForwardNetwork show ?thesis
    by (auto simp: fields_only_def)
next
  case (BackPropagateNetwork t)
  from backPropagateNetwork_spec [OF wf, of t] obtain m1 m2 where
    n: "backPropagateNetwork nn t = Some (nn\<lparr>layers := m2\<rparr>)" and
    p1: "params_updated nn ic hc oc OUTPUT 0 (error_signal nn t) m1" and
    p2: "params_updated (nn\<lparr>layers := m1\<rparr>) ic hc oc HIDDEN 0
           (hidden_error_signal (nn\<lparr>layers := m1\<rparr>) oc t) m2" and
    s1: "same_layout (layers nn) m1"
    by blast
  have wf1: "wf_network (nn\<lparr>layers := m1\<rparr>) ic hc oc"
    by (rule wf_same_layout [OF wf s1])
  have "fields_only nn ic hc oc m2"
    using params_updated_fields_only [OF wf p1] params_updated_fields_only [OF wf1 p2]
    by (rule fields_only_trans)
  with n BackPropagateNetwork show ?thesis by auto
next
  case GetNetworkClassification
  from getNetworkClassification_spec [OF wf] obtain r where "getNetworkClassification nn = Some r"
    by blast
  with GetNetworkClassification show ?thesis
    by (auto intro!: exI [of _ "layers nn"] fields_only_refl)
qed

lemma run_ops_fields_only:
  assumes "wf_network nn ic hc oc" and "list_all (op_ok ic) ops"
  shows "\<exists>m'. run_ops nn ops = Some (nn\<lparr>layers := m'\<rparr>) \<and> fields_only nn ic hc oc m'"
  using assms
proof (induction ops arbitrary: nn)
  case Nil
  then show ?case
    by (auto intro!: exI [of _ "layers nn"] fields_only_refl)
next
  case (Cons x xs)
  from Cons.prems have ok: "op_ok ic x" and oks: "list_all (op_ok ic) xs" by simp_all
  from run_op_fields_only [OF Cons.prems(1) ok] obtain m1 where
    r1: "run_op nn x = Some (nn\<lparr>layers := m1\<rparr>)" and f1: "fields_only nn ic hc oc m1"
    by blast
  have wf1: "wf_network (nn\<lparr>layers := m1\<rparr>) ic hc oc"
    using wf_same_layout [OF Cons.prems(1)] f1 by (simp add: fields_only_def)
  from Cons.IH [OF wf1 oks] obtain m' where
    r2: "run_ops (nn\<lparr>layers := m1\<rparr>) xs = Some (nn\<lparr>layers := m'\<rparr>)" and
    f2: "fields_only (nn\<lparr>layers := m1\<rparr>) ic hc oc m'"
    by auto
  from r1 r2 fields_only_trans [OF f1 f2] show ?case by auto
qed

text \<open>
  C9, as stated, for every operation: feedInput does not compare the size of the vector
  with the node count of the input layer.  In the network that createNetwork builds for one
  input, two hidden and one output node, the hidden nodes are at offsets 40 and 72, and the
  weight count of the second is stored at offset 88.  feedInput with a vector of four
  elements stores at offsets 16, 40, 64 and 88: the fourth store replaces that weight count
  by the double 4.
\<close>

theorem feedInput_overwrites_wcount:
  "createNetwork (rand_const 0) 1 2 1 \<noteq> None \<and>
   node_of (the (createNetwork (rand_const 0) 1 2 1)) HIDDEN 1 = Some 72 \<and>
   wcount_at 72 = 88 \<and>
   read_int (layers (the (createNetwork (rand_const 0) 1 2 1))) 88 = Some 1 \<and>
   feedInput (the (createNetwork (rand_const 0) 1 2 1)) \<lparr>size_v = 4, vals = [1, 2, 3, 4]\<rparr> \<noteq> None \<and>
   layers (the (feedInput (the (createNetwork (rand_const 0) 1 2 1))
                  \<lparr>size_v = 4, vals = [1, 2, 3, 4]\<rparr>)) 88 = Some (DblCell 4) \<and>
   read_int (layers (the (feedInput (the (createNetwork (rand_const 0) 1 2 1))
                            \<lparr>size_v = 4, vals = [1, 2, 3, 4]\<rparr>))) 88 = None"
proof -
  have f: "sizes_fit 1 2 1"
    by (simp add: sizes_fit_def fits_int_def INT_MAX_def sizes)
  from createNetwork_spec [of 1 2 1 "rand_const 0"] f obtain nn where
    run: "createNetwork (rand_const 0) 1 2 1 = Some nn" and wf: "wf_network nn 1 2 1"
    by auto
  have sz: "inpNodeSize nn = 24" "inpLayerSize nn = 32" "hidNodeSize nn = 32"
    using wf by (simp_all add: wf_network_def sizes)
  have n1: "node_of nn HIDDEN 1 = Some 72"
    using wf_node_of [OF wf, of 1 HIDDEN] by (simp add: node_addr_def sz fields sizes)
  have wc: "read_int (layers nn) 88 = Some 1"
    using wf_cell_wcount [OF wf, of 1 HIDDEN]
    by (simp add: cell_addr_def node_addr_def sz fields sizes)
  have d16: "is_dbl (layers nn) 16"
    using wf_cell_is_dbl [OF wf, of INPUT 0 Output]
    by (simp add: valid_cell_def cell_addr_def node_addr_def sz fields sizes)
  have d40: "is_dbl (layers nn) 40"
    using wf_cell_is_dbl [OF wf, of HIDDEN 0 Bias]
    by (simp add: valid_cell_def cell_addr_def node_addr_def sz fields sizes)
  have d64: "is_dbl (layers nn) 64"
    using wf_cell_is_dbl [OF wf, of HIDDEN 0 "Weight 0"]
    by (simp add: valid_cell_def cell_addr_def node_addr_def sz fields sizes)
  from d16 d40 d64 wc
  have c: "layers nn 16 \<noteq> None" "layers nn 40 \<noteq> None" "layers nn 64 \<noteq> None" "layers nn 88 \<noteq> None"
    by (auto simp: is_dbl_def read_int_def split: option.splits cell.splits)
  let ?v = "\<lparr>size_v = 4, vals = [1, 2, 3, 4]\<rparr>"
  have fi: "feedInput nn ?v =
      Some (nn\<lparr>layers := (layers nn)(16 \<mapsto> DblCell 1, 40 \<mapsto> DblCell 2, 64 \<mapsto> DblCell 3,
                                       88 \<mapsto> DblCell 4)\<rparr>)"
    using c
    by (simp add: feedInput_def feedInput_loop.simps vals_at_def write_dbl_def fields sizes)
  from run n1 wc fi show ?thesis
    by (simp add: read_int_def fields)
qed

text \<open>
  C9, amended: every sequence of operations on a well-formed network, in which feedInput is
  given vectors no longer than the input layer, returns; the six stored sizes are what they
  were; every layer's node count and every node's weight count, read from the store, are
  what they were; every slot whose cell differs from before is the output, the bias or a
  weight of a node; and the network is well-formed again, so the same holds for whatever is
  run next.
\<close>

theorem operations_keep_counts_and_sizes:
  assumes "wf_network nn ic hc oc" and "list_all (op_ok ic) ops"
  shows "\<exists>nn'. run_ops nn ops = Some nn' \<and>
           inpNodeSize nn' = inpNodeSize nn \<and> inpLayerSize nn' = inpLayerSize nn \<and>
           hidNodeSize nn' = hidNodeSize nn \<and> hidLayerSize nn' = hidLayerSize nn \<and>
           outNodeSize nn' = outNodeSize nn \<and> outLayerSize nn' = outLayerSize nn \<and>
           (\<forall>ltype. read_int (layers nn') (ncount_at (layer_at nn' ltype)) = Some (ncount_of ic hc oc ltype) \<and>
                    read_int (layers nn) (ncount_at (layer_at nn ltype)) = Some (ncount_of ic hc oc ltype)) \<and>
           (\<forall>ltype j. 0 \<le> j \<and> j < ncount_of ic hc oc ltype \<longrightarrow>
              read_int (layers nn') (wcount_at (node_addr nn' ltype j)) = Some (wcount_of ic hc oc ltype) \<and>
              read_int (layers nn) (wcount_at (node_addr nn ltype j)) = Some (wcount_of ic hc oc ltype)) \<and>
           (\<forall>a. layers nn' a \<noteq> layers nn a \<longrightarrow>
              (\<exists>ltype j f. valid_cell ic hc oc ltype j f \<and> (f = Output \<or> f = Bias \<or> (\<exists>k. f = Weight k)) \<and>
                 a = cell_addr nn ltype j f)) \<and>
           wf_network nn' ic hc oc"
proof -
  from run_ops_fields_only [OF assms] obtain m' where
    run: "run_ops nn ops = Some (nn\<lparr>layers := m'\<rparr>)" and f: "fields_only nn ic hc oc m'"
    by blast
  let ?nn' = "nn\<lparr>layers := m'\<rparr>"
  have wf': "wf_network ?nn' ic hc oc"
    using wf_same_layout [OF assms(1)] f by (simp add: fields_only_def)
  have nc: "read_int (layers ?nn') (ncount_at (layer_at ?nn' ltype)) = Some (ncount_of ic hc oc ltype) \<and>
            read_int (layers nn) (ncount_at (layer_at nn ltype)) = Some (ncount_of ic hc oc ltype)"
    for ltype
    using wf_ncount [OF wf', of ltype] wf_ncount [OF assms(1), of ltype] by simp
  have wc: "read_int (layers ?nn') (wcount_at (node_addr ?nn' ltype j)) = Some (wcount_of ic hc oc ltype) \<and>
            read_int (layers nn) (wcount_at (node_addr nn ltype j)) = Some (wcount_of ic hc oc ltype)"
    if "0 \<le> j \<and> j < ncount_of ic hc oc ltype" for ltype j
    using wf_cell_wcount [OF wf', of j ltype] wf_cell_wcount [OF assms(1), of j ltype] that
    by (simp add: cell_addr_def)
  have ch: "\<exists>ltype j f. valid_cell ic hc oc ltype j f \<and> (f = Output \<or> f = Bias \<or> (\<exists>k. f = Weight k)) \<and>
                 a = cell_addr nn ltype j f"
    if "layers ?nn' a \<noteq> layers nn a" for a
  proof -
    from that f obtain ltype j f' where
      c: "valid_cell ic hc oc ltype j f'" "f' \<noteq> Wcount" "a = cell_addr nn ltype j f'"
      unfolding fields_only_def mutable_cell_def by auto
    from c(2) have "f' = Output \<or> f' = Bias \<or> (\<exists>k. f' = Weight k)"
      by (cases f') simp_all
    with c show ?thesis by blast
  qed
  from run wf' nc wc ch show ?thesis
    by (intro exI [of _ ?nn']) simp
qed

theorem operations_keep_counts_and_sizes_witness:
  "wf_network (example_net 0 0) 1 1 2 \<and>
   list_all (op_ok 1) [FeedInput \<lparr>size_v = 1, vals = [1]\<rparr>, FeedForwardNetwork,
                       BackPropagateNetwork 0, GetNetworkClassification] \<and>
   (\<exists>nn'. run_ops (example_net 0 0)
             [FeedInput \<lparr>size_v = 1, vals = [1]\<rparr>, FeedForwardNetwork,
              BackPropagateNetwork 0, GetNetworkClassification] = Some nn' \<and>
      inpNodeSize nn' = 24 \<and> inpLayerSize nn' = 32 \<and> hidNodeSize nn' = 32 \<and>
      hidLayerSize nn' = 40 \<and> outNodeSize nn' = 32 \<and> outLayerSize nn' = 72 \<and>
      read_int (layers nn') 72 = Some 2 \<and> read_int (layers nn') 56 = Some 1)"
proof -
  let ?nn = "example_net 0 0"
  let ?ops = "[FeedInput \<lparr>size_v = 1, vals = [1]\<rparr>, FeedForwardNetwork,
               BackPropagateNetwork 0, GetNetworkClassification]"
  have w: "wf_network ?nn 1 1 2" by (rule wf_example_net)
  have ok: "list_all (op_ok 1) ?ops" by (simp add: wf_vector_def)
  from operations_keep_counts_and_sizes [OF w ok] obtain nn' where
    run: "run_ops ?nn ?ops = Some nn'" and
    sz: "inpNodeSize nn' = inpNodeSize ?nn" "inpLayerSize nn' = inpLayerSize ?nn"
      "hidNodeSize nn' = hidNodeSize ?nn" "hidLayerSize nn' = hidLayerSize ?nn"
      "outNodeSize nn' = outNodeSize ?nn" "outLayerSize nn' = outLayerSize ?nn" and
    nc: "\<And>ltype. read_int (layers nn') (ncount_at (layer_at nn' ltype)) = Some (ncount_of 1 1 2 ltype)" and
    wc: "\<And>ltype j. 0 \<le> j \<and> j < ncount_of 1 1 2 ltype \<Longrightarrow>
           read_int (layers nn') (wcount_at (node_addr nn' ltype j)) = Some (wcount_of 1 1 2 ltype)"
    by blast
  have s: "inpNodeSize nn' = 24" "inpLayerSize nn' = 32" "hidNodeSize nn' = 32"
      "hidLayerSize nn' = 40" "outNodeSize nn' = 32" "outLayerSize nn' = 72"
    using sz by (simp_all add: example_net_def)
  have "read_int (layers nn') 72 = Some 2"
    using nc [of OUTPUT] s by (simp add: fields)
  moreover have "read_int (layers nn') 56 = Some 1"
    using wc [of 0 HIDDEN] s by (simp add: node_addr_def fields sizes)
  ultimately show ?thesis using w ok run s by blast
qed

end
